(* ===== verification/Prelude.thy ===== *)
theory Prelude
  imports Main "HOL-Library.Word" "HOL-Library.Monad_Syntax"
begin

text \<open>
  Shared vocabulary of the development: the machine types of the C++ code, byte strings,
  arrays that are written in place, and the collections of facts that the component
  theories fill.
\<close>

unbundle bit_operations_syntax

section \<open>Machine types\<close>

type_synonym byte = "8 word"
type_synonym bytes = "8 word list"
type_synonym uint32 = "32 word"
type_synonym uint64 = "64 word"

text \<open>A signed 32-bit field is kept as its two's complement word and read with \<open>sint\<close>.\<close>

type_synonym int32 = "32 word"

text \<open>A \<open>float\<close> is kept as its IEEE bit pattern, which is what goes on the wire.\<close>

type_synonym float32 = "32 word"

abbreviation INT_MAX :: int where
  "INT_MAX \<equiv> 2147483647"

text \<open>A C string literal as the bytes of a \<open>std::string\<close>.\<close>

definition ascii :: "string \<Rightarrow> bytes" where
  "ascii s = map of_char s"

lemma length_ascii [simp]: "length (ascii s) = length s"
  by (simp add: ascii_def)

section \<open>Collections\<close>

text \<open>
  \<open>writes_intro\<close> composes the footprints of array writers, \<open>emits_intro\<close> composes
  what stream writers append to an output stream, \<open>size_simps\<close> relates the size functions to
  the bytes written, \<open>read_simps\<close> computes what a reader makes of such bytes.
\<close>

named_theorems writes_intro
named_theorems emits_intro
named_theorems size_simps
named_theorems read_simps

section \<open>Lists\<close>

text \<open>Overwriting a stretch of an array.\<close>

definition overwrite :: "'a list \<Rightarrow> nat \<Rightarrow> 'a list \<Rightarrow> 'a list" where
  "overwrite mem p xs = take p mem @ xs @ drop (p + length xs) mem"

lemma overwrite_Nil [simp]: "overwrite mem p [] = mem"
  by (simp add: overwrite_def)

lemma length_overwrite [simp]:
  "p + length xs \<le> length mem \<Longrightarrow> length (overwrite mem p xs) = length mem"
  by (simp add: overwrite_def)

lemma overwrite_overwrite:
  assumes "p + length xs \<le> length mem"
  shows "overwrite (overwrite mem p xs) (p + length xs) ys = overwrite mem p (xs @ ys)"
  using assms by (simp add: overwrite_def ac_simps)

lemma overwrite_single: "p < length mem \<Longrightarrow> mem[p := x] = overwrite mem p [x]"
  by (simp add: overwrite_def upd_conv_take_nth_drop)

lemma overwrite_0_full: "length xs \<le> length mem \<Longrightarrow> take (length xs) (overwrite mem 0 xs) = xs"
  by (simp add: overwrite_def)

lemma drop_overwrite_0: "drop (length xs) (overwrite mem 0 xs) = drop (length xs) mem"
  by (simp add: overwrite_def)

section \<open>Words\<close>

lemma unat_ucast_8_of_32: "unat (ucast (v :: 32 word) :: 8 word) = unat v mod 256"
  by (simp add: unsigned_ucast_eq take_bit_eq_mod)

lemma unat_drop_bit_div: "unat (drop_bit k (v :: 'a :: len word)) = unat v div 2 ^ k"
  by (metis drop_bit_eq_div unat_drop_bit_eq)

end
