(* ===== verification/CodedOutput.thy ===== *)
theory CodedOutput
  imports Prelude
begin

text \<open>
  The output half of \<open>google/protobuf/io/coded_stream.{h,cc}\<close>: the \<open>...ToArray\<close>
  writers, which store through a raw pointer, and \<open>CodedOutputStream\<close> over an
  \<open>OstreamOutputStream\<close> (\<open>io/zero_copy_stream_impl_lite.cc\<close>), which writes into blocks
  of 8192 bytes that are handed to the underlying \<open>std::ostream\<close> when they are full and
  when the stream is destroyed.

  A pointer into an array is the pair of the array and an index; a store outside of the
  array is \<open>None\<close>. \<open>writes f bs\<close> says that the writer \<open>f\<close> stores exactly the bytes
  \<open>bs\<close> and fails exactly when they do not fit. \<open>emits f bs\<close> says that \<open>f\<close> appends
  \<open>bs\<close> to the bytes that an output stream delivers, whatever the position of the current
  block; every stream writer is proved to emit a string that does not depend on the block.
\<close>

section \<open>Writing through a pointer\<close>

type_synonym target = "bytes \<times> nat"

definition poke :: "byte \<Rightarrow> target \<Rightarrow> target option" where
  "poke b t = (case t of (mem, p) \<Rightarrow>
     if p < length mem then Some (mem[p := b], p + 1) else None)"

definition WriteRawToArray :: "bytes \<Rightarrow> target \<Rightarrow> target option" where
  "WriteRawToArray data t = (case t of (mem, p) \<Rightarrow>
     if p + length data \<le> length mem then Some (overwrite mem p data, p + length data) else None)"

definition WriteStringToArray :: "bytes \<Rightarrow> target \<Rightarrow> target option" where
  "WriteStringToArray str t = WriteRawToArray str t"

function WriteVarint32ToArray :: "uint32 \<Rightarrow> target \<Rightarrow> target option" where
  "WriteVarint32ToArray value t =
     (if value \<ge> 0x80
      then (case poke (ucast (value OR 0x80)) t of
              None \<Rightarrow> None
            | Some t' \<Rightarrow> WriteVarint32ToArray (drop_bit 7 value) t')
      else poke (ucast value) t)"
  by pat_completeness auto
termination
  by (relation "measure (\<lambda>(v, t). unat v)")
    (auto simp: unat_drop_bit_div word_le_nat_alt intro!: div_less_dividend)

function WriteVarint64ToArray :: "uint64 \<Rightarrow> target \<Rightarrow> target option" where
  "WriteVarint64ToArray value t =
     (if value \<ge> 0x80
      then (case poke (ucast (value OR 0x80)) t of
              None \<Rightarrow> None
            | Some t' \<Rightarrow> WriteVarint64ToArray (drop_bit 7 value) t')
      else poke (ucast value) t)"
  by pat_completeness auto
termination
  by (relation "measure (\<lambda>(v, t). unat v)")
    (auto simp: unat_drop_bit_div word_le_nat_alt intro!: div_less_dividend)

declare WriteVarint32ToArray.simps [simp del] WriteVarint64ToArray.simps [simp del]

definition WriteVarint32SignExtendedToArray :: "int32 \<Rightarrow> target \<Rightarrow> target option" where
  "WriteVarint32SignExtendedToArray value t = WriteVarint64ToArray (scast value) t"

definition WriteTagToArray :: "uint32 \<Rightarrow> target \<Rightarrow> target option" where
  "WriteTagToArray value t = WriteVarint32ToArray value t"

definition WriteLittleEndian32ToArray :: "uint32 \<Rightarrow> target \<Rightarrow> target option" where
  "WriteLittleEndian32ToArray value t =
     WriteRawToArray [ucast value, ucast (drop_bit 8 value),
                      ucast (drop_bit 16 value), ucast (drop_bit 24 value)] t"

definition WriteLittleEndian64ToArray :: "uint64 \<Rightarrow> target \<Rightarrow> target option" where
  "WriteLittleEndian64ToArray value t =
     (let part0 = (ucast value :: uint32); part1 = (ucast (drop_bit 32 value) :: uint32)
      in WriteRawToArray
           [ucast part0, ucast (drop_bit 8 part0), ucast (drop_bit 16 part0), ucast (drop_bit 24 part0),
            ucast part1, ucast (drop_bit 8 part1), ucast (drop_bit 16 part1), ucast (drop_bit 24 part1)] t)"

definition WriteStringWithSizeToArray :: "bytes \<Rightarrow> target \<Rightarrow> target option" where
  "WriteStringWithSizeToArray str t =
     WriteVarint32ToArray (word_of_nat (length str)) t \<bind> WriteStringToArray str"

section \<open>Sizes\<close>

text \<open>\<open>Bits::Log2FloorNonZero_Portable\<close> of \<open>stubs/port.h\<close>: the loop over \<open>i = 4 .. 0\<close>.\<close>

definition log2_step :: "nat \<Rightarrow> uint32 \<times> nat \<Rightarrow> uint32 \<times> nat" where
  "log2_step i st = (case st of (value, log) \<Rightarrow>
     let shift = 2 ^ i; x = drop_bit shift value
     in if x \<noteq> 0 then (x, log + shift) else (value, log))"

definition Log2FloorNonZero :: "uint32 \<Rightarrow> nat" where
  "Log2FloorNonZero n = snd (fold log2_step [4, 3, 2, 1, 0] (n, 0))"

definition Log2FloorNonZero64 :: "uint64 \<Rightarrow> nat" where
  "Log2FloorNonZero64 n =
     (let topbits = (ucast (drop_bit 32 n) :: uint32)
      in if topbits = 0 then Log2FloorNonZero (ucast n) else 32 + Log2FloorNonZero topbits)"

definition VarintSize32 :: "uint32 \<Rightarrow> nat" where
  "VarintSize32 value = (Log2FloorNonZero (value OR 1) * 9 + 73) div 64"

definition VarintSize64 :: "uint64 \<Rightarrow> nat" where
  "VarintSize64 value = (Log2FloorNonZero64 (value OR 1) * 9 + 73) div 64"

definition VarintSize32SignExtended :: "int32 \<Rightarrow> nat" where
  "VarintSize32SignExtended value = (if sint value < 0 then 10 else VarintSize32 value)"

section \<open>The stream\<close>

text \<open>
  \<open>sink\<close> is what has reached the \<open>std::ostream\<close>; \<open>block\<close> the bytes written into the
  adaptor's current block; \<open>room\<close> the rest of that block, \<open>buffer_size_\<close> bytes from
  \<open>buffer_\<close> on, with whatever they hold.
\<close>

record cos =
  sink :: bytes
  block :: bytes
  room :: bytes

definition kDefaultBlockSize :: nat where
  "kDefaultBlockSize = 8192"

definition cos_inv :: "cos \<Rightarrow> bool" where
  "cos_inv s \<longleftrightarrow> length (block s) + length (room s) = kDefaultBlockSize"

definition contents :: "cos \<Rightarrow> bytes" where
  "contents s = sink s @ block s"

text \<open>The constructor with its eager \<open>Refresh\<close>; \<open>fresh\<close> is the uninitialised block.\<close>

definition CodedOutputStream :: "bytes \<Rightarrow> bytes \<Rightarrow> cos" where
  "CodedOutputStream out fresh = \<lparr>sink = out, block = [], room = fresh\<rparr>"

text \<open>\<open>Refresh\<close> asks the adaptor for the next block, which first delivers the full one.\<close>

definition Refresh :: "cos \<Rightarrow> cos" where
  "Refresh s = s\<lparr>sink := sink s @ block s @ room s, block := [], room := block s @ room s\<rparr>"

function WriteRaw :: "bytes \<Rightarrow> cos \<Rightarrow> cos option" where
  "WriteRaw data s =
     (if length (room s) < length data
      then (if block s @ room s = [] then None
            else WriteRaw (drop (length (room s)) data)
              (Refresh (s\<lparr>block := block s @ take (length (room s)) data, room := []\<rparr>)))
      else Some (s\<lparr>block := block s @ data, room := drop (length data) (room s)\<rparr>))"
  by pat_completeness auto
termination
  by (relation "measures [\<lambda>(d, s). length d, \<lambda>(d, s). if room s = [] then 1 else 0]")
    (auto simp: Refresh_def length_greater_0_conv [symmetric] simp del: length_greater_0_conv)

declare WriteRaw.simps [simp del]

text \<open>
  \<open>GetDirectBufferForNBytesAndAdvance\<close> hands out the pointer to the free part of the
  block; \<open>direct f s\<close> is the writer \<open>f\<close> run on that pointer, with the stream advanced to
  where the writer stopped.
\<close>

definition GetDirectBufferForNBytes :: "nat \<Rightarrow> cos \<Rightarrow> target option" where
  "GetDirectBufferForNBytes n s = (if length (room s) < n then None else Some (room s, 0))"

definition direct :: "(target \<Rightarrow> target option) \<Rightarrow> cos \<Rightarrow> cos option" where
  "direct f s = (case f (room s, 0) of
       None \<Rightarrow> None
     | Some (mem, e) \<Rightarrow> Some (s\<lparr>block := block s @ take e mem, room := drop e mem\<rparr>))"

text \<open>A local array \<open>uint8 bytes[n]\<close> filled by a writer and then copied with \<open>WriteRaw\<close>.\<close>

definition via_array :: "nat \<Rightarrow> (target \<Rightarrow> target option) \<Rightarrow> cos \<Rightarrow> cos option" where
  "via_array n f s = (case f (replicate n 0, 0) of
       None \<Rightarrow> None
     | Some (mem, e) \<Rightarrow> WriteRaw (take e mem) s)"

definition WriteVarint32 :: "uint32 \<Rightarrow> cos \<Rightarrow> cos option" where
  "WriteVarint32 value s =
     (if length (room s) \<ge> 5 then direct (WriteVarint32ToArray value) s
      else via_array 5 (WriteVarint32ToArray value) s)"

definition WriteVarint64 :: "uint64 \<Rightarrow> cos \<Rightarrow> cos option" where
  "WriteVarint64 value s =
     (if length (room s) \<ge> 10 then direct (WriteVarint64ToArray value) s
      else via_array 10 (WriteVarint64ToArray value) s)"

definition WriteTag :: "uint32 \<Rightarrow> cos \<Rightarrow> cos option" where
  "WriteTag value s = WriteVarint32 value s"

definition WriteVarint32SignExtended :: "int32 \<Rightarrow> cos \<Rightarrow> cos option" where
  "WriteVarint32SignExtended value s = WriteVarint64 (scast value) s"

definition WriteLittleEndian32 :: "uint32 \<Rightarrow> cos \<Rightarrow> cos option" where
  "WriteLittleEndian32 value s =
     (if length (room s) \<ge> 4 then direct (WriteLittleEndian32ToArray value) s
      else via_array 4 (WriteLittleEndian32ToArray value) s)"

definition WriteLittleEndian64 :: "uint64 \<Rightarrow> cos \<Rightarrow> cos option" where
  "WriteLittleEndian64 value s =
     (if length (room s) \<ge> 8 then direct (WriteLittleEndian64ToArray value) s
      else via_array 8 (WriteLittleEndian64ToArray value) s)"

text \<open>Aliasing is never enabled on these streams, so \<open>WriteRawMaybeAliased\<close> copies.\<close>

definition WriteRawMaybeAliased :: "bytes \<Rightarrow> cos \<Rightarrow> cos option" where
  "WriteRawMaybeAliased data s = WriteRaw data s"

text \<open>\<open>~CodedOutputStream\<close> (\<open>Trim\<close>) and \<open>~OstreamOutputStream\<close> (\<open>Flush\<close>).\<close>

definition close_stream :: "cos \<Rightarrow> bytes" where
  "close_stream s = sink s @ block s"

section \<open>Footprints of the array writers\<close>

definition writes :: "(target \<Rightarrow> target option) \<Rightarrow> bytes \<Rightarrow> bool" where
  "writes f bs \<longleftrightarrow> (\<forall>mem p. p \<le> length mem \<longrightarrow>
     f (mem, p) = (if p + length bs \<le> length mem
                   then Some (overwrite mem p bs, p + length bs) else None))"

lemma writesD:
  "writes f bs \<Longrightarrow> p + length bs \<le> length mem \<Longrightarrow> f (mem, p) = Some (overwrite mem p bs, p + length bs)"
  by (simp add: writes_def)

lemma writes_Some [writes_intro]: "writes Some []"
  by (simp add: writes_def)

lemma writes_bind [writes_intro]:
  assumes f: "writes f xs" and g: "writes g ys"
  shows "writes (\<lambda>t. f t \<bind> g) (xs @ ys)"
  unfolding writes_def
proof (intro allI impI)
  fix mem :: bytes and p :: nat
  assume p: "p \<le> length mem"
  show "f (mem, p) \<bind> g = (if p + length (xs @ ys) \<le> length mem
           then Some (overwrite mem p (xs @ ys), p + length (xs @ ys)) else None)"
  proof (cases "p + length xs \<le> length mem")
    case True
    then have f': "f (mem, p) = Some (overwrite mem p xs, p + length xs)"
      using f by (simp add: writes_def)
    have "g (overwrite mem p xs, p + length xs) =
        (if p + length xs + length ys \<le> length mem
         then Some (overwrite mem p (xs @ ys), p + length xs + length ys) else None)"
      using g True by (simp add: writes_def overwrite_overwrite)
    then show ?thesis by (simp add: f' add.assoc)
  next
    case False
    then have "f (mem, p) = None" using f p by (simp add: writes_def)
    with False show ?thesis by simp
  qed
qed

lemma writes_if [writes_intro]:
  "(c \<Longrightarrow> writes f xs) \<Longrightarrow> (\<not> c \<Longrightarrow> writes g ys) \<Longrightarrow>
     writes (if c then f else g) (if c then xs else ys)"
  by simp

lemma writes_fun_if:
  "(c \<Longrightarrow> writes f xs) \<Longrightarrow> (\<not> c \<Longrightarrow> writes g ys) \<Longrightarrow>
     writes (\<lambda>t. if c then f t else g t) (if c then xs else ys)"
  by simp

lemma writes_poke: "writes (poke b) [b]"
  by (auto simp: writes_def poke_def overwrite_single)

lemma writes_raw [writes_intro]: "writes (WriteRawToArray data) data"
  by (simp add: writes_def WriteRawToArray_def)

lemma writes_string [writes_intro]: "writes (WriteStringToArray data) data"
  using writes_raw by (simp add: writes_def WriteStringToArray_def)

text \<open>The base-128 encoding that both varint writers implement.\<close>

fun varint :: "nat \<Rightarrow> bytes" where
  "varint n = (if n < 128 then [word_of_nat n] else word_of_nat (n mod 128 + 128) # varint (n div 128))"

declare varint.simps [simp del]

lemma varint_small: "n < 128 \<Longrightarrow> varint n = [word_of_nat n]"
  by (simp add: varint.simps)

lemma varint_large: "128 \<le> n \<Longrightarrow> varint n = word_of_nat (n mod 128 + 128) # varint (n div 128)"
  by (subst varint.simps) simp

lemma varint_ne_Nil [simp]: "varint n \<noteq> []"
  by (subst varint.simps) simp

lemma low7_or_128: "unat (v :: 'a :: len word) mod 128 + 128 = take_bit 7 (unat v) OR 128"
proof -
  have b: "bit (128 :: nat) n \<longleftrightarrow> n = 7" for n
    using bit_exp_iff [of 7 n, where ?'a = nat] by (simp add: possible_bit_def)
  have "take_bit 7 (unat v) + 128 = take_bit 7 (unat v) OR (128 :: nat)"
    by (rule disjunctive_add) (auto simp: b bit_take_bit_iff)
  then show ?thesis by (simp add: take_bit_eq_mod)
qed

lemma ucast_continuation_byte:
  assumes "8 \<le> LENGTH('a :: len)"
  shows "(ucast ((v :: 'a word) OR 0x80) :: 8 word) = word_of_nat (unat v mod 128 + 128)"
proof (rule bit_word_eqI)
  fix n :: nat assume "n < LENGTH(8)"
  then have n: "n < 8" by simp
  have b: "bit (128 :: nat) n \<longleftrightarrow> n = 7"
    using bit_exp_iff [of 7 n, where ?'a = nat] by (simp add: possible_bit_def)
  have b': "bit (0x80 :: 'a word) n \<longleftrightarrow> n = 7"
    using bit_exp_iff [of 7 n, where ?'a = "'a word"] n assms by (auto simp: possible_bit_def)
  have b8: "bit (0x80 :: 8 word) n \<longleftrightarrow> n = 7"
    using bit_exp_iff [of 7 n, where ?'a = "8 word"] n by (auto simp: possible_bit_def)
  from n have n8: "n = 0 \<or> n = 1 \<or> n = 2 \<or> n = 3 \<or> n = 4 \<or> n = 5 \<or> n = 6 \<or> n = 7" by linarith
  show "bit (ucast (v OR 0x80) :: 8 word) n = bit (word_of_nat (unat v mod 128 + 128) :: 8 word) n"
    using n8 assms by (auto simp: low7_or_128 bit_unsigned_iff bit_or_iff b b' b8 bit_take_bit_iff bit_of_nat_iff
        bit_ucast_iff bit_unsigned_iff possible_bit_def)
qed
text \<open>Both varint writers are instances of one loop, over 32-bit and over 64-bit words.\<close>

lemma writes_varint_loop:
  fixes W :: "'a :: len word \<Rightarrow> target \<Rightarrow> target option"
  assumes len: "8 \<le> LENGTH('a)"
    and W: "\<And>v t. W v t = (if v \<ge> 0x80
              then (case poke (ucast (v OR 0x80)) t of None \<Rightarrow> None | Some t' \<Rightarrow> W (drop_bit 7 v) t')
              else poke (ucast v) t)"
  shows "writes (W v) (varint (unat v))"
proof (induction "unat v" arbitrary: v rule: less_induct)
  case less
  have n128: "unat (0x80 :: 'a word) = 128"
    using len power_increasing [OF len, of "2 :: nat"] by (simp add: unsigned_numeral take_bit_eq_mod)
  show ?case
  proof (cases "v \<ge> 0x80")
    case True
    then have ge: "128 \<le> unat v" by (simp only: word_le_nat_alt n128)
    have "unat (drop_bit 7 v) < unat v"
      using ge by (auto simp: unat_drop_bit_div intro!: div_less_dividend)
    then have IH: "writes (W (drop_bit 7 v)) (varint (unat (drop_bit 7 v)))"
      by (rule less)
    have eq: "W v = (\<lambda>t. poke (ucast (v OR 0x80)) t \<bind> W (drop_bit 7 v))"
      using True by (subst W [abs_def]) (auto simp: fun_eq_iff split: option.splits Option.bind_split)
    show ?thesis
      using writes_bind [OF writes_poke IH, of "ucast (v OR 0x80)"] ge len
      by (simp add: eq varint_large ucast_continuation_byte unat_drop_bit_div)
  next
    case False
    then have "unat v < 128" by (simp only: word_le_nat_alt n128 not_le)
    moreover have "W v = poke (ucast v)"
      using False by (subst W [abs_def]) (simp add: fun_eq_iff)
    ultimately show ?thesis
      using writes_poke [of "ucast v"] by (simp add: varint_small)
  qed
qed

lemma writes_WriteVarint32ToArray [writes_intro]: "writes (WriteVarint32ToArray v) (varint (unat v))"
  by (rule writes_varint_loop) (simp, rule WriteVarint32ToArray.simps)

lemma writes_WriteVarint64ToArray [writes_intro]: "writes (WriteVarint64ToArray v) (varint (unat v))"
  by (rule writes_varint_loop) (simp, rule WriteVarint64ToArray.simps)

lemma writes_WriteTagToArray [writes_intro]: "writes (WriteTagToArray v) (varint (unat v))"
  using writes_WriteVarint32ToArray by (simp add: writes_def WriteTagToArray_def)

lemma writes_SignExtended [writes_intro]:
  "writes (WriteVarint32SignExtendedToArray v) (varint (unat (scast v :: uint64)))"
  using writes_WriteVarint64ToArray by (simp add: writes_def WriteVarint32SignExtendedToArray_def)

definition le32 :: "uint32 \<Rightarrow> bytes" where
  "le32 v = [ucast v, ucast (drop_bit 8 v), ucast (drop_bit 16 v), ucast (drop_bit 24 v)]"

definition le64 :: "uint64 \<Rightarrow> bytes" where
  "le64 v = le32 (ucast v) @ le32 (ucast (drop_bit 32 v))"

lemma length_le32 [simp]: "length (le32 v) = 4"
  by (simp add: le32_def)

lemma length_le64 [simp]: "length (le64 v) = 8"
  by (simp add: le64_def)

lemma writes_WriteLittleEndian32ToArray [writes_intro]:
  "writes (WriteLittleEndian32ToArray v) (le32 v)"
  using writes_raw by (simp add: writes_def WriteLittleEndian32ToArray_def le32_def)

lemma writes_WriteLittleEndian64ToArray [writes_intro]:
  "writes (WriteLittleEndian64ToArray v) (le64 v)"
  using writes_raw by (simp add: writes_def WriteLittleEndian64ToArray_def le64_def le32_def Let_def)

lemma writes_WriteStringWithSizeToArray [writes_intro]:
  "writes (WriteStringWithSizeToArray s) (varint (unat (word_of_nat (length s) :: uint32)) @ s)"
  unfolding WriteStringWithSizeToArray_def [abs_def]
  by (intro writes_intro)

section \<open>The size functions count the bytes written\<close>

lemma log2_step_inv:
  assumes "n div 2 ^ log = unat value" and "0 < unat value" and "unat value < 2 ^ (2 * 2 ^ i)"
  shows "case log2_step i (value, log) of (v', l') \<Rightarrow>
    n div 2 ^ l' = unat v' \<and> 0 < unat v' \<and> unat v' < 2 ^ (2 ^ i)"
proof -
  have d: "unat (drop_bit (2 ^ i) value) = unat value div 2 ^ (2 ^ i)"
    by (rule unat_drop_bit_div)
  have lt: "unat value div 2 ^ 2 ^ i < 2 ^ (2 ^ i)"
    using assms(3) by (simp add: less_mult_imp_div_less power_add mult_2)
  have z: "drop_bit (2 ^ i) value = 0 \<longleftrightarrow> unat value < 2 ^ (2 ^ i)"
    by (metis d div_eq_0_iff power_not_zero unat_0 unat_eq_zero zero_neq_numeral)
  show ?thesis
  proof (cases "drop_bit (2 ^ i) value = 0")
    case True
    then show ?thesis using assms z by (simp add: log2_step_def)
  next
    case False
    then have "unat (drop_bit (2 ^ i) value) > 0" by (simp add: unat_gt_0)
    with False assms(1) lt show ?thesis
      by (simp add: log2_step_def Let_def d power_add div_mult2_eq)
  qed
qed

lemma Log2FloorNonZero_div:
  assumes "n \<noteq> 0"
  shows "unat n div 2 ^ Log2FloorNonZero n = 1"
proof -
  obtain v4 l4 where 4: "log2_step 4 (n, 0) = (v4, l4)" by fastforce
  obtain v3 l3 where 3: "log2_step 3 (v4, l4) = (v3, l3)" by fastforce
  obtain v2 l2 where 2: "log2_step 2 (v3, l3) = (v2, l2)" by fastforce
  obtain v1 l1 where 1: "log2_step 1 (v2, l2) = (v1, l1)" by fastforce
  obtain v0 l0 where 0: "log2_step 0 (v1, l1) = (v0, l0)" by fastforce
  have "unat n < 2 ^ 32" using unsigned_less [of n, where ?'a = nat] by simp
  then have "unat n div 2 ^ l4 = unat v4 \<and> 0 < unat v4 \<and> unat v4 < 2 ^ (2 ^ 4)"
    using log2_step_inv [of "unat n" 0 n 4] assms 4 by (simp add: unat_gt_0)
  then have "unat n div 2 ^ l3 = unat v3 \<and> 0 < unat v3 \<and> unat v3 < 2 ^ (2 ^ 3)"
    using log2_step_inv [of "unat n" l4 v4 3] 3 by simp
  then have "unat n div 2 ^ l2 = unat v2 \<and> 0 < unat v2 \<and> unat v2 < 2 ^ (2 ^ 2)"
    using log2_step_inv [of "unat n" l3 v3 2] 2 by simp
  then have "unat n div 2 ^ l1 = unat v1 \<and> 0 < unat v1 \<and> unat v1 < 2 ^ (2 ^ 1)"
    using log2_step_inv [of "unat n" l2 v2 1] 1 by simp
  then have "unat n div 2 ^ l0 = unat v0 \<and> 0 < unat v0 \<and> unat v0 < 2 ^ (2 ^ 0)"
    using log2_step_inv [of "unat n" l1 v1 0] 0 by simp
  then have "unat n div 2 ^ l0 = 1" by simp
  then show ?thesis by (simp add: Log2FloorNonZero_def 4 3 2 1 0 del: One_nat_def)
qed

lemma length_varint_log:
  "n div 2 ^ l = 1 \<Longrightarrow> length (varint n) = l div 7 + 1"
proof (induction n arbitrary: l rule: varint.induct)
  case (1 n)
  have le: "2 ^ l \<le> n" and lt: "n < 2 * 2 ^ l"
    using "1.prems" div_less_iff_less_mult [of "2 ^ l" n 2] div_greater_zero_iff [of n "2 ^ l"] by auto
  show ?case
  proof (cases "n < 128")
    case True
    have "l < 7"
    proof (rule ccontr)
      assume "\<not> l < 7"
      then have "2 ^ 7 \<le> (2 :: nat) ^ l" by (intro power_increasing) auto
      with le True show False by simp
    qed
    with True show ?thesis by (simp add: varint_small)
  next
    case False
    have "7 \<le> l"
    proof (rule ccontr)
      assume "\<not> 7 \<le> l"
      then have "(2 :: nat) ^ l \<le> 2 ^ 6" by (intro power_increasing) auto
      with lt False show False by simp
    qed
    then obtain k where k: "l = 7 + k" using le_Suc_ex by blast
    have "n div 128 div 2 ^ k = 1"
      using "1.prems" by (simp add: k power_add div_mult2_eq)
    then have "length (varint (n div 128)) = k div 7 + 1"
      using "1.IH" False by blast
    with False k show ?thesis by (simp add: varint_large)
  qed
qed

lemma length_varint_odd: "length (varint (n + of_bool (even n))) = length (varint n)"
proof (cases "n < 128")
  case True
  then have "n + of_bool (even n) < 128" by (cases "even n") (auto elim!: evenE)
  with True show ?thesis by (simp add: varint_small)
next
  case False
  have "(n + of_bool (even n)) div 128 = n div 128"
  proof (cases "even n")
    case True
    then obtain k where "n = 2 * k" by (elim evenE)
    then show ?thesis by simp
  qed simp
  with False show ?thesis by (simp add: varint_large)
qed

lemma unat_or_1: "unat (v OR 1 :: 'a :: len word) = unat v + of_bool (even (unat v))"
proof -
  have "unat (v OR 1) = unat v OR unat (1 :: 'a word)" by (rule unsigned_or_eq)
  also have "\<dots> = unat v OR 1" by (simp only: unsigned_1)
  also have "\<dots> = unat v + of_bool (even (unat v))" by (rule or_one_eq)
  finally show ?thesis .
qed

lemma size_div_64: "l < 64 \<Longrightarrow> (l * 9 + 73) div 64 = l div 7 + (1 :: nat)"
proof -
  assume "l < 64"
  then have "l \<in> set [0..<64]" by simp
  moreover have "\<forall>k \<in> set [0..<64]. (k * 9 + 73) div 64 = k div 7 + (1 :: nat)"
    by code_simp
  ultimately show ?thesis by blast
qed

lemma log_less:
  assumes "unat (n :: 'a :: len word) div 2 ^ l = 1" shows "l < LENGTH('a)"
proof -
  have "2 ^ l \<le> unat n" using assms div_less [of "unat n" "2 ^ l"] by (metis not_le zero_neq_one)
  also have "unat n < 2 ^ LENGTH('a)" by (rule unsigned_less)
  finally show ?thesis by simp
qed

lemma VarintSize32_eq [size_simps]: "VarintSize32 v = length (varint (unat v))"
proof -
  let ?l = "Log2FloorNonZero (v OR 1)"
  have "v OR 1 \<noteq> 0" by (simp add: or_eq_0_iff)
  then have d: "unat (v OR 1) div 2 ^ ?l = 1" by (rule Log2FloorNonZero_div)
  have "?l < 64" using log_less [OF d] by simp
  then show ?thesis
    using length_varint_log [OF d] by (simp add: VarintSize32_def size_div_64 unat_or_1 length_varint_odd)
qed

lemma Log2FloorNonZero64_div:
  assumes "n \<noteq> 0"
  shows "unat n div 2 ^ Log2FloorNonZero64 n = 1"
proof -
  have hi: "unat (ucast (drop_bit 32 n) :: uint32) = unat n div 2 ^ 32"
    using unsigned_less [of n, where ?'a = nat]
    by (simp add: unsigned_ucast_eq take_bit_eq_mod unat_drop_bit_div)
  show ?thesis
  proof (cases "(ucast (drop_bit 32 n) :: uint32) = 0")
    case True
    then have "unat n < 2 ^ 32" using hi by (simp add: div_eq_0_iff)
    then have lo: "unat (ucast n :: uint32) = unat n"
      by (simp add: unsigned_ucast_eq take_bit_eq_mod)
    have "(ucast n :: uint32) \<noteq> 0" using lo assms by (metis unat_eq_zero)
    from Log2FloorNonZero_div [OF this] True lo show ?thesis
      by (simp add: Log2FloorNonZero64_def)
  next
    case False
    from Log2FloorNonZero_div [OF this] False hi show ?thesis
      by (simp add: Log2FloorNonZero64_def Let_def power_add div_mult2_eq)
  qed
qed

lemma VarintSize64_eq [size_simps]: "VarintSize64 v = length (varint (unat v))"
proof -
  let ?l = "Log2FloorNonZero64 (v OR 1)"
  have "v OR 1 \<noteq> 0" by (simp add: or_eq_0_iff)
  then have d: "unat (v OR 1) div 2 ^ ?l = 1" by (rule Log2FloorNonZero64_div)
  have "?l < 64" using log_less [OF d] by simp
  then show ?thesis
    using length_varint_log [OF d] by (simp add: VarintSize64_def size_div_64 unat_or_1 length_varint_odd)
qed

lemma uint_scast64: "uint (scast (v :: int32) :: uint64) = sint v mod 2 ^ 64"
  by (simp only: scast_eq uint_word_of_int) simp

lemma uint_as_sint32: "uint (v :: int32) = sint v mod 2 ^ 32"
  using uint_sint [of v] by (simp add: take_bit_eq_mod)

lemma sint32_range: "- (2 ^ 31) \<le> sint (v :: int32)" "sint (v :: int32) < 2 ^ 31"
  using sint_ge [of v] sint_lt [of v] by simp_all

lemma unat_scast_nonneg: "0 \<le> sint (v :: int32) \<Longrightarrow> unat (scast v :: uint64) = unat v"
proof -
  assume nn: "0 \<le> sint v"
  have "uint (scast v :: uint64) = sint v"
    unfolding uint_scast64 using nn sint32_range [of v] by (intro mod_pos_pos_trivial) auto
  moreover have "uint v = sint v"
    unfolding uint_as_sint32 using nn sint32_range [of v] by (intro mod_pos_pos_trivial) auto
  ultimately show ?thesis by (simp only: unat_eq_nat_uint)
qed

lemma unat_scast_neg: "sint (v :: int32) < 0 \<Longrightarrow> 2 ^ 63 \<le> unat (scast v :: uint64)"
proof -
  assume "sint v < 0"
  then have "(sint v + 2 ^ 64) mod 2 ^ 64 = sint v + 2 ^ 64"
    using sint32_range [of v] by (intro mod_pos_pos_trivial) auto
  then have "sint v mod 2 ^ 64 = sint v + 2 ^ 64" by (simp only: mod_add_self2)
  then have "2 ^ 63 \<le> uint (scast v :: uint64)"
    using sint32_range [of v] by (simp only: uint_scast64) simp
  then have "nat (2 ^ 63) \<le> nat (uint (scast v :: uint64))" by (rule nat_mono)
  moreover have "nat (2 ^ 63) = 2 ^ 63" by simp
  ultimately show ?thesis by (simp only: unat_eq_nat_uint)
qed

lemma VarintSize32SignExtended_eq [size_simps]:
  "VarintSize32SignExtended v = length (varint (unat (scast v :: uint64)))"
proof (cases "sint v < 0")
  case True
  let ?w = "scast v :: uint64"
  have "unat ?w div 2 ^ 63 = 1"
    using unat_scast_neg [OF True] unsigned_less [of ?w, where ?'a = nat]
    by (simp add: div_nat_eqI)
  from length_varint_log [OF this] have "length (varint (unat ?w)) = 10" by simp
  with True show ?thesis by (simp add: VarintSize32SignExtended_def)
next
  case False
  then show ?thesis by (simp add: VarintSize32SignExtended_def VarintSize32_eq unat_scast_nonneg)
qed

section \<open>What the stream delivers\<close>

definition emits :: "(cos \<Rightarrow> cos option) \<Rightarrow> bytes \<Rightarrow> bool" where
  "emits f bs \<longleftrightarrow> (\<forall>s. cos_inv s \<longrightarrow>
     (\<exists>s'. f s = Some s' \<and> cos_inv s' \<and> contents s' = contents s @ bs))"

lemma emitsE:
  assumes "emits f bs" and "cos_inv s"
  obtains s' where "f s = Some s'" and "cos_inv s'" and "contents s' = contents s @ bs"
  using assms by (auto simp: emits_def)

lemma emits_Some [emits_intro]: "emits Some []"
  by (simp add: emits_def)

lemma emits_bind [emits_intro]:
  assumes f: "emits f xs" and g: "emits g ys"
  shows "emits (\<lambda>s. f s \<bind> g) (xs @ ys)"
  unfolding emits_def
proof (intro allI impI)
  fix s assume "cos_inv s"
  then obtain s1 where 1: "f s = Some s1" "cos_inv s1" "contents s1 = contents s @ xs"
    by (rule emitsE [OF f])
  obtain s2 where "g s1 = Some s2" "cos_inv s2" "contents s2 = contents s1 @ ys"
    by (rule emitsE [OF g 1(2)])
  with 1 show "\<exists>s'. f s \<bind> g = Some s' \<and> cos_inv s' \<and> contents s' = contents s @ xs @ ys"
    by simp
qed

lemma emits_fun_if [emits_intro]:
  "(c \<Longrightarrow> emits f xs) \<Longrightarrow> (\<not> c \<Longrightarrow> emits g ys) \<Longrightarrow>
     emits (\<lambda>s. if c then f s else g s) (if c then xs else ys)"
  by simp

lemma emits_cong: "emits f bs \<Longrightarrow> (\<And>s. f s = g s) \<Longrightarrow> emits g bs"
  by (simp add: emits_def)

lemma emits_choice:
  assumes "\<And>s. cos_inv s \<Longrightarrow> c s \<Longrightarrow> \<exists>s'. f s = Some s' \<and> cos_inv s' \<and> contents s' = contents s @ bs"
    and "emits g bs"
  shows "emits (\<lambda>s. if c s then f s else g s) bs"
  using assms by (auto simp: emits_def)

lemma CodedOutputStream_inv:
  "length fresh = kDefaultBlockSize \<Longrightarrow> cos_inv (CodedOutputStream out fresh)"
  by (simp add: cos_inv_def CodedOutputStream_def)

lemma contents_CodedOutputStream [simp]: "contents (CodedOutputStream out fresh) = out"
  by (simp add: contents_def CodedOutputStream_def)

lemma close_stream_contents: "close_stream s = contents s"
  by (simp add: close_stream_def contents_def)

lemma WriteRaw_spec:
  "cos_inv s \<Longrightarrow> \<exists>s'. WriteRaw data s = Some s' \<and> cos_inv s' \<and> contents s' = contents s @ data"
proof (induction data s rule: WriteRaw.induct)
  case (1 data s)
  have ne: "block s @ room s \<noteq> []"
    using "1.prems" by (auto simp: cos_inv_def kDefaultBlockSize_def)
  show ?case
  proof (cases "length (room s) < length data")
    case True
    let ?s1 = "Refresh (s\<lparr>block := block s @ take (length (room s)) data, room := []\<rparr>)"
    have "cos_inv ?s1"
      using "1.prems" True by (simp add: cos_inv_def Refresh_def)
    with "1.IH" [OF True ne] obtain s' where
      s': "WriteRaw (drop (length (room s)) data) ?s1 = Some s'" "cos_inv s'"
        "contents s' = contents ?s1 @ drop (length (room s)) data" by blast
    have "contents ?s1 = contents s @ take (length (room s)) data"
      by (simp add: contents_def Refresh_def)
    with s' True ne show ?thesis by (subst WriteRaw.simps) simp
  next
    case False
    with "1.prems" show ?thesis
      by (subst WriteRaw.simps) (simp add: cos_inv_def contents_def)
  qed
qed

lemma emits_WriteRaw [emits_intro]: "emits (WriteRaw data) data"
  by (simp add: emits_def WriteRaw_spec)

lemma emits_WriteRawMaybeAliased [emits_intro]: "emits (WriteRawMaybeAliased data) data"
  by (simp add: emits_def WriteRaw_spec WriteRawMaybeAliased_def)

text \<open>A writer with footprint \<open>bs\<close> emits \<open>bs\<close>, in the block or through a local array.\<close>

lemma direct_spec:
  assumes "writes f bs" and "length bs \<le> length (room s)" and "cos_inv s"
  shows "\<exists>s'. direct f s = Some s' \<and> cos_inv s' \<and> contents s' = contents s @ bs"
proof -
  have "f (room s, 0) = Some (overwrite (room s) 0 bs, length bs)"
    using writesD [OF assms(1), of 0 "room s"] assms(2) by simp
  then show ?thesis using assms(2,3)
    by (simp add: direct_def cos_inv_def contents_def overwrite_0_full drop_overwrite_0)
qed

lemma via_array_spec:
  assumes "writes f bs" and "length bs \<le> n" and "cos_inv s"
  shows "\<exists>s'. via_array n f s = Some s' \<and> cos_inv s' \<and> contents s' = contents s @ bs"
proof -
  have "f (replicate n 0, 0) = Some (overwrite (replicate n 0) 0 bs, length bs)"
    using writesD [OF assms(1), of 0 "replicate n 0"] assms(2) by simp
  then show ?thesis using assms(2) WriteRaw_spec [OF assms(3), of bs]
    by (simp add: via_array_def overwrite_0_full)
qed

lemma emits_block_or_array:
  assumes "writes f bs" and "length bs \<le> n"
  shows "emits (\<lambda>s. if length (room s) \<ge> n then direct f s else via_array n f s) bs"
  using direct_spec [OF assms(1)] via_array_spec [OF assms] assms(2)
  by (auto simp: emits_def)

lemma length_varint_le:
  assumes "n < 2 ^ (7 * k)" and "0 < k" shows "length (varint n) \<le> k"
  using assms
proof (induction n arbitrary: k rule: varint.induct)
  case (1 n)
  show ?case
  proof (cases "n < 128")
    case True
    with "1.prems" show ?thesis by (simp add: varint_small)
  next
    case False
    with "1.prems" obtain j where k: "k = Suc j" by (cases k) auto
    have "0 < j" using False "1.prems" by (cases j) (auto simp: k)
    moreover have "n div 128 < 2 ^ (7 * j)"
      using "1.prems" by (simp add: k power_add less_mult_imp_div_less)
    ultimately have "length (varint (n div 128)) \<le> j" using "1.IH" False by blast
    with False show ?thesis by (simp add: varint_large k)
  qed
qed

lemma length_varint32: "length (varint (unat (v :: uint32))) \<le> 5"
  by (rule length_varint_le) (use unsigned_less [of v, where ?'a = nat] in simp_all)

lemma length_varint64: "length (varint (unat (v :: uint64))) \<le> 10"
  by (rule length_varint_le) (use unsigned_less [of v, where ?'a = nat] in simp_all)

lemma emits_WriteVarint32 [emits_intro]: "emits (WriteVarint32 v) (varint (unat v))"
  unfolding WriteVarint32_def [abs_def]
  by (intro emits_block_or_array writes_intro length_varint32)

lemma emits_WriteVarint64 [emits_intro]: "emits (WriteVarint64 v) (varint (unat v))"
  unfolding WriteVarint64_def [abs_def]
  by (intro emits_block_or_array writes_intro length_varint64)

lemma emits_WriteTag [emits_intro]: "emits (WriteTag v) (varint (unat v))"
  using emits_WriteVarint32 by (simp add: emits_def WriteTag_def)

lemma emits_WriteVarint32SignExtended [emits_intro]:
  "emits (WriteVarint32SignExtended v) (varint (unat (scast v :: uint64)))"
  using emits_WriteVarint64 by (simp add: emits_def WriteVarint32SignExtended_def)

lemma emits_WriteLittleEndian32 [emits_intro]: "emits (WriteLittleEndian32 v) (le32 v)"
  unfolding WriteLittleEndian32_def [abs_def]
  by (intro emits_block_or_array writes_intro) simp

lemma emits_WriteLittleEndian64 [emits_intro]: "emits (WriteLittleEndian64 v) (le64 v)"
  unfolding WriteLittleEndian64_def [abs_def]
  by (intro emits_block_or_array writes_intro) simp

section \<open>Properties\<close>

text \<open>C39: \<open>WriteVarint32ToArray\<close> writes the base-128 encoding of the value and nothing else,
  advances the pointer by exactly \<open>VarintSize32\<close>, and stays inside the array whenever that many
  bytes are left.\<close>

theorem WriteVarint32ToArray_exact:
  assumes "p \<le> length mem"
  shows "WriteVarint32ToArray v (mem, p) =
     (if p + VarintSize32 v \<le> length mem
      then Some (overwrite mem p (varint (unat v)), p + VarintSize32 v) else None)"
  using writes_WriteVarint32ToArray [of v] assms by (simp add: writes_def VarintSize32_eq)

theorem WriteVarint32ToArray_exact_witness:
  "WriteVarint32ToArray 300 ([1, 1, 1, 1], 1) = Some ([1, 0xAC, 2, 1], 3)
     \<and> WriteVarint32ToArray 300 ([1, 1], 1) = None"
proof -
  have v: "varint (unat (300 :: uint32)) = [0xAC, 2]" by (simp add: varint_large varint_small)
  then have "VarintSize32 300 = 2" by (simp add: VarintSize32_eq)
  with v show ?thesis
    using WriteVarint32ToArray_exact [of 1 "[1, 1, 1, 1]" 300] WriteVarint32ToArray_exact [of 1 "[1, 1]" 300]
    by (simp add: overwrite_def)
qed

text \<open>whatever the fill of the stream's block, \<open>WriteRaw\<close> delivers exactly its bytes: it
  returns, keeps the stream well formed and appends the data to what the stream holds.\<close>

theorem WriteRaw_delivers:
  assumes "cos_inv s"
  shows "\<exists>s'. WriteRaw data s = Some s' \<and> cos_inv s' \<and> contents s' = contents s @ data"
  using WriteRaw_spec [OF assms] .

theorem WriteRaw_delivers_witness:
  "\<exists>s'. WriteRaw [1, 2, 3] (CodedOutputStream [9] (replicate 8192 0)) = Some s' \<and> contents s' = [9, 1, 2, 3]"
proof -
  have "cos_inv (CodedOutputStream [9] (replicate 8192 0))"
    by (rule CodedOutputStream_inv) (simp add: kDefaultBlockSize_def)
  from WriteRaw_delivers [OF this, of "[1, 2, 3]"] show ?thesis by auto
qed

end
