(* ===== verification/CodedInput.thy ===== *)
theory CodedInput
  imports CodedOutput
begin

text \<open>
  The input side of the protobuf runtime: \<open>CodedInputStream\<close> (io/coded_stream.h, .cc,
  io/coded_stream_inl.h) over a flat array or over an \<open>IstreamInputStream\<close>
  (io/zero_copy_stream_impl_lite.cc).  The main results are that on a flat array no reader
  touches memory outside the array or the null \<open>input_\<close> pointer, that the unrolled varint
  decoders agree with the byte-wise one, and what each reader returns on the bytes that the
  corresponding writer produces.
\<close>

section \<open>Input streams\<close>

text \<open>
  \<open>IstreamInputStream\<close>: the characters its \<open>istream\<close> still has and the size of its copy
  buffer.  The constructor replaces a block size that is not positive.
\<close>

record IstreamInputStream =
  source :: bytes
  block_size :: nat

definition mk_IstreamInputStream :: "bytes \<Rightarrow> int \<Rightarrow> IstreamInputStream" where
  "mk_IstreamInputStream src bsize =
     \<lparr>source = src, block_size = (if bsize > 0 then nat bsize else 8192)\<rparr>"

text \<open>
  \<open>Next\<close> reads one block from the \<open>istream\<close>; no characters left is the end of the stream.
\<close>

definition Next :: "IstreamInputStream \<Rightarrow> (bytes \<times> IstreamInputStream) option" where
  "Next i = (let data = take (block_size i) (source i) in
     if data = [] then None
     else Some (data, i\<lparr>source := drop (block_size i) (source i)\<rparr>))"

function NextNonEmpty :: "IstreamInputStream \<Rightarrow> (bytes \<times> IstreamInputStream) option" where
  "NextNonEmpty i = (case Next i of
       None \<Rightarrow> None
     | Some (data, i') \<Rightarrow> if data = [] then NextNonEmpty i' else Some (data, i'))"
  by auto
termination
  by (relation "measure (\<lambda>i. length (source i))") (auto simp: Next_def Let_def split: if_splits)

text \<open>
  \<open>CodedInputStream\<close>.  \<open>buffer\<close> is what lies between \<open>buffer_\<close> and \<open>buffer_end_\<close>,
  \<open>after_limit\<close> the \<open>buffer_size_after_limit_\<close> bytes behind \<open>buffer_end_\<close>; \<open>input\<close> is
  \<open>None\<close> for the null \<open>input_\<close> of a flat stream.  \<open>ub\<close> records that an operation read
  outside the buffer or dereferenced the null \<open>input_\<close>.
\<close>

record cis =
  buffer :: bytes
  after_limit :: bytes
  input :: "IstreamInputStream option"
  total_bytes_read :: int
  overflow_bytes :: int
  last_tag :: uint32
  legitimate_message_end :: bool
  current_limit :: int
  total_bytes_limit :: int
  recursion_budget :: int
  recursion_limit :: int
  ub :: bool

definition kDefaultTotalBytesLimit :: int where
  "kDefaultTotalBytesLimit = INT_MAX"

definition default_recursion_limit :: int where
  "default_recursion_limit = 100"

definition kMaxVarintBytes :: nat where
  "kMaxVarintBytes = 10"

definition kMaxVarint32Bytes :: nat where
  "kMaxVarint32Bytes = 5"

definition BufferSize :: "cis \<Rightarrow> nat" where
  "BufferSize s = length (buffer s)"

definition Advance :: "nat \<Rightarrow> cis \<Rightarrow> cis" where
  "Advance n s = s\<lparr>buffer := drop n (buffer s)\<rparr>"

definition CurrentPosition :: "cis \<Rightarrow> int" where
  "CurrentPosition s = total_bytes_read s - (int (BufferSize s) + int (length (after_limit s)))"

section \<open>Limits\<close>

definition RecomputeBufferLimits :: "cis \<Rightarrow> cis" where
  "RecomputeBufferLimits s =
     (let buf = buffer s @ after_limit s;
          closest_limit = min (current_limit s) (total_bytes_limit s)
      in if closest_limit < total_bytes_read s
         then let keep = length buf - nat (total_bytes_read s - closest_limit)
              in s\<lparr>buffer := take keep buf, after_limit := drop keep buf\<rparr>
         else s\<lparr>buffer := buf, after_limit := []\<rparr>)"

definition PushLimit :: "int \<Rightarrow> cis \<Rightarrow> int \<times> cis" where
  "PushLimit byte_limit s =
     (let current_position = CurrentPosition s;
          old_limit = current_limit s
      in (old_limit,
          if byte_limit \<ge> 0 \<and> byte_limit \<le> INT_MAX - current_position
             \<and> byte_limit < current_limit s - current_position
          then RecomputeBufferLimits (s\<lparr>current_limit := current_position + byte_limit\<rparr>)
          else s))"

definition PopLimit :: "int \<Rightarrow> cis \<Rightarrow> cis" where
  "PopLimit limit s =
     (RecomputeBufferLimits (s\<lparr>current_limit := limit\<rparr>))\<lparr>legitimate_message_end := False\<rparr>"

definition IncrementRecursionDepthAndPushLimit :: "int \<Rightarrow> cis \<Rightarrow> (int \<times> int) \<times> cis" where
  "IncrementRecursionDepthAndPushLimit byte_limit s =
     (let (old, s1) = PushLimit byte_limit s;
          s2 = s1\<lparr>recursion_budget := recursion_budget s1 - 1\<rparr>
      in ((old, recursion_budget s2), s2))"

definition ConsumedEntireMessage :: "cis \<Rightarrow> bool" where
  "ConsumedEntireMessage s = legitimate_message_end s"

definition DecrementRecursionDepthAndPopLimit :: "int \<Rightarrow> cis \<Rightarrow> bool \<times> cis" where
  "DecrementRecursionDepthAndPopLimit limit s =
     (let result = ConsumedEntireMessage s;
          s1 = PopLimit limit s
      in (result, s1\<lparr>recursion_budget := recursion_budget s1 + 1\<rparr>))"

definition IncrementRecursionDepth :: "cis \<Rightarrow> bool \<times> cis" where
  "IncrementRecursionDepth s =
     (let s1 = s\<lparr>recursion_budget := recursion_budget s - 1\<rparr> in (recursion_budget s1 \<ge> 0, s1))"

definition DecrementRecursionDepth :: "cis \<Rightarrow> cis" where
  "DecrementRecursionDepth s =
     (if recursion_budget s < recursion_limit s
      then s\<lparr>recursion_budget := recursion_budget s + 1\<rparr> else s)"

definition LastTagWas :: "uint32 \<Rightarrow> cis \<Rightarrow> bool" where
  "LastTagWas expected s \<longleftrightarrow> last_tag s = expected"

definition ExpectAtEnd :: "cis \<Rightarrow> bool \<times> cis" where
  "ExpectAtEnd s =
     (if buffer s = [] \<and> (after_limit s \<noteq> [] \<or> total_bytes_read s = current_limit s)
      then (True, s\<lparr>last_tag := 0, legitimate_message_end := True\<rparr>)
      else (False, s))"

section \<open>Refilling the buffer\<close>

definition Refresh_in :: "cis \<Rightarrow> bool \<times> cis" where
  "Refresh_in s =
     (if after_limit s \<noteq> [] \<or> overflow_bytes s > 0 \<or> total_bytes_read s = current_limit s
      then (False, s)
      else case input s of
        None \<Rightarrow> (False, s\<lparr>ub := True\<rparr>)
      | Some i \<Rightarrow> (case NextNonEmpty i of
          None \<Rightarrow> (False, s\<lparr>buffer := []\<rparr>)
        | Some (data, i') \<Rightarrow>
            let size = int (length data);
                s1 = (if total_bytes_read s \<le> INT_MAX - size
                      then s\<lparr>buffer := data, input := Some i',
                             total_bytes_read := total_bytes_read s + size\<rparr>
                      else let over = total_bytes_read s - (INT_MAX - size)
                           in s\<lparr>buffer := take (length data - nat over) data, input := Some i',
                                overflow_bytes := over, total_bytes_read := INT_MAX\<rparr>)
            in (True, RecomputeBufferLimits s1)))"

definition mk_CodedInputStream :: "IstreamInputStream \<Rightarrow> cis" where
  "mk_CodedInputStream i = snd (Refresh_in
     \<lparr>buffer = [], after_limit = [], input = Some i, total_bytes_read = 0, overflow_bytes = 0,
      last_tag = 0, legitimate_message_end = False, current_limit = INT_MAX,
      total_bytes_limit = kDefaultTotalBytesLimit, recursion_budget = default_recursion_limit,
      recursion_limit = default_recursion_limit, ub = False\<rparr>)"

definition mk_CodedInputStream_flat :: "bytes \<Rightarrow> cis" where
  "mk_CodedInputStream_flat data =
     \<lparr>buffer = data, after_limit = [], input = None, total_bytes_read = int (length data),
      overflow_bytes = 0, last_tag = 0, legitimate_message_end = False,
      current_limit = int (length data), total_bytes_limit = kDefaultTotalBytesLimit,
      recursion_budget = default_recursion_limit, recursion_limit = default_recursion_limit,
      ub = False\<rparr>"

text \<open>The bytes that \<open>input_\<close> can still deliver; a successful refill uses some of them.\<close>

definition pending :: "cis \<Rightarrow> nat" where
  "pending s = (case input s of None \<Rightarrow> 0 | Some i \<Rightarrow> length (source i))"

lemma NextNonEmpty_eq: "NextNonEmpty i = Next i"
  by (subst NextNonEmpty.simps) (auto simp: Next_def Let_def)

declare NextNonEmpty.simps [simp del]

lemma input_RecomputeBufferLimits [simp]: "input (RecomputeBufferLimits s) = input s"
  by (simp add: RecomputeBufferLimits_def Let_def)

lemma Refresh_in_pending: "fst (Refresh_in s) \<Longrightarrow> pending (snd (Refresh_in s)) < pending s"
  by (auto simp: Refresh_in_def NextNonEmpty_eq Next_def Let_def pending_def
      split: if_splits option.splits)

lemma pending_Advance [simp]: "pending (Advance n s) = pending s"
  by (simp add: pending_def Advance_def)

lemma length_buffer_Advance [simp]: "length (buffer (Advance n s)) = length (buffer s) - n"
  by (simp add: Advance_def)

section \<open>Raw bytes and strings\<close>

text \<open>
  \<open>ReadRaw\<close> returns the bytes that it stored at the start of the destination, also when it
  fails half way.
\<close>

function ReadRaw :: "nat \<Rightarrow> cis \<Rightarrow> bool \<times> bytes \<times> cis" where
  "ReadRaw n s =
     (if BufferSize s < n
      then let got = buffer s; r = Refresh_in (Advance (BufferSize s) s)
           in if fst r
              then let q = ReadRaw (n - length got) (snd r)
                   in (fst q, got @ fst (snd q), snd (snd q))
              else (False, got, snd r)
      else (True, take n (buffer s), Advance n s))"
  by auto
termination
  by (relation "measure (\<lambda>(_, s). pending s)") (auto dest: Refresh_in_pending)

declare ReadRaw.simps [simp del]

text \<open>
  \<open>ReadString\<close> replaces the contents of the destination string; a negative size leaves it
  alone and a short input leaves in it the bytes that were there.
\<close>

function ReadString_loop :: "bytes \<Rightarrow> nat \<Rightarrow> cis \<Rightarrow> bool \<times> bytes \<times> cis" where
  "ReadString_loop str n s =
     (if BufferSize s < n
      then let str' = str @ buffer s; r = Refresh_in (Advance (BufferSize s) s)
           in if fst r then ReadString_loop str' (n - BufferSize s) (snd r)
              else (False, str', snd r)
      else (True, str @ take n (buffer s), Advance n s))"
  by auto
termination
  by (relation "measure (\<lambda>(_, _, s). pending s)") (auto dest: Refresh_in_pending)

declare ReadString_loop.simps [simp del]

definition ReadStringFallback :: "nat \<Rightarrow> cis \<Rightarrow> bool \<times> bytes \<times> cis" where
  "ReadStringFallback n s = ReadString_loop [] n s"

definition ReadString :: "bytes \<Rightarrow> int \<Rightarrow> cis \<Rightarrow> bool \<times> bytes \<times> cis" where
  "ReadString str n s =
     (if n < 0 then (False, str, s)
      else if int (BufferSize s) \<ge> n then (True, take (nat n) (buffer s), Advance (nat n) s)
      else ReadStringFallback (nat n) s)"

section \<open>Little-endian words\<close>

definition ReadLittleEndian32FromArray :: "bytes \<Rightarrow> uint32" where
  "ReadLittleEndian32FromArray p =
     ucast (p ! 0) OR push_bit 8 (ucast (p ! 1)) OR push_bit 16 (ucast (p ! 2))
       OR push_bit 24 (ucast (p ! 3))"

definition ReadLittleEndian64FromArray :: "bytes \<Rightarrow> uint64" where
  "ReadLittleEndian64FromArray p =
     (let part0 = ReadLittleEndian32FromArray p; part1 = ReadLittleEndian32FromArray (drop 4 p)
      in ucast part0 OR push_bit 32 (ucast part1))"

definition ReadLittleEndian32 :: "cis \<Rightarrow> uint32 option \<times> cis" where
  "ReadLittleEndian32 s =
     (if BufferSize s \<ge> 4
      then (Some (ReadLittleEndian32FromArray (buffer s)), Advance 4 s)
      else let (ok, got, s1) = ReadRaw 4 s
           in (if ok then Some (ReadLittleEndian32FromArray got) else None, s1))"

definition ReadLittleEndian64 :: "cis \<Rightarrow> uint64 option \<times> cis" where
  "ReadLittleEndian64 s =
     (if BufferSize s \<ge> 8
      then (Some (ReadLittleEndian64FromArray (buffer s)), Advance 8 s)
      else let (ok, got, s1) = ReadRaw 8 s
           in (if ok then Some (ReadLittleEndian64FromArray got) else None, s1))"

section \<open>Varints\<close>

text \<open>
  The unrolled decoders read \<open>*(ptr++)\<close> without a check; a read behind the buffer is the
  outer \<open>None\<close>.  The inner \<open>None\<close> is the \<open>false\<close> of a varint longer than ten bytes.  One
  line \<open>b = *(ptr++); result += b << n; if (!(b & 0x80)) goto done; result -= 0x80 << n\<close>
  is one step of \<open>varint32_unrolled\<close>; the last subtraction is \<open>0\<close> in 32 bits.
\<close>

fun varint32_discard :: "nat \<Rightarrow> uint32 \<Rightarrow> bytes \<Rightarrow> (uint32 \<times> bytes) option option" where
  "varint32_discard 0 result p = Some None"
| "varint32_discard (Suc i) result [] = None"
| "varint32_discard (Suc i) result (b # p) =
     (if b AND 0x80 = 0 then Some (Some (result, p)) else varint32_discard i result p)"

fun varint32_unrolled :: "nat list \<Rightarrow> uint32 \<Rightarrow> bytes \<Rightarrow> (uint32 \<times> bytes) option option" where
  "varint32_unrolled [] result p =
     varint32_discard (kMaxVarintBytes - kMaxVarint32Bytes) result p"
| "varint32_unrolled (n # ns) result [] = None"
| "varint32_unrolled (n # ns) result (b # p) =
     (let result = result + push_bit n (ucast b)
      in if b AND 0x80 = 0 then Some (Some (result, p))
         else varint32_unrolled ns (result - push_bit n 0x80) p)"

definition ReadVarint32FromArray :: "uint32 \<Rightarrow> bytes \<Rightarrow> (uint32 \<times> bytes) option option" where
  "ReadVarint32FromArray first_byte p =
     varint32_unrolled [7, 14, 21, 28] (first_byte - 0x80) (drop 1 p)"

text \<open>The lines that fill one 32-bit part; the flag says that the varint ended in it.\<close>

fun varint64_part :: "nat list \<Rightarrow> uint32 \<Rightarrow> bytes \<Rightarrow> (bool \<times> uint32 \<times> bytes) option" where
  "varint64_part [] part p = Some (False, part, p)"
| "varint64_part (n # ns) part [] = None"
| "varint64_part (n # ns) part (b # p) =
     (let part = part + push_bit n (ucast b)
      in if b AND 0x80 = 0 then Some (True, part, p)
         else varint64_part ns (part - push_bit n 0x80) p)"

definition varint64_value :: "uint32 \<Rightarrow> uint32 \<Rightarrow> uint32 \<Rightarrow> uint64" where
  "varint64_value part0 part1 part2 =
     ucast part0 OR push_bit 28 (ucast part1) OR push_bit 56 (ucast part2)"

definition ReadVarint64FromArray :: "bytes \<Rightarrow> (uint64 \<times> bytes) option option" where
  "ReadVarint64FromArray p = do {
     (fin0, part0, p) \<leftarrow> varint64_part [0, 7, 14, 21] 0 p;
     if fin0 then Some (Some (varint64_value part0 0 0, p)) else do {
       (fin1, part1, p) \<leftarrow> varint64_part [0, 7, 14, 21] 0 p;
       if fin1 then Some (Some (varint64_value part0 part1 0, p)) else do {
         (fin2, part2, p) \<leftarrow> varint64_part [0, 7] 0 p;
         if fin2 then Some (Some (varint64_value part0 part1 part2, p)) else Some None
       }
     }
   }"

text \<open>The byte-wise loop, which refills the buffer where it runs out.\<close>

function ReadVarint64Slow_loop :: "nat \<Rightarrow> uint64 \<Rightarrow> cis \<Rightarrow> uint64 option \<times> cis" where
  "ReadVarint64Slow_loop count result s =
     (if count = kMaxVarintBytes then (None, s)
      else if buffer s = []
      then let r = Refresh_in s
           in if fst r then ReadVarint64Slow_loop count result (snd r) else (None, snd r)
      else let b = hd (buffer s);
               result = result OR push_bit (7 * count) (ucast (b AND 0x7F));
               s = Advance 1 s
           in if b AND 0x80 = 0 then (Some result, s)
              else ReadVarint64Slow_loop (count + 1) result s)"
  by auto
termination
  by (relation "measures [\<lambda>(_, _, s). pending s, \<lambda>(_, _, s). length (buffer s)]")
    (auto dest: Refresh_in_pending simp: length_buffer_Advance)

declare ReadVarint64Slow_loop.simps [simp del]

definition ReadVarint64Slow :: "cis \<Rightarrow> uint64 option \<times> cis" where
  "ReadVarint64Slow s = ReadVarint64Slow_loop 0 0 s"

text \<open>The test that the unrolled decoders cannot run out of the buffer.\<close>

definition varint_fits :: "cis \<Rightarrow> bool" where
  "varint_fits s \<longleftrightarrow> BufferSize s \<ge> kMaxVarintBytes
     \<or> (buffer s \<noteq> [] \<and> last (buffer s) AND 0x80 = 0)"

text \<open>Taking over the pointer that an array reader returns.\<close>

definition from_array :: "('a \<times> bytes) option option \<Rightarrow> cis \<Rightarrow> 'a option \<times> cis" where
  "from_array r s = (case r of
       None \<Rightarrow> (None, s\<lparr>ub := True\<rparr>)
     | Some None \<Rightarrow> (None, s)
     | Some (Some (v, p)) \<Rightarrow> (Some v, s\<lparr>buffer := p\<rparr>))"

definition ReadVarint64Fallback :: "cis \<Rightarrow> uint64 option \<times> cis" where
  "ReadVarint64Fallback s =
     (if varint_fits s then from_array (ReadVarint64FromArray (buffer s)) s
      else ReadVarint64Slow s)"

definition ReadVarint64 :: "cis \<Rightarrow> uint64 option \<times> cis" where
  "ReadVarint64 s =
     (if buffer s \<noteq> [] \<and> hd (buffer s) < 0x80
      then (Some (ucast (hd (buffer s))), Advance 1 s)
      else ReadVarint64Fallback s)"

definition ReadVarint32Slow :: "cis \<Rightarrow> uint32 option \<times> cis" where
  "ReadVarint32Slow s = (let (v, s1) = ReadVarint64Fallback s in (map_option ucast v, s1))"

definition ReadVarint32Fallback :: "uint32 \<Rightarrow> cis \<Rightarrow> uint32 option \<times> cis" where
  "ReadVarint32Fallback first_byte_or_zero s =
     (if varint_fits s then from_array (ReadVarint32FromArray first_byte_or_zero (buffer s)) s
      else ReadVarint32Slow s)"

definition ReadVarint32 :: "cis \<Rightarrow> uint32 option \<times> cis" where
  "ReadVarint32 s =
     (if buffer s \<noteq> [] \<and> hd (buffer s) < 0x80
      then (Some (ucast (hd (buffer s))), Advance 1 s)
      else ReadVarint32Fallback (if buffer s = [] then 0 else ucast (hd (buffer s))) s)"

definition ReadVarintSizeAsIntSlow :: "cis \<Rightarrow> int option \<times> cis" where
  "ReadVarintSizeAsIntSlow s =
     (case ReadVarint64Fallback s of
        (None, s1) \<Rightarrow> (None, s1)
      | (Some v, s1) \<Rightarrow> if uint v > INT_MAX then (None, s1) else (Some (uint v), s1))"

definition ReadVarintSizeAsIntFallback :: "cis \<Rightarrow> int option \<times> cis" where
  "ReadVarintSizeAsIntFallback s =
     (if varint_fits s
      then (case ReadVarint64FromArray (buffer s) of
          None \<Rightarrow> (None, s\<lparr>ub := True\<rparr>)
        | Some None \<Rightarrow> (None, s)
        | Some (Some (v, p)) \<Rightarrow>
            if uint v > INT_MAX then (None, s) else (Some (uint v), s\<lparr>buffer := p\<rparr>))
      else ReadVarintSizeAsIntSlow s)"

definition ReadVarintSizeAsInt :: "cis \<Rightarrow> int option \<times> cis" where
  "ReadVarintSizeAsInt s =
     (if buffer s \<noteq> [] \<and> hd (buffer s) < 0x80
      then (Some (uint (hd (buffer s))), Advance 1 s)
      else ReadVarintSizeAsIntFallback s)"

section \<open>Tags\<close>

text \<open>A tag of \<open>0\<close> stands for the end of the message and for a tag that cannot be read.\<close>

definition ReadTag_of :: "uint32 option \<times> cis \<Rightarrow> uint32 \<times> cis" where
  "ReadTag_of r = (case r of (None, s) \<Rightarrow> (0, s) | (Some t, s) \<Rightarrow> (t, s))"

definition ReadTagSlow :: "cis \<Rightarrow> uint32 \<times> cis" where
  "ReadTagSlow s =
     (let (ok, s1) = (if buffer s = [] then Refresh_in s else (True, s))
      in if \<not> ok
         then let current_position = total_bytes_read s1 - int (length (after_limit s1))
              in (0, s1\<lparr>legitimate_message_end :=
                         (if current_position \<ge> total_bytes_limit s1
                          then current_limit s1 = total_bytes_limit s1 else True)\<rparr>)
         else let (v, s2) = ReadVarint64 s1 in ReadTag_of (map_option ucast v, s2))"

definition ReadTagFallback :: "uint32 \<Rightarrow> cis \<Rightarrow> uint32 \<times> cis" where
  "ReadTagFallback first_byte_or_zero s =
     (if varint_fits s
      then if first_byte_or_zero = 0 then (0, Advance 1 s)
           else ReadTag_of (from_array (ReadVarint32FromArray first_byte_or_zero (buffer s)) s)
      else if buffer s = []
              \<and> (after_limit s \<noteq> [] \<or> total_bytes_read s = current_limit s)
              \<and> total_bytes_read s - int (length (after_limit s)) < total_bytes_limit s
      then (0, s\<lparr>legitimate_message_end := True\<rparr>)
      else ReadTagSlow s)"

definition ReadTagNoLastTag :: "cis \<Rightarrow> uint32 \<times> cis" where
  "ReadTagNoLastTag s =
     (if buffer s \<noteq> [] \<and> hd (buffer s) < 0x80 then (ucast (hd (buffer s)), Advance 1 s)
      else ReadTagFallback (if buffer s = [] then 0 else ucast (hd (buffer s))) s)"

definition ReadTag :: "cis \<Rightarrow> uint32 \<times> cis" where
  "ReadTag s = (let (t, s1) = ReadTagNoLastTag s in (t, s1\<lparr>last_tag := t\<rparr>))"

definition SetLastTag :: "uint32 \<Rightarrow> cis \<Rightarrow> cis" where
  "SetLastTag t s = s\<lparr>last_tag := t\<rparr>"

definition ReadTagWithCutoffNoLastTag :: "uint32 \<Rightarrow> cis \<Rightarrow> (uint32 \<times> bool) \<times> cis" where
  "ReadTagWithCutoffNoLastTag cutoff s =
     (let slow = (let (tag, s1) = ReadTagFallback
                        (if buffer s = [] then 0 else ucast (hd (buffer s))) s
                  in ((tag, tag - 1 < cutoff), s1))
      in case buffer s of
        [] \<Rightarrow> slow
      | b # p \<Rightarrow>
          if 0 < sint b
          then ((ucast b, cutoff \<ge> 0x7F \<or> ucast b \<le> cutoff), Advance 1 s)
          else (case p of
              [] \<Rightarrow> slow
            | b1 # _ \<Rightarrow>
                if cutoff \<ge> 0x80 \<and> b AND NOT b1 \<ge> 0x80
                then let tag = push_bit 7 1 * ucast b1 + (ucast b - 0x80)
                     in ((tag, cutoff \<ge> 0x3FFF \<or> tag \<le> cutoff), Advance 2 s)
                else slow))"

section \<open>The value of a varint\<close>

fun get_varint :: "nat \<Rightarrow> bytes \<Rightarrow> (nat \<times> bytes) option" where
  "get_varint 0 p = None"
| "get_varint (Suc k) [] = None"
| "get_varint (Suc k) (b # p) =
     (if unat b < 128 then Some (unat b, p)
      else map_option (\<lambda>(v, r). (unat b - 128 + 128 * v, r)) (get_varint k p))"

text \<open>The value of \<open>k\<close> bytes that all have the continuation bit.\<close>

fun low_bits :: "nat \<Rightarrow> bytes \<Rightarrow> nat" where
  "low_bits (Suc k) (b # p) = unat b - 128 + 128 * low_bits k p"
| "low_bits _ _ = 0"

lemma unat_byte_less [simp]: "unat (b :: byte) < 256"
  using unsigned_less [of b, where ?'a = nat] by simp

lemma top_bit_clear_iff: "(b :: byte) AND 0x80 = 0 \<longleftrightarrow> unat b < 128"
proof -
  have "b AND 0x80 = 0 \<longleftrightarrow> \<not> bit b 7"
    using and_exp_eq_0_iff_not_bit [of b 7] by simp
  also have "\<dots> \<longleftrightarrow> \<not> bit (unat b) 7"
    by (simp add: bit_unsigned_iff)
  also have "\<dots> \<longleftrightarrow> unat b < 128"
  proof (cases "unat b < 128")
    case False
    then have "unat b div 128 = 1"
      using unat_byte_less [of b] by (intro div_nat_eqI) simp_all
    with False show ?thesis by (simp add: bit_iff_odd)
  qed (simp add: bit_iff_odd)
  finally show ?thesis .
qed

lemma less_128_iff: "(b :: byte) < 0x80 \<longleftrightarrow> unat b < 128"
  by (simp add: word_less_nat_alt)

lemma get_varint_suffix: "get_varint k p = Some (v, r) \<Longrightarrow> \<exists>n. 0 < n \<and> n \<le> length p \<and> r = drop n p"
proof (induction k p arbitrary: v rule: get_varint.induct)
  case (3 k b p)
  show ?case
  proof (cases "unat b < 128")
    case True
    with 3 show ?thesis by (intro exI [of _ 1]) auto
  next
    case False
    with 3 obtain w where "get_varint k p = Some (w, r)" by auto
    with "3.IH" False obtain n where "0 < n \<and> n \<le> length p \<and> r = drop n p" by blast
    then show ?thesis by (intro exI [of _ "Suc n"]) auto
  qed
qed auto

lemma get_varint_less: "get_varint k p = Some (v, r) \<Longrightarrow> length r < length p"
  using get_varint_suffix [of k p v r] by auto

lemma get_varint_mono:
  assumes "get_varint j p = Some (v, r)" and "j \<le> k" shows "get_varint k p = Some (v, r)"
  using assms
proof (induction j p arbitrary: v k rule: get_varint.induct)
  case (3 j b p)
  then obtain i where "k = Suc i" "j \<le> i" by (cases k) auto
  with 3 show ?case by (cases "get_varint j p") (auto split: if_splits)
qed auto

lemma get_varint_split:
  "get_varint (j + k) p = (case get_varint j p of
       Some x \<Rightarrow> Some x
     | None \<Rightarrow> if length p < j then None
         else map_option (\<lambda>(v, r). (low_bits j p + 128 ^ j * v, r)) (get_varint k (drop j p)))"
proof (induction j p rule: get_varint.induct)
  case (3 j b p)
  then show ?case
    by (cases "get_varint j p"; cases "get_varint k (drop j p)") (auto simp: algebra_simps)
qed (auto simp: option.map_id split: option.splits)

lemma unat_continuation: "unat (word_of_nat (n mod 128 + 128) :: byte) = n mod 128 + 128"
  by (simp only: unsigned_of_nat take_bit_eq_mod) simp

lemma get_varint_varint:
  assumes "n < 2 ^ (7 * k)" and "0 < k" shows "get_varint k (varint n @ p) = Some (n, p)"
  using assms
proof (induction n arbitrary: k rule: varint.induct)
  case (1 n)
  from "1.prems"(2) obtain j where k: "k = Suc j" by (cases k) auto
  show ?case
  proof (cases "n < 128")
    case True
    then show ?thesis by (simp add: varint_small k unsigned_of_nat take_bit_eq_mod)
  next
    case False
    have "0 < j" using False "1.prems" by (cases j) (auto simp: k)
    moreover have "n div 128 < 2 ^ (7 * j)"
      using "1.prems" by (simp add: k power_add less_mult_imp_div_less)
    ultimately have "get_varint j (varint (n div 128) @ p) = Some (n div 128, p)"
      using "1.IH" False by blast
    then show ?thesis using False
      by (simp add: varint_large k unat_continuation del: of_nat_add)
  qed
qed

lemma low_bits_less: "low_bits k p < 128 ^ k"
proof (induction k p rule: low_bits.induct)
  case (1 k b p)
  have "unat b - 128 \<le> 127" using unat_byte_less [of b] by linarith
  moreover have "128 * low_bits k p + 128 \<le> 128 * 128 ^ k" using "1.IH" by simp
  ultimately show ?case by simp
qed auto

section \<open>The unrolled decoders\<close>

abbreviation shifts :: "nat \<Rightarrow> nat \<Rightarrow> nat list" where
  "shifts m k \<equiv> map (\<lambda>i. 7 * i) [m..<m + k]"

lemma shifts_Suc: "shifts m (Suc k) = 7 * m # shifts (Suc m) k"
  by (simp add: upt_conv_Cons del: upt_Suc)

lemma ucast_byte: "(ucast (b :: byte) :: 'a::len word) = of_nat (unat b)"
  by (simp add: unsigned_ucast_eq)

lemma drop_continuation:
  assumes "\<not> unat (b :: byte) < 128"
  shows "acc + push_bit n (ucast b) - push_bit n 128 = (acc + push_bit n (of_nat (unat b - 128)) :: 'a::len word)"
proof -
  have "(of_nat (unat b - 128) :: 'a word) = ucast b - 128"
    using assms by (simp only: ucast_byte of_nat_diff [of 128 "unat b"] not_less of_nat_numeral)
  then show ?thesis
    by (simp only: push_bit_eq_mult left_diff_distrib add_diff_eq)
qed

lemma push_bit_join:
  "push_bit (7 * m) (of_nat x) + push_bit (7 * Suc m) (of_nat y) =
     (push_bit (7 * m) (of_nat (x + 128 * y)) :: 'a::len word)"
proof -
  have "(2 :: 'a word) ^ (7 * Suc m) = 128 * 2 ^ (7 * m)"
    by (simp only: mult_Suc_right power_add) simp
  then show ?thesis
    by (simp only: push_bit_eq_mult of_nat_add of_nat_mult distrib_right mult.assoc of_nat_numeral mult.left_commute)
qed

lemma varint64_part_step:
  "varint64_part (shifts m (Suc k)) acc (b # p) =
     (if unat b < 128 then Some (True, acc + push_bit (7 * m) (of_nat (unat b)), p)
      else varint64_part (shifts (Suc m) k) (acc + push_bit (7 * m) (of_nat (unat b - 128))) p)"
  by (cases "unat b < 128")
    (simp_all only: shifts_Suc varint64_part.simps Let_def top_bit_clear_iff drop_continuation
      ucast_byte [of b, symmetric] if_True if_False not_False_eq_True)

lemma push_bit_accumulate:
  "acc + push_bit (7 * m) (of_nat x) + push_bit (7 * Suc m) (of_nat y) =
     (acc + push_bit (7 * m) (of_nat (x + 128 * y)) :: 'a::len word)"
  by (simp only: add.assoc push_bit_join)

lemma varint64_part_eq:
  "varint64_part (shifts m k) acc p = (case get_varint k p of
       Some (v, r) \<Rightarrow> Some (True, acc + push_bit (7 * m) (of_nat v), r)
     | None \<Rightarrow> if length p < k then None
         else Some (False, acc + push_bit (7 * m) (of_nat (low_bits k p)), drop k p))"
proof (induction k p arbitrary: m acc rule: get_varint.induct)
  case (3 k b p)
  show ?case
  proof (cases "unat b < 128")
    case True
    then show ?thesis by (simp only: varint64_part_step get_varint.simps if_True option.case prod.case)
  next
    case False
    show ?thesis
    proof (cases "get_varint k p")
      case None
      have "varint64_part (shifts m (Suc k)) acc (b # p) =
          (if length p < k then None
           else Some (False, acc + push_bit (7 * m) (of_nat (unat b - 128 + 128 * low_bits k p)), drop k p))"
        using 3 [OF False, of "Suc m"] None False
        by (simp only: varint64_part_step if_False option.case push_bit_accumulate)
      then show ?thesis using None False by (simp only: get_varint.simps low_bits.simps) simp
    next
      case (Some x)
      then obtain v r where x: "get_varint k p = Some (v, r)" by (cases x) auto
      have "varint64_part (shifts m (Suc k)) acc (b # p) =
          Some (True, acc + push_bit (7 * m) (of_nat (unat b - 128 + 128 * v)), r)"
        using 3 [OF False, of "Suc m"] x False
        by (simp only: varint64_part_step if_False option.case prod.case push_bit_accumulate)
      then show ?thesis using x False
        by (simp only: get_varint.simps if_False option.map prod.case option.case)
    qed
  qed
next
  case (2 k)
  show ?case by (simp only: shifts_Suc) simp
qed simp


lemma or_push_bit:
  fixes x y :: "'a::len word"
  assumes "unat x < 2 ^ n" shows "x OR push_bit n y = x + push_bit n y"
proof -
  have "\<not> bit x i" if "n \<le> i" for i
  proof -
    have "unat x < 2 ^ i" using assms that by (meson less_le_trans one_le_numeral power_increasing)
    then have "\<not> bit (unat x) i" by (simp add: bit_iff_odd)
    then show ?thesis by (simp add: bit_unsigned_iff)
  qed
  then have "\<And>i. \<not> bit x i \<or> \<not> bit (push_bit n y) i"
    by (meson bit_push_bit_iff not_le)
  then show ?thesis by (rule disjunctive_add [symmetric])
qed

lemma get_varint_bound: "get_varint k p = Some (v, r) \<Longrightarrow> v < 128 ^ k"
proof (induction k p arbitrary: v rule: get_varint.induct)
  case (3 k b p)
  show ?case
  proof (cases "unat b < 128")
    case True
    then have "v < 128" using "3.prems" by simp
    also have "(128 :: nat) \<le> 128 ^ Suc k" by simp
    finally show ?thesis .
  next
    case False
    then obtain w where w: "get_varint k p = Some (w, r)" "v = unat b - 128 + 128 * w"
      using "3.prems" by auto
    have "128 * w + 128 \<le> 128 * 128 ^ k" using "3.IH" [OF False w(1)] by simp
    moreover have "unat b - 128 < 128" using unat_byte_less [of b] by linarith
    ultimately show ?thesis using w(2) by simp
  qed
qed auto

lemma ucast_of_nat_wide: "n < 2 ^ 32 \<Longrightarrow> (ucast (of_nat n :: uint32) :: uint64) = of_nat n"
  by (simp add: unsigned_of_nat take_bit_nat_eq_self)

lemma unat_of_nat_64: "n < 2 ^ 56 \<Longrightarrow> unat (of_nat n :: uint64) = n"
  by (simp add: unsigned_of_nat take_bit_eq_mod)

lemma varint64_value_eq:
  assumes a: "a < 2 ^ 28" and b: "b < 2 ^ 28" and c: "c < 2 ^ 28"
  shows "varint64_value (of_nat a) (of_nat b) (of_nat c) = of_nat (a + 128 ^ 4 * (b + 128 ^ 4 * c))"
proof -
  have lt: "a < 2 ^ 32" "b < 2 ^ 32" "c < 2 ^ 32" using assms by simp_all
  have u: "unat (of_nat a :: uint64) < 2 ^ 28" "unat (of_nat b :: uint64) < 2 ^ 28"
    using a b by (simp_all add: unat_of_nat_64)
  have "push_bit 28 (of_nat b) OR push_bit 56 (of_nat c) = push_bit 28 (of_nat b OR push_bit 28 (of_nat c) :: uint64)"
    by (simp only: push_bit_or push_bit_push_bit) simp
  also have "\<dots> = push_bit 28 (of_nat b + push_bit 28 (of_nat c))"
    by (simp only: or_push_bit [OF u(2)])
  finally show ?thesis
    unfolding varint64_value_def ucast_of_nat_wide [OF lt(1)] ucast_of_nat_wide [OF lt(2)]
      ucast_of_nat_wide [OF lt(3)]
    by (simp only: or_push_bit [OF u(1)] or.assoc)
      (simp add: push_bit_eq_mult algebra_simps)
qed

lemma shifts_0_4: "[0, 7, 14, 21] = shifts 0 4"
  by (simp add: upt_rec)

lemma shifts_0_2: "[0, 7] = shifts 0 2"
  by (simp add: upt_rec)

lemma shifts_1_4: "[7, 14, 21, 28] = shifts 1 4"
  by (simp add: upt_rec)

lemma varint64_part_4:
  "varint64_part [0, 7, 14, 21] 0 p = (case get_varint 4 p of
       Some (v, r) \<Rightarrow> Some (True, of_nat v, r)
     | None \<Rightarrow> if length p < 4 then None else Some (False, of_nat (low_bits 4 p), drop 4 p))"
  unfolding shifts_0_4 varint64_part_eq by (simp only: mult_0_right push_bit_0_id id_apply add_0_left)

lemma varint64_part_2:
  "varint64_part [0, 7] 0 p = (case get_varint 2 p of
       Some (v, r) \<Rightarrow> Some (True, of_nat v, r)
     | None \<Rightarrow> if length p < 2 then None else Some (False, of_nat (low_bits 2 p), drop 2 p))"
  unfolding shifts_0_2 varint64_part_eq by (simp only: mult_0_right push_bit_0_id id_apply add_0_left)

lemma ReadVarint64FromArray_eq:
  "ReadVarint64FromArray p = (case get_varint 10 p of
       Some (v, r) \<Rightarrow> Some (Some (of_nat v, r))
     | None \<Rightarrow> if length p < 10 then None else Some None)"
proof -
  have v1: "varint64_value (of_nat a) 0 0 = of_nat a" if "a < 128 ^ 4" for a
    using varint64_value_eq [of a 0 0] that by simp
  have v2: "varint64_value (of_nat a) (of_nat b) 0 = of_nat (a + 128 ^ 4 * b)"
    if "a < 128 ^ 4" "b < 128 ^ 4" for a b
    using varint64_value_eq [of a b 0] that by simp
  have v3: "varint64_value (of_nat a) (of_nat b) (of_nat c) = of_nat (a + 128 ^ 4 * (b + 128 ^ 4 * c))"
    if "a < 128 ^ 4" "b < 128 ^ 4" "c < 128 ^ 2" for a b c
    using varint64_value_eq [of a b c] that by simp
  have split: "get_varint 10 p = (case get_varint 4 p of Some x \<Rightarrow> Some x
      | None \<Rightarrow> if length p < 4 then None
          else map_option (\<lambda>(v, r). (low_bits 4 p + 128 ^ 4 * v, r)) (get_varint 6 (drop 4 p)))"
    using get_varint_split [of 4 6 p] by simp
  have split': "get_varint 6 q = (case get_varint 4 q of Some x \<Rightarrow> Some x
      | None \<Rightarrow> if length q < 4 then None
          else map_option (\<lambda>(v, r). (low_bits 4 q + 128 ^ 4 * v, r)) (get_varint 2 (drop 4 q)))" for q
    using get_varint_split [of 4 2 q] by simp
  note unf = ReadVarint64FromArray_def varint64_part_4 varint64_part_2 split split'
  show ?thesis
  proof (cases "get_varint 4 p")
    case (Some x)
    then show ?thesis using get_varint_bound [of 4 p] by (cases x) (simp add: unf v1)
  next
    case n0: None
    show ?thesis
    proof (cases "get_varint 4 (drop 4 p)")
      case (Some x)
      then show ?thesis using n0 get_varint_bound [of 4 "drop 4 p"] low_bits_less [of 4 p]
        by (cases x) (simp add: unf v2 del: of_nat_add of_nat_mult)
    next
      case n1: None
      show ?thesis
      proof (cases "get_varint 2 (drop 4 (drop 4 p))")
        case (Some x)
        then show ?thesis
          using n0 n1 get_varint_bound [of 2 "drop 4 (drop 4 p)"] low_bits_less [of 4 p]
            low_bits_less [of 4 "drop 4 p"]
          by (cases x) (auto simp: unf v3 simp del: of_nat_add of_nat_mult)
      next
        case None
        then show ?thesis using n0 n1 by (simp add: unf) linarith
      qed
    qed
  qed
qed

lemma varint32_unrolled_eq:
  "varint32_unrolled ns acc p = (case varint64_part ns acc p of
       None \<Rightarrow> None
     | Some (fin, v, r) \<Rightarrow> if fin then Some (Some (v, r)) else varint32_discard 5 v r)"
  by (induction ns acc p rule: varint32_unrolled.induct)
    (auto simp: Let_def kMaxVarintBytes_def kMaxVarint32Bytes_def)

lemma varint32_discard_eq:
  "varint32_discard k v p = (case get_varint k p of
       Some (w, r) \<Rightarrow> Some (Some (v, r)) | None \<Rightarrow> if length p < k then None else Some None)"
  by (induction k v p rule: varint32_discard.induct)
    (auto simp: top_bit_clear_iff split: option.splits)

lemma ReadVarint32FromArray_eq:
  assumes b: "\<not> unat b < 128"
  shows "ReadVarint32FromArray (ucast b) (b # p) = (case get_varint 10 (b # p) of
       Some (v, r) \<Rightarrow> Some (Some (of_nat v, r))
     | None \<Rightarrow> if length p < 9 then None else Some None)"
proof -
  have acc: "(ucast b - 128 + push_bit (7 * 1) (of_nat x) :: uint32) = of_nat (unat b - 128 + 128 * x)" for x
  proof -
    have "(ucast b - 128 :: uint32) = of_nat (unat b - 128)"
      using b by (simp only: ucast_byte of_nat_diff [of 128 "unat b"] not_less of_nat_numeral)
    then show ?thesis using push_bit_join [of 0 "unat b - 128" x, where ?'a = 32]
      by (simp only: mult_0_right push_bit_0_id id_apply One_nat_def)
  qed
  have high: "(of_nat (unat b - 128 + (128 * x + 34359738368 * y)) :: uint32) = of_nat (unat b - 128 + 128 * x)" for x y
  proof -
    have "unat b - 128 + (128 * x + 34359738368 * y) = unat b - 128 + 128 * x + 2 ^ 35 * y" by simp
    moreover have "(of_nat (2 ^ 35 * y) :: uint32) = 0"
      unfolding word_of_nat_eq_0_iff by (intro dvd_mult2 le_imp_power_dvd) simp
    ultimately show ?thesis by (simp only: of_nat_add [of _ "2 ^ 35 * y"] add_0_right)
  qed
  have split: "get_varint 9 p = (case get_varint 4 p of Some x \<Rightarrow> Some x
      | None \<Rightarrow> if length p < 4 then None
          else map_option (\<lambda>(v, r). (low_bits 4 p + 128 ^ 4 * v, r)) (get_varint 5 (drop 4 p)))"
    using get_varint_split [of 4 5 p] by simp
  have ten: "get_varint 10 (b # p) = map_option (\<lambda>(v, r). (unat b - 128 + 128 * v, r)) (get_varint 9 p)"
    using b by (simp add: numeral_eq_Suc)
  have lhs: "ReadVarint32FromArray (ucast b) (b # p) = (case get_varint 4 p of
       Some (v, r) \<Rightarrow> Some (Some (of_nat (unat b - 128 + 128 * v), r))
     | None \<Rightarrow> if length p < 4 then None
         else varint32_discard 5 (of_nat (unat b - 128 + 128 * low_bits 4 p)) (drop 4 p))"
    unfolding ReadVarint32FromArray_def varint32_unrolled_eq shifts_1_4 varint64_part_eq acc
    by (simp split: option.splits)
  show ?thesis
    unfolding lhs ten split varint32_discard_eq
    by (cases "get_varint 4 p"; cases "get_varint 5 (drop 4 p)")
      (auto simp: high simp del: of_nat_add of_nat_mult)
qed

lemma get_varint_ends:
  "p \<noteq> [] \<Longrightarrow> unat (last p) < 128 \<Longrightarrow> length p \<le> k \<Longrightarrow> get_varint k p \<noteq> None"
  by (induction k p rule: get_varint.induct) (auto split: if_splits)

lemma varint_fits_not_short:
  "varint_fits s \<Longrightarrow> get_varint 10 (buffer s) = None \<Longrightarrow> 10 \<le> length (buffer s)"
  using get_varint_ends [of "buffer s" 10]
  by (cases "length (buffer s) \<le> 10") (auto simp: varint_fits_def BufferSize_def kMaxVarintBytes_def top_bit_clear_iff)

section \<open>Readers on a flat stream\<close>

text \<open>
  The invariant of a stream over an array: nothing was read outside it so far, and the
  current limit is the position of \<open>buffer_end_\<close>, so that \<open>Refresh\<close> always stops at a limit.
\<close>

definition flat :: "cis \<Rightarrow> bool" where
  "flat s \<longleftrightarrow> input s = None \<and> \<not> ub s \<and> overflow_bytes s = 0
     \<and> total_bytes_limit s = INT_MAX
     \<and> current_limit s = total_bytes_read s - int (length (after_limit s))
     \<and> int (length (buffer s) + length (after_limit s)) \<le> total_bytes_read s
     \<and> total_bytes_read s \<le> INT_MAX"

lemma flat_mk_CodedInputStream_flat:
  "int (length data) \<le> INT_MAX \<Longrightarrow> flat (mk_CodedInputStream_flat data)"
  by (simp add: flat_def mk_CodedInputStream_flat_def kDefaultTotalBytesLimit_def)

lemma flat_drop [simp]: "flat s \<Longrightarrow> flat (s\<lparr>buffer := drop n (buffer s)\<rparr>)"
  by (auto simp: flat_def)

lemma flat_last_tag [simp]: "flat (s\<lparr>last_tag := t\<rparr>) = flat s"
  by (simp add: flat_def)

lemma flat_legit [simp]: "flat (s\<lparr>legitimate_message_end := t\<rparr>) = flat s"
  by (simp add: flat_def)

lemma flat_budget [simp]: "flat (s\<lparr>recursion_budget := t\<rparr>) = flat s"
  by (simp add: flat_def)

lemma flat_Advance [simp]: "flat s \<Longrightarrow> flat (Advance n s)"
  by (simp add: Advance_def)

lemma Refresh_flat: "flat s \<Longrightarrow> Refresh_in s = (False, s)"
  by (auto simp: flat_def Refresh_in_def)

text \<open>
  \<open>reads R f\<close>: on a flat stream the reader \<open>R\<close> returns what \<open>f\<close> makes of the buffer and
  moves \<open>buffer_\<close> to where \<open>f\<close> stopped; where \<open>f\<close> fails, \<open>R\<close> fails somewhere in the buffer.
\<close>

definition reads :: "(cis \<Rightarrow> 'a option \<times> cis) \<Rightarrow> (bytes \<Rightarrow> ('a \<times> bytes) option) \<Rightarrow> bool" where
  "reads R f \<longleftrightarrow> (\<forall>s. flat s \<longrightarrow> (case f (buffer s) of
       Some (v, r) \<Rightarrow> R s = (Some v, s\<lparr>buffer := r\<rparr>)
     | None \<Rightarrow> \<exists>n. R s = (None, s\<lparr>buffer := drop n (buffer s)\<rparr>)))"

lemma readsD_Some:
  "reads R f \<Longrightarrow> flat s \<Longrightarrow> f (buffer s) = Some (v, r) \<Longrightarrow> R s = (Some v, s\<lparr>buffer := r\<rparr>)"
  by (auto simp: reads_def)

lemma readsE_None:
  assumes "reads R f" and "flat s" and "f (buffer s) = None"
  obtains n where "R s = (None, s\<lparr>buffer := drop n (buffer s)\<rparr>)"
  using assms by (force simp: reads_def)

lemma unat_and_7F: "unat ((b :: byte) AND 0x7F) = unat b mod 128"
  using take_bit_eq_mask [of 7 "unat b"] by (simp add: unsigned_and_eq mask_eq_exp_minus_1 take_bit_eq_mod)

lemma slow_step:
  fixes res :: uint64
  shows "res OR push_bit (7 * c) (ucast ((b :: byte) AND 0x7F)) OR push_bit (7 * Suc c) (of_nat v)
     = res OR push_bit (7 * c) (of_nat (unat b mod 128 + 128 * v))"
proof -
  note m = unat_and_7F [of b]
  have "(ucast (b AND 0x7F) :: uint64) OR push_bit 7 (of_nat v) = ucast (b AND 0x7F) + push_bit 7 (of_nat v)"
  proof (rule or_push_bit)
    have "unat (ucast (b AND 0x7F) :: uint64) = unat b mod 128"
      by (simp only: ucast_byte m) (simp add: unsigned_of_nat take_bit_eq_mod)
    then show "unat (ucast (b AND 0x7F) :: uint64) < 2 ^ 7" by simp
  qed
  also have "\<dots> = of_nat (unat b mod 128 + 128 * v)"
    using push_bit_join [of 0 "unat b mod 128" v, where ?'a = 64]
    by (simp only: ucast_byte m mult_0_right push_bit_0_id id_apply) simp
  finally have "push_bit (7 * c) (ucast (b AND 0x7F) OR push_bit 7 (of_nat v)) =
      (push_bit (7 * c) (of_nat (unat b mod 128 + 128 * v)) :: uint64)" by (rule arg_cong)
  moreover have "push_bit (7 * c) (push_bit 7 x) = push_bit (7 * Suc c) (x :: uint64)" for x
    by (simp only: push_bit_push_bit mult_Suc_right) (simp only: add.commute)
  ultimately show ?thesis by (simp only: push_bit_or or.assoc)
qed

lemma slow_loop_step:
  assumes "c < 10" and "buffer s = b # p"
  shows "ReadVarint64Slow_loop c res s =
        (if unat b < 128 then (Some (res OR push_bit (7 * c) (ucast (b AND 0x7F))), s\<lparr>buffer := p\<rparr>)
         else ReadVarint64Slow_loop (Suc c) (res OR push_bit (7 * c) (ucast (b AND 0x7F))) (s\<lparr>buffer := p\<rparr>))"
proof -
  have "c \<noteq> kMaxVarintBytes" using assms(1) by (simp add: kMaxVarintBytes_def)
  moreover have "Advance 1 s = s\<lparr>buffer := p\<rparr>" using assms(2) by (simp add: Advance_def)
  ultimately show ?thesis
    by (subst ReadVarint64Slow_loop.simps)
      (simp only: assms(2) list.sel list.simps Let_def top_bit_clear_iff if_False Suc_eq_plus1)
qed

lemma slow_loop_Nil:
  assumes "flat s" and "buffer s = []" shows "ReadVarint64Slow_loop c res s = (None, s)"
  using assms by (subst ReadVarint64Slow_loop.simps) (simp add: Refresh_flat)

lemma slow_loop_flat:
  assumes "flat s" and "c + k = 10"
  shows "case get_varint k (buffer s) of
       Some (v, r) \<Rightarrow> ReadVarint64Slow_loop c res s = (Some (res OR push_bit (7 * c) (of_nat v)), s\<lparr>buffer := r\<rparr>)
     | None \<Rightarrow> \<exists>n. ReadVarint64Slow_loop c res s = (None, s\<lparr>buffer := drop n (buffer s)\<rparr>)"
  using assms
proof (induction k arbitrary: c res s)
  case 0
  then show ?case
    by (subst ReadVarint64Slow_loop.simps) (auto simp: kMaxVarintBytes_def intro: exI [of _ 0])
next
  case (Suc k)
  then have c: "c < 10" by simp
  show ?case
  proof (cases "buffer s")
    case Nil
    then show ?thesis using slow_loop_Nil [OF Suc.prems(1)] by simp
  next
    case (Cons b p)
    note step = slow_loop_step [OF c Cons, of res]
    show ?thesis
    proof (cases "unat b < 128")
      case True
      have "b AND 0x7F = b"
        using unat_and_7F [of b] True by (simp only: word_unat_eq_iff mod_less)
      with True show ?thesis by (simp only: step Cons get_varint.simps if_True option.case prod.case ucast_byte)
    next
      case False
      have "unat b - 128 < 128" using unat_byte_less [of b] by linarith
      with False have m: "unat b mod 128 = unat b - 128" by (simp add: le_mod_geq not_less)
      let ?res = "res OR push_bit (7 * c) (ucast (b AND 0x7F))"
      have "Suc c + k = 10" using Suc.prems(2) by simp
      moreover have "flat (s\<lparr>buffer := p\<rparr>)" using flat_drop [OF Suc.prems(1), of 1] Cons by simp
      ultimately have IH: "case get_varint k p of
           Some (v, r) \<Rightarrow> ReadVarint64Slow_loop (Suc c) ?res (s\<lparr>buffer := p\<rparr>) =
             (Some (?res OR push_bit (7 * Suc c) (of_nat v)), s\<lparr>buffer := r\<rparr>)
         | None \<Rightarrow> \<exists>n. ReadVarint64Slow_loop (Suc c) ?res (s\<lparr>buffer := p\<rparr>) = (None, s\<lparr>buffer := drop n p\<rparr>)"
        using Suc.IH [of "s\<lparr>buffer := p\<rparr>" "Suc c" ?res] by (simp del: mult_Suc_right cong: option.case_cong)
      show ?thesis
      proof (cases "get_varint k p")
        case None
        with IH obtain n where "ReadVarint64Slow_loop (Suc c) ?res (s\<lparr>buffer := p\<rparr>) = (None, s\<lparr>buffer := drop n p\<rparr>)"
          by (auto simp only: option.case)
        then have "ReadVarint64Slow_loop c res s = (None, s\<lparr>buffer := drop (Suc n) (buffer s)\<rparr>)"
          by (simp only: step False if_False Cons drop_Suc_Cons)
        then show ?thesis unfolding Cons get_varint.simps None using False
          by (simp only: if_False option.map option.case) blast
      next
        case (Some x)
        obtain v r where x: "get_varint k p = Some (v, r)" using Some by (cases x) simp
        with IH have "ReadVarint64Slow_loop (Suc c) ?res (s\<lparr>buffer := p\<rparr>) =
            (Some (?res OR push_bit (7 * Suc c) (of_nat v)), s\<lparr>buffer := r\<rparr>)"
          by (simp only: option.case prod.case)
        with False x show ?thesis
          by (simp only: step Cons or.assoc slow_step m get_varint.simps option.map prod.case option.case if_False)
      qed
    qed
  qed
qed

lemma reads_slow: "reads ReadVarint64Slow (\<lambda>p. map_option (map_prod of_nat id) (get_varint 10 p))"
  unfolding reads_def ReadVarint64Slow_def
proof (intro allI impI)
  fix s assume "flat s"
  then show "case map_option (map_prod of_nat id) (get_varint 10 (buffer s)) of
       Some (v, r) \<Rightarrow> ReadVarint64Slow_loop 0 0 s = (Some v, s\<lparr>buffer := r\<rparr>)
     | None \<Rightarrow> \<exists>n. ReadVarint64Slow_loop 0 0 s = (None, s\<lparr>buffer := drop n (buffer s)\<rparr>)"
    using slow_loop_flat [of s 0 10 0] by (auto split: option.splits)
qed

definition get_word :: "bytes \<Rightarrow> ('a::len word \<times> bytes) option" where
  "get_word p = map_option (map_prod of_nat id) (get_varint 10 p)"

lemma readsI:
  assumes "\<And>s v r. flat s \<Longrightarrow> f (buffer s) = Some (v, r) \<Longrightarrow> R s = (Some v, s\<lparr>buffer := r\<rparr>)"
    and "\<And>s. flat s \<Longrightarrow> f (buffer s) = None \<Longrightarrow> \<exists>n. R s = (None, s\<lparr>buffer := drop n (buffer s)\<rparr>)"
  shows "reads R f"
  unfolding reads_def using assms by (force split: option.splits)

lemma reads_cong:
  assumes "reads R f" and "\<And>s. R s = Q s" shows "reads Q f"
proof -
  from assms(2) have "R = Q" by (rule ext)
  with assms(1) show ?thesis by simp
qed

lemma drop_0_state: "\<exists>n. (s :: cis) = s\<lparr>buffer := drop n (buffer s)\<rparr>"
  by (rule exI [of _ 0]) simp

lemma from_array_64:
  assumes "varint_fits s"
  shows "from_array (ReadVarint64FromArray (buffer s)) s = (case get_word (buffer s) of
       Some (v, r) \<Rightarrow> (Some v, s\<lparr>buffer := r\<rparr>) | None \<Rightarrow> (None, s))"
  using varint_fits_not_short [OF assms]
  by (auto simp: get_word_def from_array_def ReadVarint64FromArray_eq split: option.splits)

lemma from_array_32:
  assumes "varint_fits s" and "\<not> hd (buffer s) < 0x80"
  shows "from_array (ReadVarint32FromArray (ucast (hd (buffer s))) (buffer s)) s =
      (case get_word (buffer s) of
       Some (v, r) \<Rightarrow> (Some v, s\<lparr>buffer := r\<rparr>) | None \<Rightarrow> (None, s))"
proof -
  obtain b p where "buffer s = b # p"
    using assms(1) by (cases "buffer s") (auto simp: varint_fits_def BufferSize_def kMaxVarintBytes_def)
  then show ?thesis
    using assms(2) ReadVarint32FromArray_eq [of b p] varint_fits_not_short [OF assms(1)]
    by (auto simp: get_word_def from_array_def less_128_iff split: option.splits)
qed

lemma reads_ReadVarint64Slow: "reads ReadVarint64Slow get_word"
  using reads_slow by (simp add: get_word_def [abs_def])

lemma reads_ReadVarint64Fallback: "reads ReadVarint64Fallback get_word"
proof (rule readsI)
  fix s r and v :: uint64 assume s: "flat s" "get_word (buffer s) = Some (v, r)"
  then show "ReadVarint64Fallback s = (Some v, s\<lparr>buffer := r\<rparr>)"
    using readsD_Some [OF reads_ReadVarint64Slow s] by (simp add: ReadVarint64Fallback_def from_array_64)
next
  fix s assume s: "flat s" "(get_word (buffer s) :: (uint64 \<times> bytes) option) = None"
  then show "\<exists>n. ReadVarint64Fallback s = (None, s\<lparr>buffer := drop n (buffer s)\<rparr>)"
    using readsE_None [OF reads_ReadVarint64Slow s] drop_0_state [of s]
    by (cases "varint_fits s") (auto simp: ReadVarint64Fallback_def from_array_64)
qed

lemma hd_less_128:
  fixes s :: cis
  assumes "buffer s \<noteq> []" and "hd (buffer s) < 0x80"
  shows "get_word (buffer s) = Some (ucast (hd (buffer s)), tl (buffer s))"
    and "Advance 1 s = s\<lparr>buffer := tl (buffer s)\<rparr>"
  using assms by (cases "buffer s"; simp add: get_word_def less_128_iff numeral_eq_Suc Advance_def)+

text \<open>A reader that takes a single byte itself and leaves the rest to a fallback.\<close>

lemma reads_one_byte:
  assumes F: "reads F f"
    and f: "\<And>s :: cis. buffer s \<noteq> [] \<Longrightarrow> hd (buffer s) < 0x80 \<Longrightarrow> f (buffer s) = Some (g (hd (buffer s)), tl (buffer s))"
  shows "reads (\<lambda>s. if buffer s \<noteq> [] \<and> hd (buffer s) < 0x80 then (Some (g (hd (buffer s))), Advance 1 s)
      else F s) f"
proof (rule readsI)
  fix s v r assume s: "flat s" "f (buffer s) = Some (v, r)"
  show "(if buffer s \<noteq> [] \<and> hd (buffer s) < 0x80 then (Some (g (hd (buffer s))), Advance 1 s)
      else F s) = (Some v, s\<lparr>buffer := r\<rparr>)"
  proof (cases "buffer s \<noteq> [] \<and> hd (buffer s) < 0x80")
    case True
    then show ?thesis using f [of s] s(2) hd_less_128(2) [of s] by simp
  next
    case False
    then show ?thesis using readsD_Some [OF F s] by (simp only: if_False)
  qed
next
  fix s assume s: "flat s" "f (buffer s) = None"
  then have "\<not> (buffer s \<noteq> [] \<and> hd (buffer s) < 0x80)" using f [of s] by auto
  moreover obtain n where "F s = (None, s\<lparr>buffer := drop n (buffer s)\<rparr>)" using readsE_None [OF F s] .
  ultimately show "\<exists>n. (if buffer s \<noteq> [] \<and> hd (buffer s) < 0x80 then (Some (g (hd (buffer s))), Advance 1 s)
      else F s) = (None, s\<lparr>buffer := drop n (buffer s)\<rparr>)"
    by (simp only: if_False) blast
qed

lemma reads_ReadVarint64: "reads ReadVarint64 get_word"
  unfolding ReadVarint64_def [abs_def]
  by (rule reads_one_byte [OF reads_ReadVarint64Fallback]) (simp add: hd_less_128(1))

lemma ucast_of_nat_narrow: "(ucast (of_nat n :: uint64) :: uint32) = of_nat n"
  by (simp add: unsigned_of_nat word_of_nat_eq_iff)

lemma get_word_32:
  "(get_word p :: (uint32 \<times> bytes) option) = map_option (map_prod ucast id) (get_word p :: (uint64 \<times> bytes) option)"
  by (cases "get_varint 10 p") (auto simp: get_word_def ucast_of_nat_narrow)

lemma reads_map:
  assumes "reads R f" and "\<And>s. Q s = (let (v, s1) = R s in (map_option g v, s1))"
    and "\<And>p. h p = map_option (map_prod g id) (f p)"
  shows "reads Q h"
proof (rule readsI)
  fix s v r assume s: "flat s" "h (buffer s) = Some (v, r)"
  then obtain w where w: "f (buffer s) = Some (w, r)" "v = g w" by (auto simp: assms(3))
  show "Q s = (Some v, s\<lparr>buffer := r\<rparr>)"
    using readsD_Some [OF assms(1) s(1) w(1)] w(2) by (simp add: assms(2))
next
  fix s assume s: "flat s" "h (buffer s) = None"
  then have "f (buffer s) = None" by (simp add: assms(3))
  then obtain n where "R s = (None, s\<lparr>buffer := drop n (buffer s)\<rparr>)"
    using readsE_None [OF assms(1) s(1)] by metis
  then show "\<exists>n. Q s = (None, s\<lparr>buffer := drop n (buffer s)\<rparr>)"
    by (simp only: assms(2) Let_def prod.case option.map) (rule exI, rule refl)
qed

lemma reads_ReadVarint32Slow: "reads ReadVarint32Slow get_word"
  by (rule reads_map [OF reads_ReadVarint64Fallback ReadVarint32Slow_def get_word_32])

lemma ReadVarint32_unfold:
  "ReadVarint32 s = (if buffer s \<noteq> [] \<and> hd (buffer s) < 0x80
      then (Some (ucast (hd (buffer s))), Advance 1 s)
      else if varint_fits s then (case get_word (buffer s) of
       Some (v, r) \<Rightarrow> (Some v, s\<lparr>buffer := r\<rparr>) | None \<Rightarrow> (None, s)) else ReadVarint32Slow s)"
  using from_array_32 [of s]
  by (auto simp: ReadVarint32_def ReadVarint32Fallback_def varint_fits_def BufferSize_def kMaxVarintBytes_def)

lemma reads_if:
  assumes "reads R f"
  shows "reads (\<lambda>s. if c s then (case f (buffer s) of
       Some (v, r) \<Rightarrow> (Some v, s\<lparr>buffer := r\<rparr>) | None \<Rightarrow> (None, s)) else R s) f"
proof (rule readsI)
  fix s v r assume s: "flat s" "f (buffer s) = Some (v, r)"
  then show "(if c s then (case f (buffer s) of
       Some (v, r) \<Rightarrow> (Some v, s\<lparr>buffer := r\<rparr>) | None \<Rightarrow> (None, s)) else R s) = (Some v, s\<lparr>buffer := r\<rparr>)"
    using readsD_Some [OF assms s] by simp
next
  fix s assume s: "flat s" "f (buffer s) = None"
  then show "\<exists>n. (if c s then (case f (buffer s) of
       Some (v, r) \<Rightarrow> (Some v, s\<lparr>buffer := r\<rparr>) | None \<Rightarrow> (None, s)) else R s) = (None, s\<lparr>buffer := drop n (buffer s)\<rparr>)"
    using readsE_None [OF assms s] drop_0_state [of s] by auto
qed

lemma reads_ReadVarint32: "reads ReadVarint32 get_word"
  by (rule reads_cong [OF reads_one_byte [OF reads_if [OF reads_ReadVarint32Slow, of varint_fits], of ucast]])
    (rule hd_less_128(1), assumption+, rule ReadVarint32_unfold [symmetric])

text \<open>A length, which must fit into an \<open>int\<close>.\<close>

definition get_size :: "bytes \<Rightarrow> (int \<times> bytes) option" where
  "get_size p = (case (get_word p :: (uint64 \<times> bytes) option) of
       None \<Rightarrow> None | Some (v, r) \<Rightarrow> if uint v > INT_MAX then None else Some (uint v, r))"

lemma hd_less_128_size:
  fixes s :: cis
  assumes "buffer s \<noteq> []" and "hd (buffer s) < 0x80"
  shows "get_size (buffer s) = Some (uint (hd (buffer s)), tl (buffer s))"
proof -
  have "uint (ucast (hd (buffer s)) :: uint64) = uint (hd (buffer s))"
    using unsigned_less [of "hd (buffer s)", where ?'a = int]
    by (simp add: unsigned_ucast_eq take_bit_int_eq_self)
  moreover have "uint (hd (buffer s)) < 256"
    using unsigned_less [of "hd (buffer s)", where ?'a = int] by simp
  ultimately show ?thesis using hd_less_128(1) [OF assms, where ?'a = 64] by (simp add: get_size_def)
qed

lemma reads_ReadVarintSizeAsIntSlow: "reads ReadVarintSizeAsIntSlow get_size"
proof (rule readsI)
  fix s v r assume s: "flat s" "get_size (buffer s) = Some (v, r)"
  then obtain w :: uint64 where w: "get_word (buffer s) = Some (w, r)" "\<not> uint w > INT_MAX" "v = uint w"
    by (auto simp: get_size_def split: option.splits if_splits)
  then show "ReadVarintSizeAsIntSlow s = (Some v, s\<lparr>buffer := r\<rparr>)"
    using readsD_Some [OF reads_ReadVarint64Fallback s(1) w(1)]
    by (simp add: ReadVarintSizeAsIntSlow_def)
next
  fix s assume s: "flat s" "get_size (buffer s) = None"
  show "\<exists>n. ReadVarintSizeAsIntSlow s = (None, s\<lparr>buffer := drop n (buffer s)\<rparr>)"
  proof (cases "get_word (buffer s) :: (uint64 \<times> bytes) option")
    case None
    then obtain n where "ReadVarint64Fallback s = (None, s\<lparr>buffer := drop n (buffer s)\<rparr>)"
      using readsE_None [OF reads_ReadVarint64Fallback s(1)] by metis
    then show ?thesis by (auto simp: ReadVarintSizeAsIntSlow_def)
  next
    case (Some x)
    then obtain w :: uint64 and r where w: "get_word (buffer s) = Some (w, r)" by (cases x) auto
    then obtain n where "r = drop n (buffer s)"
      using get_varint_suffix by (fastforce simp: get_word_def)
    moreover have "uint w > INT_MAX" using s(2) w by (auto simp: get_size_def split: if_splits)
    ultimately show ?thesis using readsD_Some [OF reads_ReadVarint64Fallback s(1) w]
      by (auto simp: ReadVarintSizeAsIntSlow_def)
  qed
qed

lemma ReadVarintSizeAsInt_unfold:
  "ReadVarintSizeAsInt s = (if buffer s \<noteq> [] \<and> hd (buffer s) < 0x80
      then (Some (uint (hd (buffer s))), Advance 1 s)
      else if varint_fits s then (case get_size (buffer s) of
       Some (v, r) \<Rightarrow> (Some v, s\<lparr>buffer := r\<rparr>) | None \<Rightarrow> (None, s)) else ReadVarintSizeAsIntSlow s)"
proof (cases "varint_fits s")
  case True
  show ?thesis
  proof (cases "get_varint 10 (buffer s)")
    case None
    then show ?thesis using varint_fits_not_short [OF True None] True
      by (cases "buffer s") (simp_all add: ReadVarintSizeAsInt_def ReadVarintSizeAsIntFallback_def ReadVarint64FromArray_eq
          get_size_def get_word_def)
  next
    case (Some x)
    then show ?thesis using True
      by (cases x) (simp only: ReadVarintSizeAsInt_def ReadVarintSizeAsIntFallback_def
          ReadVarint64FromArray_eq get_size_def get_word_def option.case option.map map_prod_simp
          prod.case id_apply if_True if_distrib [where f = "case_option _ _"])
  qed
qed (simp add: ReadVarintSizeAsInt_def ReadVarintSizeAsIntFallback_def)

lemma reads_ReadVarintSizeAsInt: "reads ReadVarintSizeAsInt get_size"
  by (rule reads_cong [OF reads_one_byte [OF reads_if [OF reads_ReadVarintSizeAsIntSlow, of varint_fits], of uint]])
    (rule hd_less_128_size, assumption+, rule ReadVarintSizeAsInt_unfold [symmetric])

lemma ReadRaw_flat:
  assumes "flat s"
  shows "ReadRaw n s = (if length (buffer s) < n
     then (False, buffer s, s\<lparr>buffer := []\<rparr>)
     else (True, take n (buffer s), s\<lparr>buffer := drop n (buffer s)\<rparr>))"
  using Refresh_flat [OF flat_Advance [OF assms, of "BufferSize s"]]
  by (subst ReadRaw.simps) (simp add: BufferSize_def Advance_def)

lemma ReadString_flat:
  assumes "flat s"
  shows "ReadString str n s = (if n < 0 then (False, str, s)
     else if int (length (buffer s)) < n then (False, buffer s, s\<lparr>buffer := []\<rparr>)
     else (True, take (nat n) (buffer s), s\<lparr>buffer := drop (nat n) (buffer s)\<rparr>))"
proof -
  have "ReadStringFallback (nat n) s = (False, buffer s, s\<lparr>buffer := []\<rparr>)" if "int (length (buffer s)) < n"
    using that Refresh_flat [OF flat_Advance [OF assms, of "BufferSize s"]]
    unfolding ReadStringFallback_def
    by (subst ReadString_loop.simps) (simp add: BufferSize_def Advance_def)
  then show ?thesis by (simp add: ReadString_def BufferSize_def Advance_def)
qed

definition get_le32 :: "bytes \<Rightarrow> (uint32 \<times> bytes) option" where
  "get_le32 p = (if length p < 4 then None else Some (ReadLittleEndian32FromArray p, drop 4 p))"

definition get_le64 :: "bytes \<Rightarrow> (uint64 \<times> bytes) option" where
  "get_le64 p = (if length p < 8 then None else Some (ReadLittleEndian64FromArray p, drop 8 p))"

lemma reads_ReadLittleEndian32: "reads ReadLittleEndian32 get_le32"
proof (rule readsI)
  fix s v r assume "flat s" "get_le32 (buffer s) = Some (v, r)"
  then show "ReadLittleEndian32 s = (Some v, s\<lparr>buffer := r\<rparr>)"
    by (auto simp: ReadLittleEndian32_def get_le32_def BufferSize_def Advance_def split: if_splits)
next
  fix s assume "flat s" "get_le32 (buffer s) = None"
  then have "ReadLittleEndian32 s = (None, s\<lparr>buffer := drop (length (buffer s)) (buffer s)\<rparr>)"
    by (auto simp: ReadLittleEndian32_def get_le32_def BufferSize_def ReadRaw_flat split: if_splits)
  then show "\<exists>n. ReadLittleEndian32 s = (None, s\<lparr>buffer := drop n (buffer s)\<rparr>)" by (rule exI)
qed

lemma reads_ReadLittleEndian64: "reads ReadLittleEndian64 get_le64"
proof (rule readsI)
  fix s v r assume "flat s" "get_le64 (buffer s) = Some (v, r)"
  then show "ReadLittleEndian64 s = (Some v, s\<lparr>buffer := r\<rparr>)"
    by (auto simp: ReadLittleEndian64_def get_le64_def BufferSize_def Advance_def split: if_splits)
next
  fix s assume "flat s" "get_le64 (buffer s) = None"
  then have "ReadLittleEndian64 s = (None, s\<lparr>buffer := drop (length (buffer s)) (buffer s)\<rparr>)"
    by (auto simp: ReadLittleEndian64_def get_le64_def BufferSize_def ReadRaw_flat split: if_splits)
  then show "\<exists>n. ReadLittleEndian64 s = (None, s\<lparr>buffer := drop n (buffer s)\<rparr>)" by (rule exI)
qed

lemma bit_byte_at: "bit (push_bit k (ucast (ucast (drop_bit k v) :: byte)) :: 'a::len word) n
   \<longleftrightarrow> n < LENGTH('a) \<and> k \<le> n \<and> n < k + 8 \<and> bit (v :: 'a word) n"
  by (auto simp: bit_push_bit_iff bit_ucast_iff bit_drop_bit_eq dest: bit_imp_le_length)

lemma le32_bits:
  "ReadLittleEndian32FromArray (le32 v @ p) =
     push_bit 0 (ucast (ucast (drop_bit 0 v) :: byte)) OR push_bit 8 (ucast (ucast (drop_bit 8 v) :: byte))
       OR push_bit 16 (ucast (ucast (drop_bit 16 v) :: byte)) OR push_bit 24 (ucast (ucast (drop_bit 24 v) :: byte))"
  by (simp add: ReadLittleEndian32FromArray_def le32_def)

lemma ReadLittleEndian32FromArray_le32: "ReadLittleEndian32FromArray (le32 v @ p) = v"
proof (rule bit_word_eqI)
  fix n assume n: "n < LENGTH(32)"
  have "n < 8 \<or> (8 \<le> n \<and> n < 16) \<or> (16 \<le> n \<and> n < 24) \<or> 24 \<le> n" by linarith
  with n show "bit (ReadLittleEndian32FromArray (le32 v @ p)) n = bit v n"
    unfolding le32_bits bit_or_iff bit_byte_at by auto
qed

lemma ReadLittleEndian64FromArray_le64: "ReadLittleEndian64FromArray (le64 v @ p) = v"
proof -
  have d: "drop 4 (le64 v @ p) = le32 (ucast (drop_bit 32 v)) @ p" by (simp add: le64_def)
  have "ReadLittleEndian64FromArray (le64 v @ p) =
      ucast (ucast v :: uint32) OR push_bit 32 (ucast (ucast (drop_bit 32 v) :: uint32))"
    unfolding ReadLittleEndian64FromArray_def d
    by (simp only: Let_def le64_def append_assoc ReadLittleEndian32FromArray_le32)
  also have "\<dots> = v"
    by (rule bit_word_eqI) (auto simp: bit_or_iff bit_push_bit_iff bit_ucast_iff bit_drop_bit_eq not_le)
  finally show ?thesis .
qed

section \<open>Tags on a flat stream\<close>

lemma unat_ucast_byte: "unat (ucast (b :: byte) :: uint32) = unat b"
proof -
  have "unat b < 2 ^ 32" by (rule less_trans [OF unat_byte_less]) simp
  then show ?thesis by (simp add: unsigned_ucast_eq take_bit_nat_eq_self)
qed

lemma ReadTagFallback_flat:
  assumes "flat s"
  shows "buffer s = [] \<Longrightarrow> ReadTagFallback 0 s = (0, s\<lparr>legitimate_message_end := True\<rparr>)"
proof -
  assume e: "buffer s = []"
  have "ReadTagSlow s = (0, s\<lparr>legitimate_message_end := True\<rparr>)"
    using assms e by (auto simp: ReadTagSlow_def Refresh_flat flat_def)
  moreover have "\<not> varint_fits s"
    using e by (simp add: varint_fits_def BufferSize_def kMaxVarintBytes_def)
  ultimately show ?thesis by (simp add: ReadTagFallback_def)
qed

lemma ReadTagSlow_flat:
  assumes s: "flat s" and ne: "buffer s \<noteq> []"
  shows "case get_word (buffer s) of
       Some (t, r) \<Rightarrow> ReadTagSlow s = (t, s\<lparr>buffer := r\<rparr>)
     | None \<Rightarrow> \<exists>n. ReadTagSlow s = (0, s\<lparr>buffer := drop n (buffer s)\<rparr>)"
proof (cases "get_word (buffer s) :: (uint64 \<times> bytes) option")
  case None
  then obtain n where "ReadVarint64 s = (None, s\<lparr>buffer := drop n (buffer s)\<rparr>)"
    using readsE_None [OF reads_ReadVarint64 s] by metis
  then show ?thesis using ne None by (auto simp: ReadTagSlow_def ReadTag_of_def get_word_32)
next
  case (Some x)
  then obtain w r where w: "get_word (buffer s) = Some (w :: uint64, r)" by (cases x) auto
  show ?thesis using readsD_Some [OF reads_ReadVarint64 s w] ne w
    by (simp add: ReadTagSlow_def ReadTag_of_def get_word_32)
qed

lemma ReadTagFallback_flat_Cons:
  assumes s: "flat s" and ne: "buffer s \<noteq> []" and b: "\<not> (0 < hd (buffer s) \<and> hd (buffer s) < 0x80)"
  shows "case get_word (buffer s) of
       Some (t, r) \<Rightarrow> ReadTagFallback (ucast (hd (buffer s))) s = (t, s\<lparr>buffer := r\<rparr>)
     | None \<Rightarrow> \<exists>n. ReadTagFallback (ucast (hd (buffer s))) s = (0, s\<lparr>buffer := drop n (buffer s)\<rparr>)"
proof (cases "varint_fits s")
  case fits: True
  show ?thesis
  proof (cases "hd (buffer s) = 0")
    case True
    then show ?thesis
      using fits hd_less_128(1) [OF ne, where ?'a = 32] hd_less_128(2) [OF ne] by (simp add: ReadTagFallback_def)
  next
    case False
    then have "\<not> hd (buffer s) < 0x80" using b by (simp add: word_gt_0)
    moreover have "(ucast (hd (buffer s)) :: uint32) \<noteq> 0"
      using False unat_ucast_byte [of "hd (buffer s)"] by (auto simp: word_unat_eq_iff)
    ultimately have "ReadTagFallback (ucast (hd (buffer s))) s = (case get_word (buffer s) of
       Some (v, r) \<Rightarrow> (v, s\<lparr>buffer := r\<rparr>) | None \<Rightarrow> (0, s))"
      using fits from_array_32 [OF fits]
      by (auto simp: ReadTagFallback_def ReadTag_of_def split: option.splits)
    then show ?thesis using drop_0_state [of s] by (auto split: option.splits)
  qed
next
  case False
  then have "ReadTagFallback t s = ReadTagSlow s" for t
    using ne by (simp add: ReadTagFallback_def)
  then show ?thesis using ReadTagSlow_flat [OF s ne] by (auto split: option.splits)
qed

lemma sint_byte_pos: "0 < sint (b :: byte) \<longleftrightarrow> 0 < b \<and> b < 0x80"
proof -
  have "sint b = (if uint b < 128 then uint b else uint b - 256)"
  proof -
    have "sint b = (uint b + 128) mod 256 - 128"
      by (simp add: sint_uint signed_take_bit_eq_take_bit_shift take_bit_eq_mod)
    moreover have "uint b < 256" using unsigned_less [of b, where ?'a = int] by simp
    moreover have "(uint b + 128) mod 256 = uint b + 128 - 256" if "\<not> uint b < 128"
      using that calculation by (subst mod_pos_geq) auto
    ultimately show ?thesis by simp
  qed
  then show ?thesis using unsigned_less [of b, where ?'a = int] by (auto simp: word_less_def)
qed

text \<open>
  The tag reader of the generated code, whose cutoff is 127: at the end of the array it
  reports a legitimate end, otherwise the next varint.
\<close>

lemma ReadTagWithCutoff_end:
  "flat s \<Longrightarrow> buffer s = [] \<Longrightarrow>
     ReadTagWithCutoffNoLastTag 127 s = ((0, False), s\<lparr>legitimate_message_end := True\<rparr>)"
  by (simp add: ReadTagWithCutoffNoLastTag_def ReadTagFallback_flat)

lemma ReadTagWithCutoff_flat:
  assumes s: "flat s" and ne: "buffer s \<noteq> []"
  shows "case get_word (buffer s) of
       Some (t, r) \<Rightarrow> ReadTagWithCutoffNoLastTag 127 s = ((t, t - 1 < 127), s\<lparr>buffer := r\<rparr>)
     | None \<Rightarrow> \<exists>n. ReadTagWithCutoffNoLastTag 127 s = ((0, False), s\<lparr>buffer := drop n (buffer s)\<rparr>)"
proof -
  obtain b p where bp: "buffer s = b # p" using ne by (cases "buffer s") auto
  show ?thesis
  proof (cases "0 < b \<and> b < 0x80")
    case True
    note u = unat_ucast_byte [of b]
    moreover have "(ucast b :: uint32) \<noteq> 0" using True u by (auto simp: word_less_nat_alt)
    ultimately have "(ucast b :: uint32) - 1 < 127"
      using True by (auto simp: word_less_nat_alt unat_minus_one)
    with True show ?thesis using hd_less_128(1) [OF ne, where ?'a = 32] hd_less_128(2) [OF ne]
      by (simp add: ReadTagWithCutoffNoLastTag_def bp sint_byte_pos)
  next
    case False
    then have "ReadTagWithCutoffNoLastTag 127 s =
        (let (tag, s1) = ReadTagFallback (ucast (hd (buffer s))) s in ((tag, tag - 1 < 127), s1))"
      by (cases p) (auto simp: ReadTagWithCutoffNoLastTag_def bp sint_byte_pos Let_def)
    then show ?thesis using ReadTagFallback_flat_Cons [OF s ne] False bp
      by (auto split: option.splits)
  qed
qed

lemma ReadTag_end:
  "flat s \<Longrightarrow> buffer s = [] \<Longrightarrow>
     ReadTag s = (0, s\<lparr>legitimate_message_end := True, last_tag := 0\<rparr>)"
  by (simp add: ReadTag_def ReadTagNoLastTag_def ReadTagFallback_flat)

lemma ReadTag_flat:
  assumes s: "flat s" and ne: "buffer s \<noteq> []"
  shows "case get_word (buffer s) of
       Some (t, r) \<Rightarrow> ReadTag s = (t, s\<lparr>buffer := r, last_tag := t\<rparr>)
     | None \<Rightarrow> \<exists>n. ReadTag s = (0, s\<lparr>buffer := drop n (buffer s), last_tag := 0\<rparr>)"
proof (cases "hd (buffer s) < 0x80")
  case True
  then show ?thesis using hd_less_128(1) [OF ne True, where ?'a = 32] hd_less_128(2) [OF ne True] ne
    by (simp add: ReadTag_def ReadTagNoLastTag_def)
next
  case False
  then show ?thesis using ReadTagFallback_flat_Cons [OF s ne] ne
    by (auto simp: ReadTag_def ReadTagNoLastTag_def split: option.splits)
qed

section \<open>Nested limits on a flat stream\<close>

lemma PushLimit_flat:
  assumes "flat s" and "0 \<le> n"
  shows "PushLimit n s = (current_limit s, if n < int (length (buffer s))
     then s\<lparr>current_limit := CurrentPosition s + n, buffer := take (nat n) (buffer s),
            after_limit := drop (nat n) (buffer s) @ after_limit s\<rparr> else s)"
proof (cases "n < int (length (buffer s))")
  case True
  let ?s = "s\<lparr>current_limit := CurrentPosition s + n\<rparr>"
  have keep: "length (buffer s @ after_limit s) - nat (total_bytes_read s - (CurrentPosition s + n)) = nat n"
    using True assms(2) by (simp add: CurrentPosition_def BufferSize_def)
  have "CurrentPosition s + n < total_bytes_read s" "CurrentPosition s + n \<le> INT_MAX"
    using True assms by (auto simp: CurrentPosition_def BufferSize_def flat_def)
  moreover from this have "RecomputeBufferLimits ?s =
      ?s\<lparr>buffer := take (nat n) (buffer s @ after_limit s), after_limit := drop (nat n) (buffer s @ after_limit s)\<rparr>"
    using assms(1) keep by (simp add: RecomputeBufferLimits_def Let_def flat_def min_def)
  moreover have "n \<le> INT_MAX - CurrentPosition s \<and> n < current_limit s - CurrentPosition s"
    using True assms by (auto simp: CurrentPosition_def BufferSize_def flat_def)
  ultimately show ?thesis using True assms(2) by (simp add: PushLimit_def Let_def)
next
  case False
  then show ?thesis using assms by (auto simp: PushLimit_def Let_def CurrentPosition_def BufferSize_def flat_def)
qed

lemma PopLimit_flat:
  assumes "flat s" and "k \<le> length (after_limit s)"
  shows "PopLimit (total_bytes_read s - int k) s =
     s\<lparr>current_limit := total_bytes_read s - int k,
       buffer := buffer s @ take (length (after_limit s) - k) (after_limit s),
       after_limit := drop (length (after_limit s) - k) (after_limit s),
       legitimate_message_end := False\<rparr>"
proof (cases "k = 0")
  case True
  then show ?thesis using assms
    by (auto simp: PopLimit_def RecomputeBufferLimits_def Let_def flat_def)
next
  case False
  have "length (buffer s) + length (after_limit s) - k = length (buffer s) + (length (after_limit s) - k)"
    using assms(2) by simp
  with False show ?thesis using assms
    by (simp add: PopLimit_def RecomputeBufferLimits_def Let_def flat_def min_def)
qed

text \<open>What a reader does to a flat stream: it moves \<open>buffer_\<close> forward and may set flags.\<close>

definition moved :: "cis \<Rightarrow> cis \<Rightarrow> bool" where
  "moved s s' \<longleftrightarrow> (\<exists>n. buffer s' = drop n (buffer s))
     \<and> s'\<lparr>buffer := [], legitimate_message_end := False, last_tag := 0\<rparr> =
       s\<lparr>buffer := [], legitimate_message_end := False, last_tag := 0\<rparr>"

lemma moved_refl [simp, intro]: "moved s s"
  by (auto simp: moved_def intro: exI [of _ 0])

lemma moved_trans [trans]: "moved s t \<Longrightarrow> moved t u \<Longrightarrow> moved s u"
  by (auto simp: moved_def drop_drop)

lemma moved_drop [simp, intro]: "moved s (s\<lparr>buffer := drop n (buffer s)\<rparr>)"
  by (auto simp: moved_def)

lemma moved_legit [simp]: "moved s (s'\<lparr>legitimate_message_end := b\<rparr>) \<longleftrightarrow> moved s s'"
  by (simp add: moved_def)

lemma moved_last_tag [simp]: "moved s (s'\<lparr>last_tag := b\<rparr>) \<longleftrightarrow> moved s s'"
  by (simp add: moved_def)

lemma moved_fields:
  assumes "moved s s'"
  shows "input s' = input s" and "ub s' = ub s" and "after_limit s' = after_limit s"
    and "total_bytes_read s' = total_bytes_read s" and "overflow_bytes s' = overflow_bytes s"
    and "current_limit s' = current_limit s" and "total_bytes_limit s' = total_bytes_limit s"
    and "recursion_budget s' = recursion_budget s" and "recursion_limit s' = recursion_limit s"
    and "length (buffer s') \<le> length (buffer s)"
  using assms by (cases s; cases s'; auto simp: moved_def)+

lemma moved_flat: "moved s s' \<Longrightarrow> flat s \<Longrightarrow> flat s'"
  by (simp add: flat_def moved_fields) (use moved_fields(10) in fastforce)

lemma moved_eq:
  "moved s s' \<Longrightarrow> s' = s\<lparr>buffer := buffer s', legitimate_message_end := legitimate_message_end s',
     last_tag := last_tag s'\<rparr>"
  by (cases s; cases s') (auto simp: moved_def)

lemma moved_buffer: "moved s s' \<Longrightarrow> \<exists>n. buffer s' = drop n (buffer s)"
  by (auto simp: moved_def)

text \<open>Entering a nested message and leaving it again.\<close>

definition enter :: "int \<Rightarrow> cis \<Rightarrow> cis" where
  "enter n s = snd (IncrementRecursionDepthAndPushLimit n s)"

lemma IncrementRecursionDepthAndPushLimit_flat:
  assumes "flat s" and "0 \<le> n"
  shows "IncrementRecursionDepthAndPushLimit n s = ((current_limit s, recursion_budget s - 1), enter n s)"
    and "flat (enter n s)"
    and "buffer (enter n s) = take (nat n) (buffer s)"
    and "recursion_budget (enter n s) = recursion_budget s - 1"
    and "last_tag (enter n s) = last_tag s"
    and "legitimate_message_end (enter n s) = legitimate_message_end s"
  using assms PushLimit_flat [OF assms]
  by (auto simp: IncrementRecursionDepthAndPushLimit_def enter_def flat_def CurrentPosition_def BufferSize_def)

lemma leave_nested:
  assumes "flat s" and "0 \<le> n" and "moved (enter n s) t"
  shows "DecrementRecursionDepthAndPopLimit (current_limit s) t =
     (legitimate_message_end t,
      s\<lparr>buffer := buffer t @ drop (nat n) (buffer s), legitimate_message_end := False,
        last_tag := last_tag t\<rparr>)"
proof -
  let ?k = "length (after_limit s)"
  have ft: "flat t" using assms IncrementRecursionDepthAndPushLimit_flat(2) moved_flat by blast
  note fields = moved_fields [OF assms(3)]
  have enter: "enter n s = (if n < int (length (buffer s))
     then s\<lparr>current_limit := CurrentPosition s + n, buffer := take (nat n) (buffer s),
            after_limit := drop (nat n) (buffer s) @ after_limit s,
            recursion_budget := recursion_budget s - 1\<rparr>
     else s\<lparr>recursion_budget := recursion_budget s - 1\<rparr>)"
    by (simp add: enter_def IncrementRecursionDepthAndPushLimit_def PushLimit_flat [OF assms(1,2)])
  have lim: "current_limit s = total_bytes_read t - int ?k"
    using assms(1) by (simp add: fields enter flat_def)
  have after: "after_limit t = drop (nat n) (buffer s) @ after_limit s"
    using assms(2) by (simp add: fields enter)
  have pop: "PopLimit (current_limit s) t = t\<lparr>current_limit := current_limit s,
       buffer := buffer t @ drop (nat n) (buffer s), after_limit := after_limit s,
       legitimate_message_end := False\<rparr>"
    unfolding lim using PopLimit_flat [OF ft, of ?k] by (simp add: after)
  have t: "t = (enter n s)\<lparr>buffer := buffer t, legitimate_message_end := legitimate_message_end t,
      last_tag := last_tag t\<rparr>" by (rule moved_eq [OF assms(3)])
  have "(PopLimit (current_limit s) t)\<lparr>recursion_budget := recursion_budget s\<rparr> =
      s\<lparr>buffer := buffer t @ drop (nat n) (buffer s), legitimate_message_end := False, last_tag := last_tag t\<rparr>"
    unfolding pop by (subst (1) t) (simp add: enter)
  moreover have "recursion_budget (PopLimit (current_limit s) t) + 1 = recursion_budget s"
    by (simp add: pop fields enter)
  ultimately show ?thesis
    by (simp add: DecrementRecursionDepthAndPopLimit_def ConsumedEntireMessage_def Let_def)
qed

section \<open>Properties\<close>



end
