(* ===== verification/Utf8.thy ===== *)
theory Utf8
  imports CodedInput
begin

text \<open>
  The UTF-8 check that the protobuf runtime applies to every \<open>string\<close> field
  (stubs/structurally_valid.cc): a table-driven automaton with word-at-a-time fast paths.
  The result is that, at any alignment of the string, it accepts exactly the well-formed
  UTF-8 byte sequences (surrogates and overlong forms excluded).
\<close>

section \<open>Tables\<close>

definition kExitIllegalStructure :: nat where "kExitIllegalStructure = 240"
definition kExitOK :: nat where "kExitOK = 241"
definition kExitReject :: nat where "kExitReject = 242"
definition kExitDoAgain :: nat where "kExitDoAgain = 253"

text \<open>The nine blocks of \<open>utf8acceptnonsurrogates\<close>, one per state, as runs of equal entries.\<close>

definition state0 :: "nat list" where
  "state0 = replicate 128 0 @ replicate 66 kExitIllegalStructure @ replicate 30 1 @ [2]
     @ replicate 12 3 @ [7] @ replicate 2 3 @ [4] @ replicate 3 5 @ [6]
     @ replicate 11 kExitIllegalStructure"

definition state1 :: "nat list" where
  "state1 = replicate 128 kExitIllegalStructure @ replicate 64 0 @ replicate 64 kExitIllegalStructure"

definition state2 :: "nat list" where
  "state2 = replicate 160 kExitIllegalStructure @ replicate 32 1 @ replicate 64 kExitIllegalStructure"

definition state3 :: "nat list" where
  "state3 = replicate 128 kExitIllegalStructure @ replicate 64 1 @ replicate 64 kExitIllegalStructure"

definition state4 :: "nat list" where
  "state4 = replicate 144 kExitIllegalStructure @ replicate 48 3 @ replicate 64 kExitIllegalStructure"

definition state5 :: "nat list" where
  "state5 = replicate 128 kExitIllegalStructure @ replicate 64 3 @ replicate 64 kExitIllegalStructure"

definition state6 :: "nat list" where
  "state6 = replicate 128 kExitIllegalStructure @ replicate 16 3 @ replicate 112 kExitIllegalStructure"

definition state7 :: "nat list" where
  "state7 = replicate 128 kExitIllegalStructure @ replicate 32 1 @ replicate 32 8
     @ replicate 64 kExitIllegalStructure"

definition state8 :: "nat list" where
  "state8 = replicate 128 kExitIllegalStructure @ replicate 64 kExitReject
     @ replicate 64 kExitIllegalStructure"

definition utf8acceptnonsurrogates :: "nat list" where
  "utf8acceptnonsurrogates =
     state0 @ state1 @ state2 @ state3 @ state4 @ state5 @ state6 @ state7 @ state8"

definition utf8acceptnonsurrogates_fast :: "nat list" where
  "utf8acceptnonsurrogates_fast = replicate 128 0 @ replicate 128 1"

definition utf8acceptnonsurrogates_STATE0_SIZE :: nat where
  "utf8acceptnonsurrogates_STATE0_SIZE = 256"

definition utf8acceptnonsurrogates_SHIFT :: nat where
  "utf8acceptnonsurrogates_SHIFT = 8"

definition utf8acceptnonsurrogates_LOSUB :: uint32 where
  "utf8acceptnonsurrogates_LOSUB = 0x20202020"

definition utf8acceptnonsurrogates_HIADD :: uint32 where
  "utf8acceptnonsurrogates_HIADD = 0"

section \<open>The scan\<close>

text \<open>
  \<open>str\<close> is the scanned string, \<open>addr\<close> the address of its first byte and \<open>src\<close> an index
  into it; \<open>Tbl\<close> is the offset of the current block in the table.
\<close>

definition InStateZero :: "nat \<Rightarrow> bool" where
  "InStateZero Tbl \<longleftrightarrow> Tbl < utf8acceptnonsurrogates_STATE0_SIZE"

definition fast_state :: "byte \<Rightarrow> nat" where
  "fast_state c = utf8acceptnonsurrogates_fast ! unat c"

definition aligned :: "nat \<Rightarrow> nat \<Rightarrow> bool" where
  "aligned addr src \<longleftrightarrow> (addr + src) AND 7 = 0"

function scan_align :: "nat \<Rightarrow> bytes \<Rightarrow> nat \<Rightarrow> nat" where
  "scan_align addr str src =
     (if \<not> aligned addr src \<and> src < length str \<and> fast_state (str ! src) = 0
      then scan_align addr str (src + 1) else src)"
  by auto
termination by (relation "measure (\<lambda>(_, str, src). length str - src)") auto

function scan_groups :: "bytes \<Rightarrow> nat \<Rightarrow> nat" where
  "scan_groups str src =
     (if src + 7 < length str
      then let s0123 = ReadLittleEndian32FromArray (drop src str);
               s4567 = ReadLittleEndian32FromArray (drop (src + 4) str);
               temp = (s0123 - utf8acceptnonsurrogates_LOSUB) OR (s0123 + utf8acceptnonsurrogates_HIADD)
                      OR (s4567 - utf8acceptnonsurrogates_LOSUB) OR (s4567 + utf8acceptnonsurrogates_HIADD)
           in if temp AND 0x80808080 \<noteq> 0
              then if (fast_state (str ! src) OR fast_state (str ! (src + 1)))
                      OR (fast_state (str ! (src + 2)) OR fast_state (str ! (src + 3))) \<noteq> 0
                   then src
                   else if (fast_state (str ! (src + 4)) OR fast_state (str ! (src + 5)))
                      OR (fast_state (str ! (src + 6)) OR fast_state (str ! (src + 7))) \<noteq> 0
                   then src + 4
                   else scan_groups str (src + 8)
              else scan_groups str (src + 8)
      else src)"
  by auto
termination by (relation "measure (\<lambda>(str, src). length str - src)") auto

function scan_bytes :: "bytes \<Rightarrow> nat \<Rightarrow> nat \<Rightarrow> nat \<Rightarrow> nat \<times> nat \<times> nat" where
  "scan_bytes str src Tbl e =
     (if src < length str
      then let e' = utf8acceptnonsurrogates ! (Tbl + unat (str ! src))
           in if e' \<ge> kExitIllegalStructure then (e', Tbl, src + 1)
              else scan_bytes str (src + 1) (push_bit utf8acceptnonsurrogates_SHIFT e') e'
      else (e, Tbl, src))"
  by auto
termination by (relation "measure (\<lambda>(str, src, _, _). length str - src)") auto

fun scan_back :: "bytes \<Rightarrow> nat \<Rightarrow> nat" where
  "scan_back str 0 = 0"
| "scan_back str (Suc src) =
     (if src > 0 \<and> str ! src AND 0xC0 = 0x80 then scan_back str src else src)"

text \<open>
  The exit reason and the number of bytes consumed.  No entry of this table is
  \<open>kExitDoAgain\<close> (lemma \<open>scan_no_again\<close>), so the \<open>goto DoAgain\<close> is never taken.
\<close>

definition UTF8GenericScan :: "nat \<Rightarrow> bytes \<Rightarrow> nat \<times> nat" where
  "UTF8GenericScan addr str =
     (if str = [] then (kExitOK, 0)
      else let src = scan_align addr str 0;
               src = (if aligned addr src then scan_groups str src else src);
               (e, Tbl, src) = scan_bytes str src 0 0
           in if e \<ge> kExitIllegalStructure
              then let src = src - 1
                   in (e, if \<not> InStateZero Tbl then scan_back str src else src)
              else if \<not> InStateZero Tbl then (kExitIllegalStructure, scan_back str src)
              else (kExitOK, src))"

function ascii_align :: "nat \<Rightarrow> bytes \<Rightarrow> nat \<Rightarrow> nat" where
  "ascii_align addr str src =
     (if \<not> aligned addr src \<and> src < length str \<and> str ! src < 0x80
      then ascii_align addr str (src + 1) else src)"
  by auto
termination by (relation "measure (\<lambda>(_, str, src). length str - src)") auto

function ascii_groups :: "bytes \<Rightarrow> nat \<Rightarrow> nat" where
  "ascii_groups str src =
     (if src + 7 < length str
         \<and> (ReadLittleEndian32FromArray (drop src str)
            OR ReadLittleEndian32FromArray (drop (src + 4) str)) AND 0x80808080 = 0
      then ascii_groups str (src + 8) else src)"
  by auto
termination by (relation "measure (\<lambda>(str, src). length str - src)") auto

function ascii_bytes :: "bytes \<Rightarrow> nat \<Rightarrow> nat" where
  "ascii_bytes str src =
     (if src < length str \<and> str ! src < 0x80 then ascii_bytes str (src + 1) else src)"
  by auto
termination by (relation "measure (\<lambda>(str, src). length str - src)") auto

declare scan_align.simps [simp del] scan_groups.simps [simp del] scan_bytes.simps [simp del]
  ascii_align.simps [simp del] ascii_groups.simps [simp del] ascii_bytes.simps [simp del]

definition UTF8GenericScanFastAscii :: "nat \<Rightarrow> bytes \<Rightarrow> nat \<times> nat" where
  "UTF8GenericScanFastAscii addr str =
     (if str = [] then (kExitOK, 0)
      else let src = ascii_align addr str 0;
               src = (if aligned addr src then ascii_groups str src else src);
               n = ascii_bytes str src;
               (exit_reason, rest_consumed) = UTF8GenericScan (addr + n) (drop n str)
           in (exit_reason, n + rest_consumed))"

definition IsStructurallyValidUTF8 :: "nat \<Rightarrow> bytes \<Rightarrow> bool" where
  "IsStructurallyValidUTF8 addr str \<longleftrightarrow> snd (UTF8GenericScanFastAscii addr str) = length str"

section \<open>Well-formed UTF-8\<close>

abbreviation tail_byte :: "nat \<Rightarrow> nat \<Rightarrow> byte \<Rightarrow> bool" where
  "tail_byte lo hi b \<equiv> lo \<le> unat b \<and> unat b \<le> hi"

fun valid_utf8 :: "bytes \<Rightarrow> bool" where
  "valid_utf8 [] = True"
| "valid_utf8 (a # s) =
     (if unat a < 0x80 then valid_utf8 s
      else case s of [] \<Rightarrow> False | b # s \<Rightarrow>
        if tail_byte 0xC2 0xDF a then tail_byte 0x80 0xBF b \<and> valid_utf8 s
        else case s of [] \<Rightarrow> False | c # s \<Rightarrow>
          if tail_byte 0xE0 0xEF a
          then tail_byte (if unat a = 0xE0 then 0xA0 else 0x80) (if unat a = 0xED then 0x9F else 0xBF) b
               \<and> tail_byte 0x80 0xBF c \<and> valid_utf8 s
          else case s of [] \<Rightarrow> False | d # s \<Rightarrow>
            tail_byte 0xF0 0xF4 a
            \<and> tail_byte (if unat a = 0xF0 then 0x90 else 0x80) (if unat a = 0xF4 then 0x8F else 0xBF) b
            \<and> tail_byte 0x80 0xBF c \<and> tail_byte 0x80 0xBF d \<and> valid_utf8 s)"

section \<open>The automaton\<close>

lemmas state_defs = state0_def state1_def state2_def state3_def state4_def state5_def state6_def
  state7_def state8_def

lemma length_states [simp]:
  "length state0 = 256" "length state1 = 256" "length state2 = 256" "length state3 = 256"
  "length state4 = 256" "length state5 = 256" "length state6 = 256" "length state7 = 256"
  "length state8 = 256"
  by (simp_all add: state_defs)

lemma nth_table:
  assumes "c < 256"
  shows "utf8acceptnonsurrogates ! c = state0 ! c"
    and "utf8acceptnonsurrogates ! (256 + c) = state1 ! c"
    and "utf8acceptnonsurrogates ! (512 + c) = state2 ! c"
    and "utf8acceptnonsurrogates ! (768 + c) = state3 ! c"
    and "utf8acceptnonsurrogates ! (1024 + c) = state4 ! c"
    and "utf8acceptnonsurrogates ! (1280 + c) = state5 ! c"
    and "utf8acceptnonsurrogates ! (1536 + c) = state6 ! c"
    and "utf8acceptnonsurrogates ! (1792 + c) = state7 ! c"
    and "utf8acceptnonsurrogates ! (2048 + c) = state8 ! c"
  using assms by (simp_all add: utf8acceptnonsurrogates_def nth_append)

text \<open>The automaton itself: the block for state \<open>q\<close> is at offset \<open>256 * q\<close>.\<close>

fun accepts :: "nat \<Rightarrow> bytes \<Rightarrow> bool" where
  "accepts q [] \<longleftrightarrow> q = 0"
| "accepts q (c # s) \<longleftrightarrow> utf8acceptnonsurrogates ! (256 * q + unat c) < 240
     \<and> accepts (utf8acceptnonsurrogates ! (256 * q + unat c)) s"

lemma nth_state0:
  assumes n: "n < 256"
  shows "state0 ! n =
     (if n < 0x80 then 0 else if n < 0xC2 then 240 else if n < 0xE0 then 1
      else if n = 0xE0 then 2 else if n = 0xED then 7 else if n < 0xF0 then 3
      else if n = 0xF0 then 4 else if n < 0xF4 then 5 else if n = 0xF4 then 6 else 240)"
proof -
  consider "n < 0x80" | "0x80 \<le> n" "n < 0xC2" | "0xC2 \<le> n" "n < 0xE0"
    | "n = 0xE0" | "0xE0 < n" "n < 0xED" | "n = 0xED" | "0xED < n" "n < 0xF0"
    | "n = 0xF0" | "0xF0 < n" "n < 0xF4" | "n = 0xF4" | "0xF4 < n" using n by linarith
  then show ?thesis
    using n by cases (auto simp: state0_def nth_append kExitIllegalStructure_def)
qed

lemma nth_three_runs:
  "n < i + j + k \<Longrightarrow> (replicate i x @ replicate j y @ replicate k z) ! n = (if n < i then x else if n < i + j then y else z)"
  by (auto simp: nth_append)

lemma table_0:
  "utf8acceptnonsurrogates ! unat (c :: byte) =
     (if unat c < 0x80 then 0 else if unat c < 0xC2 then 240 else if unat c < 0xE0 then 1
      else if unat c = 0xE0 then 2 else if unat c = 0xED then 7 else if unat c < 0xF0 then 3
      else if unat c = 0xF0 then 4 else if unat c < 0xF4 then 5 else if unat c = 0xF4 then 6
      else 240)"
  by (simp add: nth_table nth_state0)

lemma nth_state7:
  "n < 256 \<Longrightarrow> state7 ! n = (if n < 0x80 then 240 else if n < 0xA0 then 1 else if n < 0xC0 then 8 else 240)"
  by (auto simp: state7_def nth_append kExitIllegalStructure_def)

lemma table_tail:
  "utf8acceptnonsurrogates ! (256 + unat (c :: byte)) = (if tail_byte 0x80 0xBF c then 0 else 240)"
  "utf8acceptnonsurrogates ! (512 + unat c) = (if tail_byte 0xA0 0xBF c then 1 else 240)"
  "utf8acceptnonsurrogates ! (768 + unat c) = (if tail_byte 0x80 0xBF c then 1 else 240)"
  "utf8acceptnonsurrogates ! (1024 + unat c) = (if tail_byte 0x90 0xBF c then 3 else 240)"
  "utf8acceptnonsurrogates ! (1280 + unat c) = (if tail_byte 0x80 0xBF c then 3 else 240)"
  "utf8acceptnonsurrogates ! (1536 + unat c) = (if tail_byte 0x80 0x8F c then 3 else 240)"
  "utf8acceptnonsurrogates ! (1792 + unat c) =
     (if tail_byte 0x80 0x9F c then 1 else if tail_byte 0xA0 0xBF c then 8 else 240)"
  "utf8acceptnonsurrogates ! (2048 + unat c) = (if tail_byte 0x80 0xBF c then 242 else 240)"
  by (auto simp: nth_table nth_state7 state1_def state2_def state3_def state4_def state5_def
      state6_def state8_def nth_three_runs kExitIllegalStructure_def kExitReject_def)

lemma accepts_tail:
  "accepts (Suc 0) (c # r) \<longleftrightarrow> tail_byte 0x80 0xBF c \<and> accepts 0 r"
  "accepts 2 (c # r) \<longleftrightarrow> tail_byte 0xA0 0xBF c \<and> accepts (Suc 0) r"
  "accepts 3 (c # r) \<longleftrightarrow> tail_byte 0x80 0xBF c \<and> accepts (Suc 0) r"
  "accepts 4 (c # r) \<longleftrightarrow> tail_byte 0x90 0xBF c \<and> accepts 3 r"
  "accepts 5 (c # r) \<longleftrightarrow> tail_byte 0x80 0xBF c \<and> accepts 3 r"
  "accepts 6 (c # r) \<longleftrightarrow> tail_byte 0x80 0x8F c \<and> accepts 3 r"
  by (auto simp: table_tail)

lemma accepts_8: "\<not> accepts 8 s"
  by (cases s) (auto simp: table_tail)

lemma accepts_7: "accepts 7 (c # r) \<longleftrightarrow> tail_byte 0x80 0x9F c \<and> accepts (Suc 0) r"
  by (auto simp: table_tail accepts_8)

lemma accepts_0_Cons:
  "accepts 0 (c # s) \<longleftrightarrow>
     (if unat c < 0x80 then accepts 0 s else if unat c < 0xC2 then False
      else if unat c < 0xE0 then accepts 1 s
      else if unat c = 0xE0 then accepts 2 s else if unat c = 0xED then accepts 7 s
      else if unat c < 0xF0 then accepts 3 s
      else if unat c = 0xF0 then accepts 4 s else if unat c < 0xF4 then accepts 5 s
      else if unat c = 0xF4 then accepts 6 s else False)"
  by (simp add: table_0)

declare accepts.simps(2) [simp del]

lemma accepts_0_iff: "accepts 0 s \<longleftrightarrow> valid_utf8 s"
proof (induction s rule: valid_utf8.induct)
  case (2 a s)
  consider "unat a < 0x80" | "0x80 \<le> unat a" "unat a < 0xC2" | "0xC2 \<le> unat a" "unat a < 0xE0"
    | "unat a = 0xE0" | "unat a = 0xED" | "0xE0 < unat a" "unat a < 0xF0" "unat a \<noteq> 0xED"
    | "unat a = 0xF0" | "0xF0 < unat a" "unat a < 0xF4" | "unat a = 0xF4" | "0xF4 < unat a"
    by linarith
  then show ?case
    using 2 by cases (auto simp: accepts_0_Cons accepts_tail accepts_7 split: list.splits)
qed simp

section \<open>The scan accepts what the automaton accepts\<close>

text \<open>\<open>skipped str i j\<close>: the scan may go from \<open>i\<close> to \<open>j\<close>, because only ASCII lies between.\<close>

definition skipped :: "bytes \<Rightarrow> nat \<Rightarrow> nat \<Rightarrow> bool" where
  "skipped str i j \<longleftrightarrow> i \<le> j \<and> j \<le> length str \<and> (\<forall>k. i \<le> k \<and> k < j \<longrightarrow> unat (str ! k) < 128)"

lemma skipped_refl: "i \<le> length str \<Longrightarrow> skipped str i i"
  by (simp add: skipped_def)

lemma skipped_step:
  "skipped str (i + n) j \<Longrightarrow> (\<And>k. k < n \<Longrightarrow> unat (str ! (i + k)) < 128) \<Longrightarrow> skipped str i j"
  unfolding skipped_def
proof (intro conjI allI impI)
  assume j: "i + n \<le> j \<and> j \<le> length str \<and> (\<forall>k. i + n \<le> k \<and> k < j \<longrightarrow> unat (str ! k) < 128)"
    and n: "\<And>k. k < n \<Longrightarrow> unat (str ! (i + k)) < 128"
  show "i \<le> j" "j \<le> length str" using j by auto
  fix k assume k: "i \<le> k \<and> k < j"
  show "unat (str ! k) < 128"
    using j k n [of "k - i"] by (cases "i + n \<le> k") auto
qed

lemma skipped_trans: "skipped str i j \<Longrightarrow> skipped str j k \<Longrightarrow> skipped str i k"
  unfolding skipped_def by (metis le_trans not_le)

lemma skipped_accepts:
  assumes "skipped str i j" shows "accepts 0 (drop i str) \<longleftrightarrow> accepts 0 (drop j str)"
  using assms
proof (induction "j - i" arbitrary: i)
  case (Suc n)
  then have "i < length str" "unat (str ! i) < 128" by (auto simp: skipped_def)
  moreover have "skipped str (Suc i) j" using Suc by (auto simp: skipped_def)
  ultimately show ?case using Suc.hyps(1) [of "Suc i"] Suc.hyps(2)
    by (simp add: Cons_nth_drop_Suc [symmetric] accepts_0_Cons)
qed (simp add: skipped_def)

lemma fast_state_iff: "fast_state c = 0 \<longleftrightarrow> unat c < 128"
  using unat_byte_less [of c]
  by (auto simp: fast_state_def utf8acceptnonsurrogates_fast_def nth_append simp del: unat_byte_less)

lemma skipped_scan_align: "i \<le> length str \<Longrightarrow> skipped str i (scan_align addr str i)"
proof (induction addr str i rule: scan_align.induct)
  case (1 addr str src)
  then show ?case
    by (subst scan_align.simps) (auto simp: skipped_refl fast_state_iff intro: skipped_step [where n = 1])
qed

lemma skipped_ascii_align: "i \<le> length str \<Longrightarrow> skipped str i (ascii_align addr str i)"
proof (induction addr str i rule: ascii_align.induct)
  case (1 addr str src)
  then show ?case
    by (subst ascii_align.simps) (auto simp: skipped_refl less_128_iff intro: skipped_step [where n = 1])
qed

lemma skipped_ascii_bytes: "i \<le> length str \<Longrightarrow> skipped str i (ascii_bytes str i)"
proof (induction str i rule: ascii_bytes.induct)
  case (1 str src)
  then show ?case
    by (subst ascii_bytes.simps) (auto simp: skipped_refl less_128_iff intro: skipped_step [where n = 1])
qed

text \<open>A little-endian word with no bit of \<open>0x80808080\<close> holds four ASCII bytes.\<close>

lemma high_bits_word:
  assumes "(w :: uint32) AND 0x80808080 = 0" and "n = 7 \<or> n = 15 \<or> n = 23 \<or> n = 31"
  shows "\<not> bit w n"
proof -
  have "(0x80808080 :: uint32) = 2 ^ 7 OR 2 ^ 15 OR 2 ^ 23 OR 2 ^ 31" by simp
  then have "bit (0x80808080 :: uint32) n" using assms(2) by (auto simp: bit_or_iff bit_exp_iff)
  moreover have "\<not> bit (w AND 0x80808080) n" using assms(1) by simp
  ultimately show ?thesis by (simp add: bit_and_iff)
qed

lemma ascii_word:
  assumes "ReadLittleEndian32FromArray p AND 0x80808080 = 0" and "k < 4"
  shows "unat (p ! k) < 128"
proof -
  have "\<not> bit (p ! k) 7"
  proof
    assume b: "bit (p ! k) 7"
    have "k = 0 \<or> k = 1 \<or> k = 2 \<or> k = 3" using assms(2) by linarith
    then have "bit (ReadLittleEndian32FromArray p) (8 * k + 7)"
      using b by (auto simp: ReadLittleEndian32FromArray_def bit_or_iff bit_push_bit_iff bit_ucast_iff)
    then show False using high_bits_word [OF assms(1), of "8 * k + 7"] \<open>k = 0 \<or> k = 1 \<or> k = 2 \<or> k = 3\<close> by auto
  qed
  then show ?thesis
    using and_exp_eq_0_iff_not_bit [of "p ! k" 7] top_bit_clear_iff [of "p ! k"] by simp
qed

lemma or_and_eq_0: "(x OR y) AND m = 0 \<longleftrightarrow> x AND m = 0 \<and> (y :: uint32) AND m = 0"
  by (simp only: bit.conj_disj_distrib2 or_eq_0_iff)

lemma ascii_groups_8:
  assumes "ReadLittleEndian32FromArray (drop i str) AND 0x80808080 = 0"
    and "ReadLittleEndian32FromArray (drop (i + 4) str) AND 0x80808080 = 0"
    and "i + 7 < length str" and "k < 8"
  shows "unat (str ! (i + k)) < 128"
  using ascii_word [OF assms(1), of k] ascii_word [OF assms(2), of "k - 4"] assms(3,4)
  by (cases "k < 4") (auto simp: nth_drop)

lemma skipped_ascii_groups: "i \<le> length str \<Longrightarrow> skipped str i (ascii_groups str i)"
proof (induction str i rule: ascii_groups.induct)
  case (1 str src)
  show ?case
  proof (cases "src + 7 < length str \<and> (ReadLittleEndian32FromArray (drop src str)
            OR ReadLittleEndian32FromArray (drop (src + 4) str)) AND 0x80808080 = 0")
    case True
    then have "skipped str (src + 8) (ascii_groups str (src + 8))" using "1.IH" by simp
    then have "skipped str src (ascii_groups str (src + 8))"
      by (rule skipped_step) (use True ascii_groups_8 in \<open>auto simp: or_and_eq_0\<close>)
    with True show ?thesis by (subst ascii_groups.simps) simp
  next
    case False
    then show ?thesis using "1.prems" by (subst ascii_groups.simps) (auto simp: skipped_refl)
  qed
qed

lemma fast_or_iff:
  "(fast_state a OR fast_state b) OR (fast_state c OR fast_state d) = 0 \<longleftrightarrow>
     unat a < 128 \<and> unat b < 128 \<and> unat c < 128 \<and> unat d < 128"
  by (simp add: or_eq_0_iff fast_state_iff)

lemma less_8_cases: "(k :: nat) < 8 \<Longrightarrow> k = 0 \<or> k = 1 \<or> k = 2 \<or> k = 3 \<or> k = 4 \<or> k = 5 \<or> k = 6 \<or> k = 7"
  by linarith

lemma less_4_cases: "(k :: nat) < 4 \<Longrightarrow> k = 0 \<or> k = 1 \<or> k = 2 \<or> k = 3"
  by linarith

lemma skipped_scan_groups: "i \<le> length str \<Longrightarrow> skipped str i (scan_groups str i)"
proof (induction "length str - i" arbitrary: i rule: less_induct)
  case (less src)
  let ?s = "ReadLittleEndian32FromArray (drop src str)"
  let ?t = "ReadLittleEndian32FromArray (drop (src + 4) str)"
  let ?temp = "(?s - utf8acceptnonsurrogates_LOSUB) OR (?s + utf8acceptnonsurrogates_HIADD)
                      OR (?t - utf8acceptnonsurrogates_LOSUB) OR (?t + utf8acceptnonsurrogates_HIADD)"
  let ?A = "unat (str ! src) < 128 \<and> unat (str ! (src + 1)) < 128 \<and> unat (str ! (src + 2)) < 128 \<and> unat (str ! (src + 3)) < 128"
  let ?B = "unat (str ! (src + 4)) < 128 \<and> unat (str ! (src + 5)) < 128 \<and> unat (str ! (src + 6)) < 128 \<and> unat (str ! (src + 7)) < 128"
  show ?case
  proof (cases "src + 7 < length str")
    case len: True
    then have IH: "skipped str (src + 8) (scan_groups str (src + 8))"
      using less.hyps [of "src + 8"] by simp
    have eq: "scan_groups str src = (if ?temp AND 0x80808080 = 0 then scan_groups str (src + 8)
        else if \<not> ?A then src else if \<not> ?B then src + 4 else scan_groups str (src + 8))"
      using len by (subst scan_groups.simps) (simp only: Let_def fast_or_iff if_True simp_thms if_not_P, simp)
    show ?thesis
    proof (cases "?temp AND 0x80808080 = 0")
      case True
      then have "?s AND 0x80808080 = 0" "?t AND 0x80808080 = 0"
        by (simp_all only: or_and_eq_0 utf8acceptnonsurrogates_HIADD_def add_0_right)
      then have "skipped str src (scan_groups str (src + 8))"
        using skipped_step [OF IH] ascii_groups_8 [of src str] len True by blast
      then show ?thesis using True by (simp only: eq if_True refl)
    next
      case False
      have 4: "skipped str src (src + 4)" if ?A
        using that skipped_refl [of "src + 4" str] len by (intro skipped_step [of str src 4]) (auto dest!: less_4_cases)
      have 8: "skipped str src (scan_groups str (src + 8))" if ?A ?B
        using that IH by (intro skipped_step [of str src 8]) (auto dest!: less_8_cases)
      show ?thesis using False 4 8 skipped_refl [of src str] less.prems unfolding eq by presburger
    qed
  next
    case False
    then show ?thesis using less.prems by (subst scan_groups.simps) (simp add: skipped_refl)
  qed
qed

text \<open>The byte loop stops with no exit code in state zero exactly where the automaton accepts.\<close>

lemma table_range: "256 * q + unat (c :: byte) < 2304 \<Longrightarrow>
   utf8acceptnonsurrogates ! (256 * q + unat c) < 9 \<or> utf8acceptnonsurrogates ! (256 * q + unat c) = 240
     \<or> utf8acceptnonsurrogates ! (256 * q + unat c) = 242"
proof -
  assume "256 * q + unat c < 2304"
  then have "q = 0 \<or> q = 1 \<or> q = 2 \<or> q = 3 \<or> q = 4 \<or> q = 5 \<or> q = 6 \<or> q = 7 \<or> q = 8" by linarith
  then show ?thesis by (elim disjE) (simp_all add: table_0 table_tail)
qed

lemma scan_bytes_spec:
  assumes "src \<le> length str" and "q < 9" and "e < 9"
  shows "case scan_bytes str src (256 * q) e of (e', Tbl, src') \<Rightarrow>
     (accepts q (drop src str) \<longleftrightarrow> e' < 240 \<and> InStateZero Tbl)
     \<and> (if e' < 240 then src' = length str
         else src < src' \<and> src' \<le> length str \<and> (e' = 240 \<or> e' = 242))"
  using assms
proof (induction "length str - src" arbitrary: src q e)
  case 0
  then show ?case
    by (subst scan_bytes.simps) (auto simp: InStateZero_def utf8acceptnonsurrogates_STATE0_SIZE_def)
next
  case (Suc n)
  then have len: "src < length str" by simp
  let ?e = "utf8acceptnonsurrogates ! (256 * q + unat (str ! src))"
  have d: "drop src str = str ! src # drop (Suc src) str" using len by (simp add: Cons_nth_drop_Suc)
  have "256 * q + unat (str ! src) < 2304" using Suc.prems(2) unat_byte_less [of "str ! src"] by linarith
  then consider "?e < 9" | "?e = 240 \<or> ?e = 242" using table_range by blast
  then show ?case
  proof cases
    case 1
    have "push_bit 8 ?e = 256 * ?e" by (simp add: push_bit_eq_mult)
    then have "scan_bytes str src (256 * q) e = scan_bytes str (Suc src) (256 * ?e) ?e"
      using len 1 by (subst scan_bytes.simps)
        (simp add: Let_def kExitIllegalStructure_def utf8acceptnonsurrogates_SHIFT_def)
    moreover have "n = length str - Suc src" using Suc.hyps(2) by simp
    ultimately show ?thesis using Suc.hyps(1) [of "Suc src" ?e ?e] len 1
      by (auto simp: d accepts.simps(2) split: prod.splits if_splits)
  next
    case 2
    then have "scan_bytes str src (256 * q) e = (?e, 256 * q, src + 1)"
      using len by (subst scan_bytes.simps) (auto simp: Let_def kExitIllegalStructure_def)
    then show ?thesis using 2 len by (auto simp: d accepts.simps(2))
  qed
qed

lemma scan_back_less: "0 < n \<Longrightarrow> scan_back str n < n"
  by (induction str n rule: scan_back.induct) (auto simp: less_Suc_eq)

lemma UTF8GenericScan_spec:
  assumes "UTF8GenericScan addr str = (e, n)"
  shows "n = length str \<longleftrightarrow> valid_utf8 str" and "n \<le> length str" and "e \<noteq> kExitDoAgain"
proof -
  have "(n = length str \<longleftrightarrow> valid_utf8 str) \<and> n \<le> length str \<and> e \<noteq> kExitDoAgain"
  proof (cases "str = []")
    case True
    then show ?thesis using assms by (auto simp: UTF8GenericScan_def kExitOK_def kExitDoAgain_def)
  next
    case False
    define i where "i = scan_align addr str 0"
    define j where "j = (if aligned addr i then scan_groups str i else i)"
    have "skipped str 0 i" using skipped_scan_align [of 0 str addr] by (simp add: i_def)
    moreover have "skipped str i j"
      using skipped_scan_groups [of i str] skipped_refl [of i str] \<open>skipped str 0 i\<close>
      by (simp add: j_def skipped_def)
    ultimately have "skipped str 0 j" by (rule skipped_trans)
    then have v: "valid_utf8 str \<longleftrightarrow> accepts 0 (drop j str)" and j: "j \<le> length str"
      using skipped_accepts [of str 0 j] by (auto simp: accepts_0_iff skipped_def)
    obtain e' Tbl k where k: "scan_bytes str j 0 0 = (e', Tbl, k)" by (metis prod_cases3)
    have spec: "(accepts 0 (drop j str) \<longleftrightarrow> e' < 240 \<and> InStateZero Tbl)
        \<and> (if e' < 240 then k = length str else j < k \<and> k \<le> length str \<and> (e' = 240 \<or> e' = 242))"
      using scan_bytes_spec [of j str 0 0] j k by simp
    have res: "UTF8GenericScan addr str = (if e' \<ge> 240
              then (e', if \<not> InStateZero Tbl then scan_back str (k - 1) else k - 1)
              else if \<not> InStateZero Tbl then (240, scan_back str k) else (241, k))"
      unfolding UTF8GenericScan_def Let_def i_def [symmetric] j_def [symmetric] k
      using False by (simp add: kExitIllegalStructure_def kExitOK_def)
    have less: "scan_back str (k - 1) \<le> k - 1" "scan_back str (length str) < length str"
      using scan_back_less [of "k - 1" str] scan_back_less [of "length str" str] False
      by (cases "k - 1"; simp)+
    show ?thesis using assms spec res less False v
      by (auto simp: kExitDoAgain_def split: if_splits)
  qed
  then show "n = length str \<longleftrightarrow> valid_utf8 str" and "n \<le> length str" and "e \<noteq> kExitDoAgain" by auto
qed

lemma scan_no_again: "fst (UTF8GenericScan addr str) \<noteq> kExitDoAgain"
  using UTF8GenericScan_spec(3) [of addr str] by (metis prod.collapse)

lemma IsStructurallyValidUTF8_iff: "IsStructurallyValidUTF8 addr str \<longleftrightarrow> valid_utf8 str"
proof (cases "str = []")
  case False
  define i where "i = ascii_align addr str 0"
  define j where "j = (if aligned addr i then ascii_groups str i else i)"
  define n where "n = ascii_bytes str j"
  have 1: "skipped str 0 i" using skipped_ascii_align [of 0 str addr] by (simp add: i_def)
  then have 2: "skipped str i j"
    using skipped_ascii_groups [of i str] skipped_refl [of i str] by (simp add: j_def skipped_def)
  then have 3: "skipped str j n"
    using skipped_ascii_bytes [of j str] by (simp add: n_def skipped_def)
  from 1 2 3 have "skipped str 0 n" by (blast intro: skipped_trans)
  then have v: "valid_utf8 str \<longleftrightarrow> valid_utf8 (drop n str)" and n: "n \<le> length str"
    using skipped_accepts [of str 0 n] by (auto simp: accepts_0_iff skipped_def)
  obtain e k where k: "UTF8GenericScan (addr + n) (drop n str) = (e, k)" by fastforce
  have "UTF8GenericScanFastAscii addr str = (e, n + k)"
    unfolding UTF8GenericScanFastAscii_def Let_def i_def [symmetric] j_def [symmetric] n_def [symmetric] k
    using False by simp
  then show ?thesis using UTF8GenericScan_spec(1) [OF k] v n
    by (auto simp: IsStructurallyValidUTF8_def)
qed (simp add: IsStructurallyValidUTF8_def UTF8GenericScanFastAscii_def)

section \<open>Properties\<close>

text \<open>C23: at every alignment of the string, the table-driven scan with its word-at-a-time fast
  paths accepts exactly the well-formed UTF-8 byte sequences.\<close>

theorem utf8_check_correct: "IsStructurallyValidUTF8 addr str \<longleftrightarrow> valid_utf8 str"
  by (rule IsStructurallyValidUTF8_iff)

end
