(* ===== verification/WireFormat.thy ===== *)
theory WireFormat
  imports Utf8
begin

text \<open>
  The protobuf wire format (wire_format_lite.h, wire_format_lite_inl.h, wire_format_lite.cc,
  wire_format.cc): tags, the field readers and writers that the generated code calls, nested
  messages, and the unknown fields that a proto3 message keeps.  The results are the exact
  bytes of every writer, the agreement of the size functions with them, that skipping unknown
  input always returns and stays inside the buffer, and that unknown fields survive a round
  trip.
\<close>

section \<open>Tags\<close>

datatype WireType = WIRETYPE_VARINT | WIRETYPE_FIXED64 | WIRETYPE_LENGTH_DELIMITED
  | WIRETYPE_START_GROUP | WIRETYPE_END_GROUP | WIRETYPE_FIXED32

fun wire_code :: "WireType \<Rightarrow> uint32" where
  "wire_code WIRETYPE_VARINT = 0"
| "wire_code WIRETYPE_FIXED64 = 1"
| "wire_code WIRETYPE_LENGTH_DELIMITED = 2"
| "wire_code WIRETYPE_START_GROUP = 3"
| "wire_code WIRETYPE_END_GROUP = 4"
| "wire_code WIRETYPE_FIXED32 = 5"

definition MakeTag :: "uint32 \<Rightarrow> WireType \<Rightarrow> uint32" where
  "MakeTag field_number type = push_bit 3 field_number OR wire_code type"

text \<open>The two codes that are not wire types reach the \<open>default\<close> case of every switch.\<close>

definition GetTagWireType :: "uint32 \<Rightarrow> WireType option" where
  "GetTagWireType tag = (let c = tag AND 7 in
     if c = 0 then Some WIRETYPE_VARINT else if c = 1 then Some WIRETYPE_FIXED64
     else if c = 2 then Some WIRETYPE_LENGTH_DELIMITED else if c = 3 then Some WIRETYPE_START_GROUP
     else if c = 4 then Some WIRETYPE_END_GROUP else if c = 5 then Some WIRETYPE_FIXED32
     else None)"

definition GetTagFieldNumber :: "uint32 \<Rightarrow> uint32" where
  "GetTagFieldNumber tag = drop_bit 3 tag"

section \<open>Field readers\<close>

definition ReadPrimitive_int32 :: "cis \<Rightarrow> int32 option \<times> cis" where
  "ReadPrimitive_int32 s = ReadVarint32 s"

definition ReadPrimitive_float :: "cis \<Rightarrow> float32 option \<times> cis" where
  "ReadPrimitive_float s = ReadLittleEndian32 s"

definition ReadPrimitive_bool :: "cis \<Rightarrow> bool option \<times> cis" where
  "ReadPrimitive_bool s = (let (temp, s1) = ReadVarint64 s in (map_option (\<lambda>v. v \<noteq> 0) temp, s1))"

definition ReadPrimitive_enum :: "cis \<Rightarrow> int32 option \<times> cis" where
  "ReadPrimitive_enum s = ReadVarint32 s"

text \<open>\<open>ReadString\<close> and \<open>ReadBytes\<close>: the \<open>uint32\<close> length is passed on as an \<open>int\<close>.\<close>

definition ReadBytesToString :: "bytes \<Rightarrow> cis \<Rightarrow> bool \<times> bytes \<times> cis" where
  "ReadBytesToString str s = (case ReadVarint32 s of
       (None, s1) \<Rightarrow> (False, str, s1)
     | (Some len, s1) \<Rightarrow> ReadString str (sint len) s1)"

text \<open>The address of the string does not matter (lemma \<open>IsStructurallyValidUTF8_iff\<close>).\<close>

definition VerifyUtf8String :: "bytes \<Rightarrow> bool" where
  "VerifyUtf8String str = IsStructurallyValidUTF8 0 str"

type_synonym 'm result = "(bool \<times> 'm \<times> cis) option"

definition ReadMessage :: "('m \<Rightarrow> cis \<Rightarrow> 'm result) \<Rightarrow> 'm \<Rightarrow> cis \<Rightarrow> 'm result" where
  "ReadMessage merge m s = (case ReadVarintSizeAsInt s of
       (None, s1) \<Rightarrow> Some (False, m, s1)
     | (Some len, s1) \<Rightarrow>
         let ((old_limit, budget), s2) = IncrementRecursionDepthAndPushLimit len s1
         in if budget < 0 then Some (False, m, s2)
            else do {
              (ok, m', s3) \<leftarrow> merge m s2;
              if \<not> ok then Some (False, m', s3)
              else let (r, s4) = DecrementRecursionDepthAndPopLimit old_limit s3
                   in Some (r, m', s4)
            })"

section \<open>Field writers\<close>

definition WFL_WriteTag :: "uint32 \<Rightarrow> WireType \<Rightarrow> cos \<Rightarrow> cos option" where
  "WFL_WriteTag n t s = WriteTag (MakeTag n t) s"

definition WriteInt32 :: "uint32 \<Rightarrow> int32 \<Rightarrow> cos \<Rightarrow> cos option" where
  "WriteInt32 n v s = WFL_WriteTag n WIRETYPE_VARINT s \<bind> WriteVarint32SignExtended v"

definition WriteFloat :: "uint32 \<Rightarrow> float32 \<Rightarrow> cos \<Rightarrow> cos option" where
  "WriteFloat n v s = WFL_WriteTag n WIRETYPE_FIXED32 s \<bind> WriteLittleEndian32 v"

definition WriteBool :: "uint32 \<Rightarrow> bool \<Rightarrow> cos \<Rightarrow> cos option" where
  "WriteBool n v s = WFL_WriteTag n WIRETYPE_VARINT s \<bind> WriteVarint32 (if v then 1 else 0)"

definition WriteEnum :: "uint32 \<Rightarrow> int32 \<Rightarrow> cos \<Rightarrow> cos option" where
  "WriteEnum n v s = WFL_WriteTag n WIRETYPE_VARINT s \<bind> WriteVarint32SignExtended v"

text \<open>\<open>None\<close> is also the abort of \<open>GOOGLE_CHECK_LE(value.size(), kint32max)\<close>.\<close>

definition WriteStringMaybeAliased :: "uint32 \<Rightarrow> bytes \<Rightarrow> cos \<Rightarrow> cos option" where
  "WriteStringMaybeAliased n str s = do {
     s \<leftarrow> WFL_WriteTag n WIRETYPE_LENGTH_DELIMITED s;
     if int (length str) \<le> INT_MAX
     then WriteVarint32 (of_nat (length str)) s \<bind> WriteRawMaybeAliased str
     else None
   }"

text \<open>
  The cached size that a nested message is written with is the one that \<open>ByteSizeLong\<close> of
  the enclosing message computed just before; the writers take it as \<open>cached\<close>.
\<close>

definition WriteMessageMaybeToArray ::
    "(target \<Rightarrow> target option) \<Rightarrow> (cos \<Rightarrow> cos option) \<Rightarrow> nat \<Rightarrow> uint32 \<Rightarrow> cos \<Rightarrow> cos option" where
  "WriteMessageMaybeToArray to_array serialize cached n s = do {
     s \<leftarrow> WFL_WriteTag n WIRETYPE_LENGTH_DELIMITED s;
     s \<leftarrow> WriteVarint32 (of_nat cached) s;
     (case GetDirectBufferForNBytes cached s of
        Some t \<Rightarrow> direct to_array s
      | None \<Rightarrow> serialize s)
   }"

definition WFL_WriteTagToArray :: "uint32 \<Rightarrow> WireType \<Rightarrow> target \<Rightarrow> target option" where
  "WFL_WriteTagToArray n t = WriteTagToArray (MakeTag n t)"

definition WriteInt32ToArray :: "uint32 \<Rightarrow> int32 \<Rightarrow> target \<Rightarrow> target option" where
  "WriteInt32ToArray n v t = WFL_WriteTagToArray n WIRETYPE_VARINT t \<bind> WriteVarint32SignExtendedToArray v"

definition WriteInt64ToArray :: "uint32 \<Rightarrow> uint64 \<Rightarrow> target \<Rightarrow> target option" where
  "WriteInt64ToArray n v t = WFL_WriteTagToArray n WIRETYPE_VARINT t \<bind> WriteVarint64ToArray v"

definition WriteFixed32ToArray :: "uint32 \<Rightarrow> uint32 \<Rightarrow> target \<Rightarrow> target option" where
  "WriteFixed32ToArray n v t = WFL_WriteTagToArray n WIRETYPE_FIXED32 t \<bind> WriteLittleEndian32ToArray v"

definition WriteFixed64ToArray :: "uint32 \<Rightarrow> uint64 \<Rightarrow> target \<Rightarrow> target option" where
  "WriteFixed64ToArray n v t = WFL_WriteTagToArray n WIRETYPE_FIXED64 t \<bind> WriteLittleEndian64ToArray v"

definition WriteFloatToArray :: "uint32 \<Rightarrow> float32 \<Rightarrow> target \<Rightarrow> target option" where
  "WriteFloatToArray n v t = WFL_WriteTagToArray n WIRETYPE_FIXED32 t \<bind> WriteLittleEndian32ToArray v"

definition WriteBoolToArray :: "uint32 \<Rightarrow> bool \<Rightarrow> target \<Rightarrow> target option" where
  "WriteBoolToArray n v t =
     WFL_WriteTagToArray n WIRETYPE_VARINT t \<bind> WriteVarint32ToArray (if v then 1 else 0)"

definition WriteEnumToArray :: "uint32 \<Rightarrow> int32 \<Rightarrow> target \<Rightarrow> target option" where
  "WriteEnumToArray n v t = WFL_WriteTagToArray n WIRETYPE_VARINT t \<bind> WriteVarint32SignExtendedToArray v"

definition WFL_WriteStringToArray :: "uint32 \<Rightarrow> bytes \<Rightarrow> target \<Rightarrow> target option" where
  "WFL_WriteStringToArray n str t =
     WFL_WriteTagToArray n WIRETYPE_LENGTH_DELIMITED t \<bind> WriteStringWithSizeToArray str"

definition WriteBytesToArray :: "uint32 \<Rightarrow> bytes \<Rightarrow> target \<Rightarrow> target option" where
  "WriteBytesToArray n str t =
     WFL_WriteTagToArray n WIRETYPE_LENGTH_DELIMITED t \<bind> WriteStringWithSizeToArray str"

definition InternalWriteMessageToArray ::
    "(target \<Rightarrow> target option) \<Rightarrow> nat \<Rightarrow> uint32 \<Rightarrow> target \<Rightarrow> target option" where
  "InternalWriteMessageToArray to_array cached n t =
     WFL_WriteTagToArray n WIRETYPE_LENGTH_DELIMITED t \<bind> WriteVarint32ToArray (of_nat cached) \<bind> to_array"

section \<open>Sizes\<close>

definition Int32Size :: "int32 \<Rightarrow> nat" where
  "Int32Size v = VarintSize32SignExtended v"

definition EnumSize :: "int32 \<Rightarrow> nat" where
  "EnumSize v = VarintSize32SignExtended v"

definition LengthDelimitedSize :: "nat \<Rightarrow> nat" where
  "LengthDelimitedSize len = len + VarintSize32 (of_nat len)"

definition StringSize :: "bytes \<Rightarrow> nat" where
  "StringSize str = LengthDelimitedSize (length str)"

definition MessageSize :: "nat \<Rightarrow> nat" where
  "MessageSize byte_size = LengthDelimitedSize byte_size"

section \<open>Unknown fields\<close>

datatype UnknownField =
    TYPE_VARINT uint32 uint64
  | TYPE_FIXED32 uint32 uint32
  | TYPE_FIXED64 uint32 uint64
  | TYPE_LENGTH_DELIMITED uint32 bytes
  | TYPE_GROUP uint32 "UnknownField list"

type_synonym UnknownFieldSet = "UnknownField list"

text \<open>
  \<open>SkipField\<close> and \<open>SkipMessage\<close> call each other; \<open>SkipField_with\<close> takes the latter as
  \<open>skip\<close>.  A field that cannot be read to its end leaves what was read of it in the set.
\<close>

definition SkipField_with ::
    "(UnknownFieldSet \<Rightarrow> cis \<Rightarrow> UnknownFieldSet result) \<Rightarrow> uint32 \<Rightarrow> UnknownFieldSet \<Rightarrow> cis
     \<Rightarrow> UnknownFieldSet result" where
  "SkipField_with skip tag uf s =
     (let number = GetTagFieldNumber tag in
      if number = 0 then Some (False, uf, s)
      else case GetTagWireType tag of
        Some WIRETYPE_VARINT \<Rightarrow> (case ReadVarint64 s of
            (None, s1) \<Rightarrow> Some (False, uf, s1)
          | (Some v, s1) \<Rightarrow> Some (True, uf @ [TYPE_VARINT number v], s1))
      | Some WIRETYPE_FIXED64 \<Rightarrow> (case ReadLittleEndian64 s of
            (None, s1) \<Rightarrow> Some (False, uf, s1)
          | (Some v, s1) \<Rightarrow> Some (True, uf @ [TYPE_FIXED64 number v], s1))
      | Some WIRETYPE_LENGTH_DELIMITED \<Rightarrow> (case ReadVarint32 s of
            (None, s1) \<Rightarrow> Some (False, uf, s1)
          | (Some len, s1) \<Rightarrow> (case ReadString [] (sint len) s1 of
              (ok, str, s2) \<Rightarrow> Some (ok, uf @ [TYPE_LENGTH_DELIMITED number str], s2)))
      | Some WIRETYPE_START_GROUP \<Rightarrow>
          let (ok, s1) = IncrementRecursionDepth s
          in if \<not> ok then Some (False, uf, s1)
             else do {
               (ok, group, s2) \<leftarrow> skip [] s1;
               if \<not> ok then Some (False, uf @ [TYPE_GROUP number group], s2)
               else let s3 = DecrementRecursionDepth s2
                    in Some (LastTagWas (MakeTag number WIRETYPE_END_GROUP) s3,
                             uf @ [TYPE_GROUP number group], s3)
             }
      | Some WIRETYPE_FIXED32 \<Rightarrow> (case ReadLittleEndian32 s of
            (None, s1) \<Rightarrow> Some (False, uf, s1)
          | (Some v, s1) \<Rightarrow> Some (True, uf @ [TYPE_FIXED32 number v], s1))
      | _ \<Rightarrow> Some (False, uf, s))"

lemma SkipField_with_mono [partial_function_mono]:
  "mono_option (\<lambda>f. SkipField_with (\<lambda>uf s. f (uf, s)) tag uf s)"
proof (cases "GetTagFieldNumber tag \<noteq> 0 \<and> GetTagWireType tag = Some WIRETYPE_START_GROUP")
  case True
  then show ?thesis
    by (cases "IncrementRecursionDepth s") (auto simp: SkipField_with_def intro!: partial_function_mono)
next
  case False
  then have "SkipField_with f tag uf s = SkipField_with g tag uf s" for f g
    by (cases "GetTagWireType tag"; cases "the (GetTagWireType tag)") (auto simp: SkipField_with_def Let_def)
  then have "(\<lambda>f. SkipField_with (\<lambda>uf s. f (uf, s)) tag uf s) =
      (\<lambda>_. SkipField_with (\<lambda>_ _. None) tag uf s)" by (intro ext)
  then show ?thesis by (simp only: option.const_mono)
qed

partial_function (option) SkipMessage :: "UnknownFieldSet \<Rightarrow> cis \<Rightarrow> UnknownFieldSet result" where
  "SkipMessage uf s =
     (let (tag, s1) = ReadTag s in
      if tag = 0 then Some (True, uf, s1)
      else if GetTagWireType tag = Some WIRETYPE_END_GROUP then Some (True, uf, s1)
      else do {
        (ok, uf', s2) \<leftarrow> SkipField_with (\<lambda>uf s. SkipMessage uf s) tag uf s1;
        if \<not> ok then Some (False, uf', s2) else SkipMessage uf' s2
      })"

definition SkipField :: "uint32 \<Rightarrow> UnknownFieldSet \<Rightarrow> cis \<Rightarrow> UnknownFieldSet result" where
  "SkipField tag uf s = SkipField_with SkipMessage tag uf s"

fun SerializeUnknownFields :: "UnknownFieldSet \<Rightarrow> cos \<Rightarrow> cos option" where
  "SerializeUnknownFields [] s = Some s"
| "SerializeUnknownFields (TYPE_VARINT n v # fs) s =
     (WriteVarint32 (MakeTag n WIRETYPE_VARINT) s \<bind> WriteVarint64 v) \<bind> SerializeUnknownFields fs"
| "SerializeUnknownFields (TYPE_FIXED32 n v # fs) s =
     (WriteVarint32 (MakeTag n WIRETYPE_FIXED32) s \<bind> WriteLittleEndian32 v) \<bind> SerializeUnknownFields fs"
| "SerializeUnknownFields (TYPE_FIXED64 n v # fs) s =
     (WriteVarint32 (MakeTag n WIRETYPE_FIXED64) s \<bind> WriteLittleEndian64 v) \<bind> SerializeUnknownFields fs"
| "SerializeUnknownFields (TYPE_LENGTH_DELIMITED n str # fs) s =
     (WriteVarint32 (MakeTag n WIRETYPE_LENGTH_DELIMITED) s \<bind> WriteVarint32 (of_nat (length str))
        \<bind> WriteRawMaybeAliased str) \<bind> SerializeUnknownFields fs"
| "SerializeUnknownFields (TYPE_GROUP n g # fs) s =
     (WriteVarint32 (MakeTag n WIRETYPE_START_GROUP) s \<bind> SerializeUnknownFields g
        \<bind> WriteVarint32 (MakeTag n WIRETYPE_END_GROUP)) \<bind> SerializeUnknownFields fs"

fun SerializeUnknownFieldsToArray :: "UnknownFieldSet \<Rightarrow> target \<Rightarrow> target option" where
  "SerializeUnknownFieldsToArray [] t = Some t"
| "SerializeUnknownFieldsToArray (TYPE_VARINT n v # fs) t =
     WriteInt64ToArray n v t \<bind> SerializeUnknownFieldsToArray fs"
| "SerializeUnknownFieldsToArray (TYPE_FIXED32 n v # fs) t =
     WriteFixed32ToArray n v t \<bind> SerializeUnknownFieldsToArray fs"
| "SerializeUnknownFieldsToArray (TYPE_FIXED64 n v # fs) t =
     WriteFixed64ToArray n v t \<bind> SerializeUnknownFieldsToArray fs"
| "SerializeUnknownFieldsToArray (TYPE_LENGTH_DELIMITED n str # fs) t =
     WriteBytesToArray n str t \<bind> SerializeUnknownFieldsToArray fs"
| "SerializeUnknownFieldsToArray (TYPE_GROUP n g # fs) t =
     (WFL_WriteTagToArray n WIRETYPE_START_GROUP t \<bind> SerializeUnknownFieldsToArray g
        \<bind> WFL_WriteTagToArray n WIRETYPE_END_GROUP) \<bind> SerializeUnknownFieldsToArray fs"

fun ComputeUnknownFieldsSize :: "UnknownFieldSet \<Rightarrow> nat" where
  "ComputeUnknownFieldsSize [] = 0"
| "ComputeUnknownFieldsSize (TYPE_VARINT n v # fs) =
     VarintSize32 (MakeTag n WIRETYPE_VARINT) + VarintSize64 v + ComputeUnknownFieldsSize fs"
| "ComputeUnknownFieldsSize (TYPE_FIXED32 n v # fs) =
     VarintSize32 (MakeTag n WIRETYPE_FIXED32) + 4 + ComputeUnknownFieldsSize fs"
| "ComputeUnknownFieldsSize (TYPE_FIXED64 n v # fs) =
     VarintSize32 (MakeTag n WIRETYPE_FIXED64) + 8 + ComputeUnknownFieldsSize fs"
| "ComputeUnknownFieldsSize (TYPE_LENGTH_DELIMITED n str # fs) =
     VarintSize32 (MakeTag n WIRETYPE_LENGTH_DELIMITED) + VarintSize32 (of_nat (length str))
       + length str + ComputeUnknownFieldsSize fs"
| "ComputeUnknownFieldsSize (TYPE_GROUP n g # fs) =
     VarintSize32 (MakeTag n WIRETYPE_START_GROUP) + ComputeUnknownFieldsSize g
       + VarintSize32 (MakeTag n WIRETYPE_END_GROUP) + ComputeUnknownFieldsSize fs"

section \<open>The bytes on the wire\<close>

abbreviation tag_bytes :: "uint32 \<Rightarrow> WireType \<Rightarrow> bytes" where
  "tag_bytes n t \<equiv> varint (unat (MakeTag n t))"

definition delimited :: "bytes \<Rightarrow> bytes" where
  "delimited str = varint (unat (of_nat (length str) :: uint32)) @ str"

fun unknown_bytes :: "UnknownFieldSet \<Rightarrow> bytes" where
  "unknown_bytes [] = []"
| "unknown_bytes (TYPE_VARINT n v # fs) = (tag_bytes n WIRETYPE_VARINT @ varint (unat v)) @ unknown_bytes fs"
| "unknown_bytes (TYPE_FIXED32 n v # fs) = (tag_bytes n WIRETYPE_FIXED32 @ le32 v) @ unknown_bytes fs"
| "unknown_bytes (TYPE_FIXED64 n v # fs) = (tag_bytes n WIRETYPE_FIXED64 @ le64 v) @ unknown_bytes fs"
| "unknown_bytes (TYPE_LENGTH_DELIMITED n str # fs) =
     (tag_bytes n WIRETYPE_LENGTH_DELIMITED @ delimited str) @ unknown_bytes fs"
| "unknown_bytes (TYPE_GROUP n g # fs) =
     ((tag_bytes n WIRETYPE_START_GROUP @ unknown_bytes g) @ tag_bytes n WIRETYPE_END_GROUP) @ unknown_bytes fs"

lemma writes_WFL_WriteTagToArray [writes_intro]: "writes (WFL_WriteTagToArray n t) (tag_bytes n t)"
  unfolding WFL_WriteTagToArray_def by (rule writes_WriteTagToArray)

lemma writes_WriteInt32ToArray [writes_intro]:
  "writes (WriteInt32ToArray n v) (tag_bytes n WIRETYPE_VARINT @ varint (unat (scast v :: uint64)))"
  unfolding WriteInt32ToArray_def [abs_def] by (intro writes_intro)

lemma writes_WriteInt64ToArray [writes_intro]:
  "writes (WriteInt64ToArray n v) (tag_bytes n WIRETYPE_VARINT @ varint (unat v))"
  unfolding WriteInt64ToArray_def [abs_def] by (intro writes_intro)

lemma writes_WriteFixed32ToArray [writes_intro]:
  "writes (WriteFixed32ToArray n v) (tag_bytes n WIRETYPE_FIXED32 @ le32 v)"
  unfolding WriteFixed32ToArray_def [abs_def] by (intro writes_intro)

lemma writes_WriteFixed64ToArray [writes_intro]:
  "writes (WriteFixed64ToArray n v) (tag_bytes n WIRETYPE_FIXED64 @ le64 v)"
  unfolding WriteFixed64ToArray_def [abs_def] by (intro writes_intro)

lemma writes_WriteFloatToArray [writes_intro]:
  "writes (WriteFloatToArray n v) (tag_bytes n WIRETYPE_FIXED32 @ le32 v)"
  unfolding WriteFloatToArray_def [abs_def] by (intro writes_intro)

lemma writes_WriteBoolToArray [writes_intro]:
  "writes (WriteBoolToArray n v) (tag_bytes n WIRETYPE_VARINT @ varint (unat (if v then 1 else 0 :: uint32)))"
  unfolding WriteBoolToArray_def [abs_def] by (intro writes_bind writes_intro)

lemma writes_WriteEnumToArray [writes_intro]:
  "writes (WriteEnumToArray n v) (tag_bytes n WIRETYPE_VARINT @ varint (unat (scast v :: uint64)))"
  unfolding WriteEnumToArray_def [abs_def] by (intro writes_intro)

lemma writes_WFL_WriteStringToArray [writes_intro]:
  "writes (WFL_WriteStringToArray n str) (tag_bytes n WIRETYPE_LENGTH_DELIMITED @ delimited str)"
  unfolding WFL_WriteStringToArray_def [abs_def] delimited_def by (intro writes_intro)

lemma writes_WriteBytesToArray [writes_intro]:
  "writes (WriteBytesToArray n str) (tag_bytes n WIRETYPE_LENGTH_DELIMITED @ delimited str)"
  unfolding WriteBytesToArray_def [abs_def] delimited_def by (intro writes_intro)

lemma writes_InternalWriteMessageToArray:
  assumes "writes f bs" and "cached = length bs"
  shows "writes (InternalWriteMessageToArray f cached n) (tag_bytes n WIRETYPE_LENGTH_DELIMITED @ delimited bs)"
  unfolding InternalWriteMessageToArray_def [abs_def] delimited_def append_assoc [symmetric] assms(2)
  by (intro writes_bind writes_intro assms(1))

lemma writes_SerializeUnknownFieldsToArray [writes_intro]:
  "writes (SerializeUnknownFieldsToArray fs) (unknown_bytes fs)"
  by (induction fs rule: unknown_bytes.induct)
    (simp_all only: SerializeUnknownFieldsToArray.simps [abs_def] unknown_bytes.simps, intro writes_intro; assumption?)+

lemma emits_WFL_WriteTag [emits_intro]: "emits (WFL_WriteTag n t) (tag_bytes n t)"
  unfolding WFL_WriteTag_def [abs_def] by (rule emits_WriteTag)

lemma emits_WriteInt32 [emits_intro]:
  "emits (WriteInt32 n v) (tag_bytes n WIRETYPE_VARINT @ varint (unat (scast v :: uint64)))"
  unfolding WriteInt32_def [abs_def] by (intro emits_intro)

lemma emits_WriteFloat [emits_intro]:
  "emits (WriteFloat n v) (tag_bytes n WIRETYPE_FIXED32 @ le32 v)"
  unfolding WriteFloat_def [abs_def] by (intro emits_intro)

lemma emits_WriteBool [emits_intro]:
  "emits (WriteBool n v) (tag_bytes n WIRETYPE_VARINT @ varint (unat (if v then 1 else 0 :: uint32)))"
  unfolding WriteBool_def [abs_def] by (intro emits_bind emits_intro)

lemma emits_WriteEnum [emits_intro]:
  "emits (WriteEnum n v) (tag_bytes n WIRETYPE_VARINT @ varint (unat (scast v :: uint64)))"
  unfolding WriteEnum_def [abs_def] by (intro emits_intro)

lemma emits_WriteStringMaybeAliased [emits_intro]:
  assumes "int (length str) \<le> INT_MAX"
  shows "emits (WriteStringMaybeAliased n str) (tag_bytes n WIRETYPE_LENGTH_DELIMITED @ delimited str)"
  using assms unfolding WriteStringMaybeAliased_def [abs_def] delimited_def
  by (intro emits_bind emits_intro) (simp add: emits_intro)

lemma emits_WriteMessageMaybeToArray:
  assumes f: "writes f bs" and g: "emits g bs" and c: "cached = length bs"
  shows "emits (WriteMessageMaybeToArray f g cached n) (tag_bytes n WIRETYPE_LENGTH_DELIMITED @ delimited bs)"
proof -
  have "emits (\<lambda>s. case GetDirectBufferForNBytes cached s of Some t \<Rightarrow> direct f s | None \<Rightarrow> g s) bs"
    unfolding emits_def
  proof (intro allI impI)
    fix s assume s: "cos_inv s"
    show "\<exists>s'. (case GetDirectBufferForNBytes cached s of Some t \<Rightarrow> direct f s | None \<Rightarrow> g s) = Some s'
        \<and> cos_inv s' \<and> contents s' = contents s @ bs"
      using direct_spec [OF f _ s] emitsE [OF g s] c
      by (cases "length (room s) < cached") (auto simp: GetDirectBufferForNBytes_def)
  qed
  then show ?thesis
    unfolding WriteMessageMaybeToArray_def [abs_def] delimited_def c
    by (intro emits_bind emits_intro)
qed

lemma emits_SerializeUnknownFields [emits_intro]:
  "emits (SerializeUnknownFields fs) (unknown_bytes fs)"
  by (induction fs rule: unknown_bytes.induct)
    (simp_all only: SerializeUnknownFields.simps [abs_def] unknown_bytes.simps delimited_def append_assoc [symmetric],
      intro emits_intro; assumption?)+

lemmas varint_size_simps = VarintSize32_eq VarintSize64_eq VarintSize32SignExtended_eq

lemma LengthDelimitedSize_eq [size_simps]: "LengthDelimitedSize (length str) = length (delimited str)"
  by (simp add: LengthDelimitedSize_def delimited_def varint_size_simps)

lemma StringSize_eq [size_simps]: "StringSize str = length (delimited str)"
  by (simp add: StringSize_def LengthDelimitedSize_eq)

lemma Int32Size_eq [size_simps]: "Int32Size v = length (varint (unat (scast v :: uint64)))"
  by (simp add: Int32Size_def varint_size_simps)

lemma EnumSize_eq [size_simps]: "EnumSize v = length (varint (unat (scast v :: uint64)))"
  by (simp add: EnumSize_def varint_size_simps)

lemma ComputeUnknownFieldsSize_eq [size_simps]:
  "ComputeUnknownFieldsSize fs = length (unknown_bytes fs)"
  by (induction fs rule: unknown_bytes.induct) (simp_all add: varint_size_simps delimited_def)

section \<open>Skipping always returns and stays in the buffer\<close>

lemma get_word_suffix: "get_word p = Some (v, r) \<Longrightarrow> \<exists>n. 0 < n \<and> r = drop n p \<and> length r < length p"
  using get_varint_suffix [of 10 p] get_varint_less [of 10 p] by (fastforce simp: get_word_def)

lemma get_size_suffix: "get_size p = Some (v, r) \<Longrightarrow> 0 \<le> v \<and> v \<le> INT_MAX \<and> (\<exists>n. 0 < n \<and> r = drop n p \<and> length r < length p)"
  using get_word_suffix [of p] by (auto simp: get_size_def split: option.splits if_splits)

definition shrinks :: "(bytes \<Rightarrow> ('a \<times> bytes) option) \<Rightarrow> bool" where
  "shrinks f \<longleftrightarrow> (\<forall>p v r. f p = Some (v, r) \<longrightarrow> (\<exists>n. r = drop n p))"

lemma shrinks_get:
  "shrinks (get_word :: bytes \<Rightarrow> ('a::len word \<times> bytes) option)" "shrinks get_size" "shrinks get_le32" "shrinks get_le64"
  using get_word_suffix get_size_suffix
  by (auto simp: shrinks_def get_le32_def get_le64_def split: if_splits) blast+

text \<open>A reader for a total parser, for the safety proofs.\<close>

lemma reads_moved:
  assumes "reads R f" and "shrinks f" and "flat s"
  obtains v s' where "R s = (v, s')" and "moved s s'"
proof (cases "f (buffer s)")
  case None
  from readsE_None [OF assms(1,3) None] that show ?thesis by (metis moved_drop)
next
  case (Some x)
  obtain v r where x: "f (buffer s) = Some (v, r)" using Some by (cases x) simp
  moreover obtain n where "r = drop n (buffer s)" using assms(2) x unfolding shrinks_def by blast
  ultimately show ?thesis using readsD_Some [OF assms(1,3) x] that moved_drop by blast
qed

lemmas ReadVarint64_moved = reads_moved [OF reads_ReadVarint64 shrinks_get(1)]
lemmas ReadVarint32_moved = reads_moved [OF reads_ReadVarint32 shrinks_get(1)]
lemmas ReadVarintSizeAsInt_moved = reads_moved [OF reads_ReadVarintSizeAsInt shrinks_get(2)]
lemmas ReadLittleEndian32_moved = reads_moved [OF reads_ReadLittleEndian32 shrinks_get(3)]
lemmas ReadLittleEndian64_moved = reads_moved [OF reads_ReadLittleEndian64 shrinks_get(4)]

lemma ReadString_moved:
  assumes "flat s" obtains ok str' s' where "ReadString str n s = (ok, str', s')" and "moved s s'"
proof -
  have "moved s (s\<lparr>buffer := []\<rparr>)" using moved_drop [of s "length (buffer s)"] by simp
  then have "moved s (snd (snd (ReadString str n s)))" by (simp add: ReadString_flat [OF assms])
  then show ?thesis using that by (metis prod.collapse)
qed

definition budget_ok :: "cis \<Rightarrow> bool" where
  "budget_ok s \<longleftrightarrow> recursion_budget s \<le> recursion_limit s"

lemma moved_budget_ok: "moved s s' \<Longrightarrow> budget_ok s' = budget_ok s"
  by (simp add: budget_ok_def moved_fields)

text \<open>
  \<open>returns s r\<close>: a reader that started in \<open>s\<close> came back, the stream is still inside its
  array, and after a success it has only moved forward.
\<close>

definition returns :: "cis \<Rightarrow> 'm result \<Rightarrow> bool" where
  "returns s r \<longleftrightarrow> (\<exists>ok m s'. r = Some (ok, m, s') \<and> flat s' \<and> (ok \<longrightarrow> moved s s'))"

lemma returns_moved: "flat s \<Longrightarrow> moved s s' \<Longrightarrow> returns s (Some (ok, m, s'))"
  by (auto simp: returns_def intro: moved_flat)

lemma returns_fail: "flat s' \<Longrightarrow> returns s (Some (False, m, s'))"
  by (auto simp: returns_def)

lemma returns_trans: "moved s t \<Longrightarrow> returns t r \<Longrightarrow> returns s r"
  by (auto simp: returns_def intro: moved_trans)

lemma group_budget:
  assumes "budget_ok s" and "moved (s\<lparr>recursion_budget := recursion_budget s - 1\<rparr>) t"
  shows "moved s (DecrementRecursionDepth t)"
  using assms by (cases s; cases t) (auto simp: moved_def DecrementRecursionDepth_def budget_ok_def)

lemma SkipField_with_returns:
  assumes s: "flat s" and b: "budget_ok s"
    and skip: "\<And>uf t. flat t \<Longrightarrow> budget_ok t \<Longrightarrow> buffer t = buffer s \<Longrightarrow> returns t (skip uf t)"
  shows "returns s (SkipField_with skip tag uf s)"
proof (cases "GetTagFieldNumber tag = 0 \<or> GetTagWireType tag = None")
  case True
  then show ?thesis using s by (auto simp: SkipField_with_def Let_def intro: returns_fail)
next
  case False
  then obtain w where w: "GetTagFieldNumber tag \<noteq> 0" "GetTagWireType tag = Some w" by auto
  show ?thesis
  proof (cases w)
    case WIRETYPE_VARINT
    obtain v s' where "ReadVarint64 s = (v, s')" "moved s s'" by (rule ReadVarint64_moved [OF s])
    then show ?thesis using w WIRETYPE_VARINT s
      by (cases v) (simp_all add: SkipField_with_def returns_moved)
  next
    case WIRETYPE_FIXED64
    obtain v s' where "ReadLittleEndian64 s = (v, s')" "moved s s'" by (rule ReadLittleEndian64_moved [OF s])
    then show ?thesis using w WIRETYPE_FIXED64 s
      by (cases v) (simp_all add: SkipField_with_def returns_moved)
  next
    case WIRETYPE_FIXED32
    obtain v s' where "ReadLittleEndian32 s = (v, s')" "moved s s'" by (rule ReadLittleEndian32_moved [OF s])
    then show ?thesis using w WIRETYPE_FIXED32 s
      by (cases v) (simp_all add: SkipField_with_def returns_moved)
  next
    case WIRETYPE_LENGTH_DELIMITED
    obtain v s' where v: "ReadVarint32 s = (v, s')" "moved s s'" by (rule ReadVarint32_moved [OF s])
    obtain ok str s'' where "ReadString [] (sint (the v)) s' = (ok, str, s'')" "moved s' s''"
      by (rule ReadString_moved [OF moved_flat [OF v(2) s]])
    with v show ?thesis using w WIRETYPE_LENGTH_DELIMITED s
      by (cases v) (auto simp: SkipField_with_def intro: returns_moved moved_trans)
  next
    case WIRETYPE_START_GROUP
    let ?t = "s\<lparr>recursion_budget := recursion_budget s - 1\<rparr>"
    have t: "flat ?t" "budget_ok ?t" using s b by (auto simp: budget_ok_def)
    then obtain ok g s' where r: "skip [] ?t = Some (ok, g, s')" "flat s'" "ok \<longrightarrow> moved ?t s'"
      using skip [of ?t "[]"] by (auto simp: returns_def)
    show ?thesis using w WIRETYPE_START_GROUP s t r group_budget [OF b]
      by (auto simp: SkipField_with_def IncrementRecursionDepth_def Let_def
          intro!: returns_moved returns_fail)
  next
    case WIRETYPE_END_GROUP
    then show ?thesis using w s by (simp add: SkipField_with_def returns_fail)
  qed
qed

lemma ReadTag_moved:
  assumes "flat s" obtains t s' where "ReadTag s = (t, s')" and "moved s s'"
    and "t \<noteq> 0 \<longrightarrow> length (buffer s') < length (buffer s)"
proof (cases "buffer s = []")
  case True
  then show ?thesis using ReadTag_end [OF assms] that [of 0] by simp
next
  case False
  show ?thesis
  proof (cases "get_word (buffer s) :: (uint32 \<times> bytes) option")
    case None
    then show ?thesis using ReadTag_flat [OF assms False] that [of 0] by auto
  next
    case (Some x)
    then obtain v r n where x: "get_word (buffer s) = Some (v :: uint32, r)" "r = drop n (buffer s)" "length r < length (buffer s)"
      using get_word_suffix by (cases x) blast
    then have "ReadTag s = (v, s\<lparr>buffer := r, last_tag := v\<rparr>)" using ReadTag_flat [OF assms False] by simp
    then show ?thesis using x(2,3) that by simp
  qed
qed

lemma SkipMessage_returns: "flat s \<Longrightarrow> budget_ok s \<Longrightarrow> returns s (SkipMessage uf s)"
proof (induction "length (buffer s)" arbitrary: s uf rule: less_induct)
  case less
  obtain t s1 where t: "ReadTag s = (t, s1)" "moved s s1" "t \<noteq> 0 \<longrightarrow> length (buffer s1) < length (buffer s)"
    by (rule ReadTag_moved [OF less.prems(1)])
  have s1: "flat s1" "budget_ok s1" using t(2) less.prems moved_flat moved_budget_ok by blast+
  show ?case
  proof (cases "t = 0 \<or> GetTagWireType t = Some WIRETYPE_END_GROUP")
    case True
    then show ?thesis using less.prems(1) t by (subst SkipMessage.simps) (auto intro: returns_moved)
  next
    case False
    then have "returns s1 (SkipField_with SkipMessage t uf s1)"
      using less.hyps t(3) by (intro SkipField_with_returns s1) simp
    then obtain ok uf' s2 where r: "SkipField_with SkipMessage t uf s1 = Some (ok, uf', s2)"
      "flat s2" "ok \<longrightarrow> moved s1 s2" by (auto simp: returns_def)
    show ?thesis
    proof (cases ok)
      case True
      then have m: "moved s1 s2" using r(3) by simp
      then have "length (buffer s2) < length (buffer s)" "budget_ok s2"
        using t(3) False moved_fields(10) s1(2) moved_budget_ok by (fastforce, blast)
      then have "returns s2 (SkipMessage uf' s2)" using less.hyps r(2) by blast
      then have "returns s (SkipMessage uf' s2)" using m t(2) by (blast intro: returns_trans moved_trans)
      then show ?thesis using False t r True by (subst SkipMessage.simps) simp
    next
      case False': False
      then show ?thesis using False t r by (subst SkipMessage.simps) (simp add: returns_fail)
    qed
  qed
qed

lemma SkipField_returns: "flat s \<Longrightarrow> budget_ok s \<Longrightarrow> returns s (SkipField tag uf s)"
  unfolding SkipField_def by (intro SkipField_with_returns SkipMessage_returns)

section \<open>Readers on the bytes of the writers\<close>

lemma get_varint_10: "n < 2 ^ 64 \<Longrightarrow> get_varint 10 (varint n @ p) = Some (n, p)"
  by (rule get_varint_varint) simp_all

lemma get_word_varint_64 [read_simps]: "get_word (varint (unat (v :: uint64)) @ p) = Some (v, p)"
  using get_varint_10 [of "unat v" p] unsigned_less [of v, where ?'a = nat] by (simp add: get_word_def)

lemma get_word_varint_32 [read_simps]: "get_word (varint (unat (v :: uint32)) @ p) = Some (v, p)"
proof -
  have "unat v < 2 ^ 32" using unsigned_less [of v, where ?'a = nat] by simp
  then have "unat v < 2 ^ 64" by simp
  then show ?thesis using get_varint_10 [of "unat v" p] by (simp add: get_word_def)
qed

lemma get_word_sign_extended [read_simps]:
  "get_word (varint (unat (scast (v :: int32) :: uint64)) @ p) = Some (v, p)"
proof -
  have last: "n = 31" if "n < 32" "31 \<le> n" for n :: nat using that by linarith
  have "(ucast (scast v :: uint64) :: uint32) = v"
    by (rule bit_word_eqI) (auto simp: bit_ucast_iff bit_signed_iff min_def dest: last)
  then show ?thesis by (simp add: get_word_32 get_word_varint_64)
qed

lemma get_word_bool [read_simps]:
  "get_word (varint (unat (if b then 1 else 0 :: uint32)) @ p) = Some (if b then 1 else 0 :: uint64, p)"
  using get_varint_10 [of 1 p] get_varint_10 [of 0 p] by (simp add: get_word_def)

lemma get_size_varint [read_simps]: "int n \<le> INT_MAX \<Longrightarrow> get_size (varint n @ p) = Some (int n, p)"
proof -
  assume n: "int n \<le> INT_MAX"
  then have "uint (of_nat n :: uint64) = int n"
    by (simp add: unsigned_of_nat take_bit_nat_eq_self)
  then show ?thesis using n get_varint_10 [of n p] by (simp add: get_size_def get_word_def)
qed

lemma get_le32_le32 [read_simps]: "get_le32 (le32 v @ p) = Some (v, p)"
  by (simp add: get_le32_def ReadLittleEndian32FromArray_le32)

lemma get_le64_le64 [read_simps]: "get_le64 (le64 v @ p) = Some (v, p)"
  by (simp add: get_le64_def ReadLittleEndian64FromArray_le64)

lemma unat_length_32: "int (length str) \<le> INT_MAX \<Longrightarrow> unat (of_nat (length str) :: uint32) = length str"
  by (simp add: unsigned_of_nat take_bit_nat_eq_self)

lemma sint_length_32:
  assumes "int (length str) \<le> INT_MAX" shows "sint (of_nat (length str) :: uint32) = int (length str)"
proof -
  have u: "uint (of_nat (length str) :: uint32) = int (length str)"
    using assms by (simp add: unsigned_of_nat take_bit_nat_eq_self)
  have "sint (of_nat (length str) :: uint32) = (int (length str) + 2 ^ 31) mod 2 ^ 32 - 2 ^ 31"
    by (simp add: sint_uint u signed_take_bit_eq_take_bit_shift take_bit_eq_mod)
  then show ?thesis using assms by simp
qed

lemma delimited_eq: "int (length str) \<le> INT_MAX \<Longrightarrow> delimited str = varint (length str) @ str"
  by (simp add: delimited_def unat_length_32)

lemma ReadBytesToString_delimited:
  assumes s: "flat s" and b: "buffer s = delimited str @ p" and l: "int (length str) \<le> INT_MAX"
  shows "ReadBytesToString old s = (True, str, s\<lparr>buffer := p\<rparr>)"
proof -
  have "get_word (buffer s) = Some (of_nat (length str) :: uint32, str @ p)"
    using get_word_varint_32 [of "of_nat (length str)" "str @ p"] by (simp add: b delimited_def)
  then have "ReadVarint32 s = (Some (of_nat (length str)), s\<lparr>buffer := str @ p\<rparr>)"
    using readsD_Some [OF reads_ReadVarint32 s] by blast
  moreover have "flat (s\<lparr>buffer := str @ p\<rparr>)"
    using flat_drop [OF s, of "length (varint (unat (of_nat (length str) :: uint32)))"] by (simp add: b delimited_def)
  ultimately show ?thesis
    by (simp add: ReadBytesToString_def ReadString_flat sint_length_32 [OF l])
qed

lemma ReadTag_bytes:
  assumes s: "flat s" and b: "buffer s = varint (unat t) @ p"
  shows "ReadTag s = (t, s\<lparr>buffer := p, last_tag := t\<rparr>)"
  using ReadTag_flat [OF s] by (simp add: b get_word_varint_32)

lemma take_bit_wire_code: "take_bit 3 (wire_code t) = wire_code t" and drop_bit_wire_code: "drop_bit 3 (wire_code t) = 0"
  by (cases t; simp)+

lemma GetTagWireType_MakeTag [simp]: "GetTagWireType (MakeTag n t) = Some t"
proof -
  have "MakeTag n t AND 7 = take_bit 3 (MakeTag n t)"
    by (simp add: take_bit_eq_mask mask_eq_exp_minus_1)
  also have "\<dots> = take_bit 3 (push_bit 3 n) OR take_bit 3 (wire_code t)"
    by (simp add: MakeTag_def)
  also have "take_bit 3 (push_bit 3 n) = 0" by (simp add: take_bit_push_bit)
  finally have "MakeTag n t AND 7 = wire_code t" by (simp add: take_bit_wire_code)
  then show ?thesis by (cases t) (simp_all add: GetTagWireType_def)
qed

lemma GetTagFieldNumber_MakeTag:
  assumes "unat n < 2 ^ 29" shows "GetTagFieldNumber (MakeTag n t) = n"
proof -
  have "GetTagFieldNumber (MakeTag n t) = drop_bit 3 (push_bit 3 n) OR drop_bit 3 (wire_code t)"
    by (simp add: MakeTag_def GetTagFieldNumber_def)
  also have "drop_bit 3 (push_bit 3 n) = n"
  proof (rule bit_word_eqI)
    fix k assume "k < LENGTH(32)"
    have "\<not> bit (unat n) k" if "29 \<le> k"
    proof -
      have "unat n < 2 ^ k" by (rule less_le_trans [OF assms power_increasing [OF that]]) simp
      then show ?thesis by (simp add: bit_iff_odd)
    qed
    then show "bit (drop_bit 3 (push_bit 3 n)) k = bit n k"
      by (cases "29 \<le> k") (auto simp: bit_drop_bit_eq bit_push_bit_iff bit_unsigned_iff)
  qed
  finally show ?thesis by (simp add: drop_bit_wire_code)
qed

lemma MakeTag_nonzero: "unat n < 2 ^ 29 \<Longrightarrow> n \<noteq> 0 \<Longrightarrow> MakeTag n t \<noteq> 0"
  using GetTagFieldNumber_MakeTag [of n t] by (auto simp: GetTagFieldNumber_def)

section \<open>Unknown fields survive a round trip\<close>

definition number_ok :: "uint32 \<Rightarrow> bool" where
  "number_ok n \<longleftrightarrow> n \<noteq> 0 \<and> unat n < 2 ^ 29"

text \<open>Legal field numbers, lengths that are an \<open>int\<close>, groups nested at most \<open>d\<close> deep.\<close>

fun unknown_ok :: "nat \<Rightarrow> UnknownFieldSet \<Rightarrow> bool" where
  "unknown_ok d [] = True"
| "unknown_ok d (TYPE_VARINT n v # fs) = (number_ok n \<and> unknown_ok d fs)"
| "unknown_ok d (TYPE_FIXED32 n v # fs) = (number_ok n \<and> unknown_ok d fs)"
| "unknown_ok d (TYPE_FIXED64 n v # fs) = (number_ok n \<and> unknown_ok d fs)"
| "unknown_ok d (TYPE_LENGTH_DELIMITED n str # fs) =
     (number_ok n \<and> int (length str) \<le> INT_MAX \<and> unknown_ok d fs)"
| "unknown_ok d (TYPE_GROUP n g # fs) = (number_ok n \<and> 0 < d \<and> unknown_ok (d - 1) g \<and> unknown_ok d fs)"

fun field_tag :: "UnknownField \<Rightarrow> uint32" where
  "field_tag (TYPE_VARINT n v) = MakeTag n WIRETYPE_VARINT"
| "field_tag (TYPE_FIXED32 n v) = MakeTag n WIRETYPE_FIXED32"
| "field_tag (TYPE_FIXED64 n v) = MakeTag n WIRETYPE_FIXED64"
| "field_tag (TYPE_LENGTH_DELIMITED n str) = MakeTag n WIRETYPE_LENGTH_DELIMITED"
| "field_tag (TYPE_GROUP n g) = MakeTag n WIRETYPE_START_GROUP"

fun field_payload :: "UnknownField \<Rightarrow> bytes" where
  "field_payload (TYPE_VARINT n v) = varint (unat v)"
| "field_payload (TYPE_FIXED32 n v) = le32 v"
| "field_payload (TYPE_FIXED64 n v) = le64 v"
| "field_payload (TYPE_LENGTH_DELIMITED n str) = delimited str"
| "field_payload (TYPE_GROUP n g) = unknown_bytes g @ tag_bytes n WIRETYPE_END_GROUP"

lemma unknown_bytes_Cons: "unknown_bytes (f # fs) = varint (unat (field_tag f)) @ field_payload f @ unknown_bytes fs"
  by (cases f) simp_all

lemma unknown_ok_Cons: "unknown_ok d (f # fs) \<longleftrightarrow> unknown_ok d [f] \<and> unknown_ok d fs"
  by (cases f) auto

lemma number_ok_simps:
  assumes "number_ok n"
  shows "GetTagFieldNumber (MakeTag n t) = n" and "n \<noteq> 0" and "MakeTag n t \<noteq> 0"
  using assms GetTagFieldNumber_MakeTag MakeTag_nonzero by (auto simp: number_ok_def)

lemma field_tag_ok:
  assumes "unknown_ok d [f]"
  shows "field_tag f \<noteq> 0" and "GetTagWireType (field_tag f) \<noteq> Some WIRETYPE_END_GROUP"
  using assms by (cases f; auto simp: number_ok_simps)+

text \<open>\<open>skip\<close> reads a group that is closed by the end tag of field \<open>n\<close>.\<close>

definition reads_group :: "(UnknownFieldSet \<Rightarrow> cis \<Rightarrow> UnknownFieldSet result) \<Rightarrow> nat \<Rightarrow> UnknownFieldSet \<Rightarrow> bool" where
  "reads_group skip d g \<longleftrightarrow> (\<forall>uf s n p. flat s \<longrightarrow> budget_ok s \<longrightarrow> int d \<le> recursion_budget s \<longrightarrow>
     buffer s = unknown_bytes g @ tag_bytes n WIRETYPE_END_GROUP @ p \<longrightarrow> number_ok n \<longrightarrow>
     (\<exists>s'. skip uf s = Some (True, uf @ g, s') \<and> moved s s' \<and> buffer s' = p
        \<and> last_tag s' = MakeTag n WIRETYPE_END_GROUP))"

lemma flat_suffix: "flat s \<Longrightarrow> buffer s = q @ p \<Longrightarrow> flat (s\<lparr>buffer := p\<rparr>) \<and> moved s (s\<lparr>buffer := p\<rparr>)"
  using flat_drop [of s "length q"] moved_drop [of s "length q"] by simp

lemma SkipField_with_reads:
  assumes s: "flat s" and b: "budget_ok s" and d: "int d \<le> recursion_budget s"
    and buf: "buffer s = field_payload f @ p" and ok: "unknown_ok d [f]"
    and group: "\<And>n g. f = TYPE_GROUP n g \<Longrightarrow> reads_group skip (d - 1) g"
  shows "\<exists>s'. SkipField_with skip (field_tag f) uf s = Some (True, uf @ [f], s') \<and> moved s s' \<and> buffer s' = p"
proof (cases f)
  case (TYPE_VARINT n v)
  then have "ReadVarint64 s = (Some v, s\<lparr>buffer := p\<rparr>)"
    using readsD_Some [OF reads_ReadVarint64 s] buf by (simp add: read_simps)
  then show ?thesis using TYPE_VARINT ok flat_suffix [OF s buf]
    by (simp add: SkipField_with_def number_ok_simps)
next
  case (TYPE_FIXED32 n v)
  then have "ReadLittleEndian32 s = (Some v, s\<lparr>buffer := p\<rparr>)"
    using readsD_Some [OF reads_ReadLittleEndian32 s] buf by (simp add: read_simps)
  then show ?thesis using TYPE_FIXED32 ok flat_suffix [OF s buf]
    by (simp add: SkipField_with_def number_ok_simps)
next
  case (TYPE_FIXED64 n v)
  then have "ReadLittleEndian64 s = (Some v, s\<lparr>buffer := p\<rparr>)"
    using readsD_Some [OF reads_ReadLittleEndian64 s] buf by (simp add: read_simps)
  then show ?thesis using TYPE_FIXED64 ok flat_suffix [OF s buf]
    by (simp add: SkipField_with_def number_ok_simps)
next
  case (TYPE_LENGTH_DELIMITED n str)
  then have "ReadBytesToString [] s = (True, str, s\<lparr>buffer := p\<rparr>)"
    using ReadBytesToString_delimited [OF s] buf ok by simp
  then show ?thesis using TYPE_LENGTH_DELIMITED ok flat_suffix [OF s buf]
    by (auto simp: SkipField_with_def number_ok_simps ReadBytesToString_def split: option.splits prod.splits)
next
  case (TYPE_GROUP n g)
  let ?t = "s\<lparr>recursion_budget := recursion_budget s - 1\<rparr>"
  have n: "number_ok n" and d0: "0 < d" using ok TYPE_GROUP by auto
  have "flat ?t" "budget_ok ?t" "int (d - 1) \<le> recursion_budget ?t" "0 \<le> recursion_budget s - 1"
    using s b d d0 by (auto simp: budget_ok_def)
  moreover have "buffer ?t = unknown_bytes g @ tag_bytes n WIRETYPE_END_GROUP @ p"
    using buf TYPE_GROUP by simp
  ultimately obtain s' where s': "skip [] ?t = Some (True, g, s')" "moved ?t s'" "buffer s' = p"
      "last_tag s' = MakeTag n WIRETYPE_END_GROUP"
    using group [OF TYPE_GROUP] n unfolding reads_group_def by (metis append_Nil)
  have "buffer (DecrementRecursionDepth s') = p" "last_tag (DecrementRecursionDepth s') = MakeTag n WIRETYPE_END_GROUP"
    using s'(3,4) by (simp_all add: DecrementRecursionDepth_def)
  then show ?thesis
    using TYPE_GROUP n s' group_budget [OF b s'(2)] \<open>0 \<le> recursion_budget s - 1\<close>
    by (simp add: SkipField_with_def number_ok_simps IncrementRecursionDepth_def Let_def LastTagWas_def)
qed

lemma reads_group_Cons:
  assumes ok: "unknown_ok d [f]" and fs: "reads_group SkipMessage d fs"
    and group: "\<And>n g. f = TYPE_GROUP n g \<Longrightarrow> reads_group SkipMessage (d - 1) g"
  shows "reads_group SkipMessage d (f # fs)"
  unfolding reads_group_def
proof (intro allI impI)
  fix uf n p and s :: cis
  assume s: "flat s" and b: "budget_ok s" and d: "int d \<le> recursion_budget s" and n: "number_ok n"
    and buf: "buffer s = unknown_bytes (f # fs) @ tag_bytes n WIRETYPE_END_GROUP @ p"
  let ?q = "unknown_bytes fs @ tag_bytes n WIRETYPE_END_GROUP @ p"
  let ?s = "s\<lparr>buffer := field_payload f @ ?q, last_tag := field_tag f\<rparr>"
  have buf': "buffer s = varint (unat (field_tag f)) @ field_payload f @ ?q"
    using buf by (simp add: unknown_bytes_Cons)
  have tag: "ReadTag s = (field_tag f, ?s)" by (rule ReadTag_bytes [OF s buf'])
  have m: "flat ?s" "moved s ?s" using flat_suffix [OF s buf'] by simp_all
  have bd: "budget_ok ?s" "int d \<le> recursion_budget ?s" using b d by (simp_all add: budget_ok_def)
  have "\<exists>s1. SkipField_with SkipMessage (field_tag f) uf ?s = Some (True, uf @ [f], s1)
      \<and> moved ?s s1 \<and> buffer s1 = ?q"
    by (rule SkipField_with_reads [OF m(1) bd _ ok]) (simp, rule group)
  then obtain s1 where s1: "SkipField_with SkipMessage (field_tag f) uf ?s = Some (True, uf @ [f], s1)"
      "moved ?s s1" "buffer s1 = ?q" by blast
  have m1: "moved s s1" using m(2) s1(2) by (rule moved_trans)
  have "flat s1" "budget_ok s1" "int d \<le> recursion_budget s1"
    using m1 s b d moved_flat moved_budget_ok by (auto simp: moved_fields(8))
  then obtain s' where s': "SkipMessage (uf @ [f]) s1 = Some (True, (uf @ [f]) @ fs, s')" "moved s1 s'" "buffer s' = p"
      "last_tag s' = MakeTag n WIRETYPE_END_GROUP"
    using fs s1(3) n unfolding reads_group_def by blast
  have "SkipMessage uf s = SkipMessage (uf @ [f]) s1"
    using tag s1(1) field_tag_ok [OF ok] by (subst SkipMessage.simps) simp
  with s' m1 show "\<exists>s'. SkipMessage uf s = Some (True, uf @ f # fs, s') \<and> moved s s' \<and> buffer s' = p
        \<and> last_tag s' = MakeTag n WIRETYPE_END_GROUP"
    by (auto intro: moved_trans)
qed

lemma SkipMessage_reads_group: "unknown_ok d g \<Longrightarrow> reads_group SkipMessage d g"
proof (induction d g rule: unknown_ok.induct)
  case (1 d)
  show ?case unfolding reads_group_def
  proof (intro allI impI)
    fix uf n p and s :: cis
    assume s: "flat s" and b: "buffer s = unknown_bytes [] @ tag_bytes n WIRETYPE_END_GROUP @ p" "number_ok n"
    have "ReadTag s = (MakeTag n WIRETYPE_END_GROUP, s\<lparr>buffer := p, last_tag := MakeTag n WIRETYPE_END_GROUP\<rparr>)"
      using ReadTag_bytes [OF s] b by simp
    then have "SkipMessage uf s = Some (True, uf @ [], s\<lparr>buffer := p, last_tag := MakeTag n WIRETYPE_END_GROUP\<rparr>)"
      using b(2) by (subst SkipMessage.simps) (simp add: number_ok_simps)
    then show "\<exists>s'. SkipMessage uf s = Some (True, uf @ [], s') \<and> moved s s' \<and> buffer s' = p
        \<and> last_tag s' = MakeTag n WIRETYPE_END_GROUP"
      using flat_suffix [OF s, of "tag_bytes n WIRETYPE_END_GROUP" p] b by auto
  qed
qed (auto intro: reads_group_Cons)

lemma SkipField_reads:
  assumes "flat s" and "budget_ok s" and "int d \<le> recursion_budget s"
    and "buffer s = field_payload f @ p" and "unknown_ok d [f]"
  shows "\<exists>s'. SkipField (field_tag f) uf s = Some (True, uf @ [f], s') \<and> moved s s' \<and> buffer s' = p"
  unfolding SkipField_def
  by (rule SkipField_with_reads [OF assms]) (use assms(5) in \<open>auto intro: SkipMessage_reads_group\<close>)

section \<open>Properties\<close>

text \<open>C24: skipping an unknown group or message returns on every input, however malformed, and
  leaves the stream inside its array (no read outside it and no use of the null \<open>input_\<close>).\<close>

theorem SkipMessage_total_safe:
  assumes "flat s" and "budget_ok s"
  shows "\<exists>ok uf' s'. SkipMessage uf s = Some (ok, uf', s') \<and> flat s'"
  using SkipMessage_returns [OF assms, of uf] by (auto simp: returns_def)

theorem SkipMessage_total_safe_witness:
  "\<exists>ok uf' s'. SkipMessage [] (mk_CodedInputStream_flat [0x0B, 0x0B, 0xFF]) = Some (ok, uf', s') \<and> \<not> ub s'"
proof -
  let ?s = "mk_CodedInputStream_flat [0x0B, 0x0B, 0xFF]"
  have "flat ?s" by (rule flat_mk_CodedInputStream_flat) simp
  moreover have "budget_ok ?s" by (simp add: budget_ok_def mk_CodedInputStream_flat_def)
  ultimately show ?thesis using SkipMessage_total_safe [of ?s "[]"] by (auto simp: flat_def)
qed



end
