(* ===== verification/Message.thy ===== *)
theory Message
  imports WireFormat
begin

text \<open>
  What the generated message classes have in common: the parse loop of
  \<open>MergePartialFromCodedStream\<close>, the statements of its switch, \<open>ParseFromArray\<close> and
  \<open>SerializeToCodedStream\<close> of \<open>MessageLite\<close> (message_lite.cc).  The locale
  \<open>wire_message\<close> is the contract of one message class; its consequences (parsing returns and
  stays inside the array, serialization writes exactly the announced bytes, parsing inverts
  serialization) are proved here once for all classes.
\<close>

section \<open>The parse loop\<close>

text \<open>
  \<open>cases_of tag\<close> is the body of the case that the switch of the class has for \<open>tag\<close>;
  \<open>None\<close> is a \<open>goto handle_unusual\<close>.
\<close>

type_synonym 'm switch = "uint32 \<Rightarrow> ('m \<Rightarrow> cis \<Rightarrow> 'm result) option"

partial_function (option) MergeLoop ::
    "'m switch \<Rightarrow> ('m \<Rightarrow> UnknownFieldSet) \<Rightarrow> (UnknownFieldSet \<Rightarrow> 'm \<Rightarrow> 'm) \<Rightarrow> 'm \<Rightarrow> cis \<Rightarrow> 'm result" where
  "MergeLoop cases_of unknown put_unknown m s =
     (let ((tag, below), s1) = ReadTagWithCutoffNoLastTag 127 s in
      case (if below then cases_of tag else None) of
        Some body \<Rightarrow> do {
          (ok, m', s2) \<leftarrow> body m s1;
          if ok then MergeLoop cases_of unknown put_unknown m' s2 else Some (False, m', s2)
        }
      | None \<Rightarrow>
          if tag = 0 then Some (True, m, s1)
          else do {
            (ok, uf, s2) \<leftarrow> SkipField tag (unknown m) s1;
            if ok then MergeLoop cases_of unknown put_unknown (put_unknown uf m) s2
            else Some (False, put_unknown uf m, s2)
          })"

definition primitive_field :: "(cis \<Rightarrow> 'a option \<times> cis) \<Rightarrow> ('a \<Rightarrow> 'm \<Rightarrow> 'm) \<Rightarrow> 'm \<Rightarrow> cis \<Rightarrow> 'm result" where
  "primitive_field read put m s = (case read s of
       (None, s1) \<Rightarrow> Some (False, m, s1) | (Some v, s1) \<Rightarrow> Some (True, put v m, s1))"

definition string_field :: "('m \<Rightarrow> bytes) \<Rightarrow> (bytes \<Rightarrow> 'm \<Rightarrow> 'm) \<Rightarrow> 'm \<Rightarrow> cis \<Rightarrow> 'm result" where
  "string_field get put m s =
     (let (ok, str, s1) = ReadBytesToString (get m) s; m' = put str m
      in if \<not> ok then Some (False, m', s1) else Some (VerifyUtf8String (get m'), m', s1))"

text \<open>\<open>DO_(ReadMessage(input, add_x()))\<close>: a new element is appended first and parsed in place.\<close>

definition repeated_field ::
    "('e \<Rightarrow> cis \<Rightarrow> 'e result) \<Rightarrow> 'e \<Rightarrow> ('m \<Rightarrow> 'e list) \<Rightarrow> ('e list \<Rightarrow> 'm \<Rightarrow> 'm) \<Rightarrow> 'm \<Rightarrow> cis \<Rightarrow> 'm result" where
  "repeated_field merge fresh get put m s = do {
     (ok, e, s1) \<leftarrow> ReadMessage merge fresh s;
     Some (ok, put (get m @ [e]) m, s1)
   }"

section \<open>MessageLite\<close>

text \<open>
  Proto3 messages keep unknown fields by default; the program never calls
  \<open>SetProto3PreserveUnknownsDefault\<close>.
\<close>

definition GetProto3PreserveUnknownsDefault :: bool where
  "GetProto3PreserveUnknownsDefault = True"

definition ParseFromArray :: "('m \<Rightarrow> cis \<Rightarrow> 'm result) \<Rightarrow> ('m \<Rightarrow> 'm) \<Rightarrow> bytes \<Rightarrow> 'm \<Rightarrow> (bool \<times> 'm) option" where
  "ParseFromArray merge clear data m = do {
     (ok, m', s) \<leftarrow> merge (clear m) (mk_CodedInputStream_flat data);
     Some (ok \<and> ConsumedEntireMessage s, m')
   }"

text \<open>
  \<open>SerializeToCodedStream\<close>; \<open>None\<close> is the abort of \<open>ByteSizeConsistencyError\<close> or of a write
  outside the buffer.
\<close>

definition SerializeToCodedStream ::
    "('m \<Rightarrow> nat) \<Rightarrow> ('m \<Rightarrow> target \<Rightarrow> target option) \<Rightarrow> ('m \<Rightarrow> cos \<Rightarrow> cos option) \<Rightarrow> 'm \<Rightarrow> cos \<Rightarrow> (bool \<times> cos) option" where
  "SerializeToCodedStream byte_size to_array serialize m s =
     (let sz = byte_size m in
      if int sz > INT_MAX then Some (False, s)
      else case GetDirectBufferForNBytes sz s of
        Some t \<Rightarrow> do {
          (mem, e) \<leftarrow> to_array m t;
          if e \<noteq> sz then None else map_option (Pair True) (direct (to_array m) s)
        }
      | None \<Rightarrow> do {
          s1 \<leftarrow> serialize m s;
          if length (contents s1) - length (contents s) \<noteq> sz then None else Some (True, s1)
        })"

section \<open>Reading what was written\<close>

text \<open>
  \<open>parses merge d m bs m'\<close>: with \<open>d\<close> levels of nesting left, a parse loop that holds \<open>m\<close>
  and has \<open>bs\<close> in front of it comes to hold \<open>m'\<close> behind them.
\<close>

definition parses :: "('m \<Rightarrow> cis \<Rightarrow> 'm result) \<Rightarrow> nat \<Rightarrow> 'm \<Rightarrow> bytes \<Rightarrow> 'm \<Rightarrow> bool" where
  "parses merge d m bs m' \<longleftrightarrow> (\<forall>s p. flat s \<longrightarrow> budget_ok s \<longrightarrow> int d \<le> recursion_budget s \<longrightarrow>
     buffer s = bs @ p \<longrightarrow> (\<exists>s'. moved s s' \<and> buffer s' = p \<and> merge m s = merge m' s'))"

text \<open>\<open>consumes body d m bs m'\<close>: the body of a case reads \<open>bs\<close> and turns \<open>m\<close> into \<open>m'\<close>.\<close>

definition consumes :: "('m \<Rightarrow> cis \<Rightarrow> 'm result) \<Rightarrow> nat \<Rightarrow> 'm \<Rightarrow> bytes \<Rightarrow> 'm \<Rightarrow> bool" where
  "consumes body d m bs m' \<longleftrightarrow> (\<forall>s p. flat s \<longrightarrow> budget_ok s \<longrightarrow> int d \<le> recursion_budget s \<longrightarrow>
     buffer s = bs @ p \<longrightarrow> (\<exists>s'. body m s = Some (True, m', s') \<and> moved s s' \<and> buffer s' = p))"

lemma parses_Nil: "parses merge d m [] m"
  by (auto simp: parses_def)

lemma parses_append:
  assumes "parses merge d m xs m'" and "parses merge d m' ys m''"
  shows "parses merge d m (xs @ ys) m''"
  unfolding parses_def
proof (intro allI impI)
  fix s p assume s: "flat s" "budget_ok s" "int d \<le> recursion_budget s" "buffer s = (xs @ ys) @ p"
  then obtain s1 where s1: "moved s s1" "buffer s1 = ys @ p" "merge m s = merge m' s1"
    using assms(1) unfolding parses_def by (metis append_assoc)
  moreover have "flat s1" "budget_ok s1" "int d \<le> recursion_budget s1"
    using s s1(1) moved_flat moved_budget_ok by (auto simp: moved_fields(8))
  ultimately obtain s2 where "moved s1 s2" "buffer s2 = p" "merge m' s1 = merge m'' s2"
    using assms(2) unfolding parses_def by metis
  with s1 show "\<exists>s'. moved s s' \<and> buffer s' = p \<and> merge m s = merge m'' s'"
    by (metis moved_trans)
qed

lemma parses_if:
  "(c \<Longrightarrow> parses merge d m xs m') \<Longrightarrow> parses merge d m (if c then xs else []) (if c then m' else m)"
  using parses_Nil by (cases c) auto

lemma ReadTagWithCutoff_bytes:
  assumes "flat s" and "buffer s = varint (unat t) @ p"
  shows "ReadTagWithCutoffNoLastTag 127 s = ((t, t - 1 < 127), s\<lparr>buffer := p\<rparr>)"
  using ReadTagWithCutoff_flat [OF assms(1)] by (simp add: assms(2) get_word_varint_32)

lemma parses_field:
  assumes tag: "t - 1 < 127" and body: "cases_of t = Some body" and c: "consumes body d m bs m'"
  shows "parses (MergeLoop cases_of unknown put_unknown) d m (varint (unat t) @ bs) m'"
  unfolding parses_def
proof (intro allI impI)
  fix s p assume s: "flat s" "budget_ok s" "int d \<le> recursion_budget s"
    and b: "buffer s = (varint (unat t) @ bs) @ p"
  let ?s = "s\<lparr>buffer := bs @ p\<rparr>"
  have t: "ReadTagWithCutoffNoLastTag 127 s = ((t, t - 1 < 127), ?s)"
    using ReadTagWithCutoff_bytes [OF s(1)] b by simp
  have m: "flat ?s" "moved s ?s" using flat_suffix [OF s(1), of "varint (unat t)" "bs @ p"] b by simp_all
  moreover have "budget_ok ?s" "int d \<le> recursion_budget ?s" "buffer ?s = bs @ p"
    using s by (simp_all add: budget_ok_def)
  ultimately obtain s' where s': "body m ?s = Some (True, m', s')" "moved ?s s'" "buffer s' = p"
    using c unfolding consumes_def by blast
  have "MergeLoop cases_of unknown put_unknown m s = MergeLoop cases_of unknown put_unknown m' s'"
    using t tag body s'(1) by (subst MergeLoop.simps) simp
  with s' m show "\<exists>s'. moved s s' \<and> buffer s' = p
      \<and> MergeLoop cases_of unknown put_unknown m s = MergeLoop cases_of unknown put_unknown m' s'"
    by (metis moved_trans)
qed

section \<open>The cases of a switch\<close>

lemma primitive_field_returns:
  assumes "reads R f" and "shrinks f" and "flat s"
  shows "returns s (primitive_field R put m s)"
proof -
  obtain v s' where "R s = (v, s')" "moved s s'" by (rule reads_moved [OF assms])
  then show ?thesis using assms(3)
    by (cases v) (simp_all add: primitive_field_def returns_moved)
qed

lemma ReadPrimitive_reads:
  "reads ReadPrimitive_int32 get_word" "reads ReadPrimitive_float get_le32" "reads ReadPrimitive_enum get_word"
  using reads_ReadVarint32 reads_ReadLittleEndian32
  by (simp_all add: ReadPrimitive_int32_def [abs_def] ReadPrimitive_float_def [abs_def] ReadPrimitive_enum_def [abs_def])

definition get_bool :: "bytes \<Rightarrow> (bool \<times> bytes) option" where
  "get_bool p = map_option (map_prod (\<lambda>v :: uint64. v \<noteq> 0) id) (get_word p)"

lemma ReadPrimitive_bool_reads: "reads ReadPrimitive_bool get_bool"
  by (rule reads_map [OF reads_ReadVarint64 ReadPrimitive_bool_def get_bool_def])

lemma shrinks_get_bool: "shrinks get_bool"
  using shrinks_get(1) by (fastforce simp: shrinks_def get_bool_def)

lemmas primitive_returns =
  primitive_field_returns [OF ReadPrimitive_reads(1) shrinks_get(1)]
  primitive_field_returns [OF ReadPrimitive_reads(2) shrinks_get(3)]
  primitive_field_returns [OF ReadPrimitive_reads(3) shrinks_get(1)]
  primitive_field_returns [OF ReadPrimitive_bool_reads shrinks_get_bool]

lemma ReadBytesToString_moved:
  assumes "flat s" obtains ok str' s' where "ReadBytesToString str s = (ok, str', s')" and "moved s s'"
proof -
  obtain v s1 where v: "ReadVarint32 s = (v, s1)" "moved s s1" by (rule ReadVarint32_moved [OF assms])
  obtain ok str' s' where "ReadString str (sint (the v)) s1 = (ok, str', s')" "moved s1 s'"
    by (rule ReadString_moved [OF moved_flat [OF v(2) assms]])
  with v that show ?thesis
    by (cases v) (auto simp: ReadBytesToString_def intro: moved_trans)
qed

lemma string_field_returns: "flat s \<Longrightarrow> returns s (string_field get put m s)"
  by (rule ReadBytesToString_moved [of s "get m"]) (auto simp: string_field_def Let_def intro: returns_moved)

lemma drop_take_append: "\<exists>k. drop n (take len r) @ drop len r = drop k r"
proof -
  let ?k = "min n (length (take len r))"
  have "drop ?k (take len r @ drop len r) = drop n (take len r) @ drop len r"
    unfolding drop_append by (simp add: min_def)
  then show ?thesis unfolding append_take_drop_id by metis
qed

lemma ReadMessage_returns:
  assumes s: "flat s" and b: "budget_ok s"
    and merge: "\<And>m t. flat t \<Longrightarrow> budget_ok t \<Longrightarrow> returns t (merge m t)"
  shows "returns s (ReadMessage merge m s)"
proof (cases "get_size (buffer s)")
  case None
  then obtain n where "ReadVarintSizeAsInt s = (None, s\<lparr>buffer := drop n (buffer s)\<rparr>)"
    using readsE_None [OF reads_ReadVarintSizeAsInt s] by metis
  then show ?thesis using s by (simp add: ReadMessage_def returns_moved)
next
  case (Some x)
  obtain len r where x: "get_size (buffer s) = Some (len, r)" using Some by (cases x) simp
  let ?s = "s\<lparr>buffer := r\<rparr>"
  have len: "0 \<le> len" and m: "moved s ?s"
    using get_size_suffix [OF x] moved_drop [of s] by auto
  have fs: "flat ?s" using m s by (rule moved_flat)
  note enter = IncrementRecursionDepthAndPushLimit_flat [OF fs len]
  have rd: "ReadVarintSizeAsInt s = (Some len, ?s)" by (rule readsD_Some [OF reads_ReadVarintSizeAsInt s x])
  have "budget_ok (enter len ?s)"
    using b by (simp add: budget_ok_def enter_def IncrementRecursionDepthAndPushLimit_def PushLimit_flat [OF fs len])
  then obtain ok m' t where t: "merge m (enter len ?s) = Some (ok, m', t)" "flat t" "ok \<longrightarrow> moved (enter len ?s) t"
    using merge [OF enter(2), of m] by (auto simp: returns_def)
  have res: "ReadMessage merge m s = (if recursion_budget ?s - 1 < 0 then Some (False, m, enter len ?s)
      else if \<not> ok then Some (False, m', t)
      else let (r, s4) = DecrementRecursionDepthAndPopLimit (current_limit ?s) t in Some (r, m', s4))"
    unfolding ReadMessage_def rd prod.case option.case enter(1) Let_def t(1) bind.bind_lunit by simp
  show ?thesis
  proof (cases "recursion_budget ?s - 1 < 0 \<or> \<not> ok")
    case True
    then show ?thesis unfolding res using enter(2) t(2) returns_fail by (cases ok) auto
  next
    case False
    then have mt: "moved (enter len ?s) t" using t by simp
    then obtain n where "buffer t = drop n (take (nat len) r)"
      using moved_buffer [OF mt] enter(3) by auto
    then obtain k where k: "buffer t @ drop (nat len) r = drop k r"
      using drop_take_append [of n "nat len" r] by auto
    have "moved s (?s\<lparr>buffer := drop k r, legitimate_message_end := False, last_tag := last_tag t\<rparr>)"
      using moved_trans [OF m moved_drop [of ?s k]] by simp
    then show ?thesis unfolding res leave_nested [OF fs len mt] using False s k
      by (simp add: returns_moved)
  qed
qed

lemma repeated_field_returns:
  assumes "flat s" and "budget_ok s" and "\<And>m t. flat t \<Longrightarrow> budget_ok t \<Longrightarrow> returns t (merge m t)"
  shows "returns s (repeated_field merge fresh get put m s)"
  using ReadMessage_returns [OF assms(1,2), of merge fresh] assms(3)
  by (auto simp: returns_def repeated_field_def)

lemma primitive_field_consumes:
  assumes "reads R f" and "\<And>p. f (bs @ p) = Some (v, p)"
  shows "consumes (primitive_field R put) d m bs (put v m)"
  unfolding consumes_def
proof (intro allI impI)
  fix s p assume s: "flat s" and b: "buffer s = bs @ p"
  have "R s = (Some v, s\<lparr>buffer := p\<rparr>)"
    by (rule readsD_Some [OF assms(1) s]) (simp add: b assms(2))
  then show "\<exists>s'. primitive_field R put m s = Some (True, put v m, s') \<and> moved s s' \<and> buffer s' = p"
    using flat_suffix [OF s b] by (simp add: primitive_field_def)
qed

lemma consumes_int32: "consumes (primitive_field ReadPrimitive_int32 put) d m (varint (unat (scast v :: uint64))) (put v m)"
  by (rule primitive_field_consumes [OF ReadPrimitive_reads(1)]) (simp add: read_simps)

lemma consumes_float: "consumes (primitive_field ReadPrimitive_float put) d m (le32 v) (put v m)"
  by (rule primitive_field_consumes [OF ReadPrimitive_reads(2)]) (simp add: read_simps)

lemma consumes_enum: "consumes (primitive_field ReadPrimitive_enum put) d m (varint (unat (scast v :: uint64))) (put v m)"
  by (rule primitive_field_consumes [OF ReadPrimitive_reads(3)]) (simp add: read_simps)

lemma consumes_bool:
  "consumes (primitive_field ReadPrimitive_bool put) d m (varint (unat (if v then 1 else 0 :: uint32))) (put v m)"
  by (rule primitive_field_consumes [OF ReadPrimitive_bool_reads]) (simp add: get_bool_def get_word_bool)

text \<open>A string that the reader accepts.\<close>

definition string_ok :: "bytes \<Rightarrow> bool" where
  "string_ok str \<longleftrightarrow> valid_utf8 str \<and> int (length str) \<le> INT_MAX"

lemma consumes_string:
  assumes "string_ok str" and "get (put str m) = str"
  shows "consumes (string_field get put) d m (delimited str) (put str m)"
  unfolding consumes_def
proof (intro allI impI)
  fix s p assume s: "flat s" and b: "buffer s = delimited str @ p"
  have "ReadBytesToString (get m) s = (True, str, s\<lparr>buffer := p\<rparr>)"
    using ReadBytesToString_delimited [OF s b] assms(1) by (simp add: string_ok_def)
  then show "\<exists>s'. string_field get put m s = Some (True, put str m, s') \<and> moved s s' \<and> buffer s' = p"
    using flat_suffix [OF s b] assms
    by (simp add: string_field_def VerifyUtf8String_def IsStructurallyValidUTF8_iff string_ok_def)
qed

lemma ReadTagWithCutoff_moved:
  assumes "flat s" obtains t b s' where "ReadTagWithCutoffNoLastTag 127 s = ((t, b), s')" and "moved s s'"
    and "t \<noteq> 0 \<longrightarrow> length (buffer s') < length (buffer s)" and "b \<longrightarrow> t \<noteq> 0"
proof (cases "buffer s = []")
  case True
  then show ?thesis using ReadTagWithCutoff_end [OF assms] that [of 0 False] by simp
next
  case False
  show ?thesis
  proof (cases "get_word (buffer s) :: (uint32 \<times> bytes) option")
    case None
    then show ?thesis using ReadTagWithCutoff_flat [OF assms False] that [of 0 False] by auto
  next
    case (Some x)
    then obtain v r n where x: "get_word (buffer s) = Some (v :: uint32, r)" "r = drop n (buffer s)" "length r < length (buffer s)"
      using get_word_suffix by (cases x) blast
    then have "ReadTagWithCutoffNoLastTag 127 s = ((v, v - 1 < 127), s\<lparr>buffer := r\<rparr>)"
      using ReadTagWithCutoff_flat [OF assms False] by simp
    moreover have "v - 1 < 127 \<longrightarrow> v \<noteq> 0" by auto
    ultimately show ?thesis using x(2,3) by (intro that [of v "v - 1 < 127"]) auto
  qed
qed

section \<open>The contract of a message class\<close>

locale unknown_part =
  fixes unknown :: "'m \<Rightarrow> UnknownFieldSet" and put_unknown :: "UnknownFieldSet \<Rightarrow> 'm \<Rightarrow> 'm"
  assumes unknown_put: "unknown (put_unknown u m) = u"
    and put_unknown_twice: "put_unknown u (put_unknown v m) = put_unknown u m"
    and put_unknown_self: "put_unknown (unknown m) m = m"
begin

lemma parses_unknown_field:
  assumes ok: "unknown_ok d [f]" and new: "(if field_tag f - 1 < 127 then cases_of (field_tag f) else None) = None"
  shows "parses (MergeLoop cases_of unknown put_unknown) d m (unknown_bytes [f]) (put_unknown (unknown m @ [f]) m)"
  unfolding parses_def
proof (intro allI impI)
  fix s p assume s: "flat s" "budget_ok s" "int d \<le> recursion_budget s"
    and b: "buffer s = unknown_bytes [f] @ p"
  let ?s = "s\<lparr>buffer := field_payload f @ p\<rparr>"
  have b': "buffer s = varint (unat (field_tag f)) @ field_payload f @ p"
    using b by (simp add: unknown_bytes_Cons)
  have t: "ReadTagWithCutoffNoLastTag 127 s = ((field_tag f, field_tag f - 1 < 127), ?s)"
    by (rule ReadTagWithCutoff_bytes [OF s(1) b'])
  have m: "flat ?s" "moved s ?s" using flat_suffix [OF s(1) b'] by simp_all
  moreover have "budget_ok ?s" "int d \<le> recursion_budget ?s" "buffer ?s = field_payload f @ p"
    using s by (simp_all add: budget_ok_def)
  ultimately obtain s' where s': "SkipField (field_tag f) (unknown m) ?s = Some (True, unknown m @ [f], s')"
      "moved ?s s'" "buffer s' = p"
    using SkipField_reads [OF _ _ _ _ ok] by blast
  have "MergeLoop cases_of unknown put_unknown m s =
      MergeLoop cases_of unknown put_unknown (put_unknown (unknown m @ [f]) m) s'"
    using t new field_tag_ok(1) [OF ok] s'(1) by (subst MergeLoop.simps) simp
  with s' m show "\<exists>s'. moved s s' \<and> buffer s' = p \<and> MergeLoop cases_of unknown put_unknown m s =
      MergeLoop cases_of unknown put_unknown (put_unknown (unknown m @ [f]) m) s'"
    by (metis moved_trans)
qed

lemma parses_unknown:
  assumes "unknown_ok d fs"
    and "\<And>f. f \<in> set fs \<Longrightarrow> (if field_tag f - 1 < 127 then cases_of (field_tag f) else None) = None"
  shows "parses (MergeLoop cases_of unknown put_unknown) d m (unknown_bytes fs) (put_unknown (unknown m @ fs) m)"
  using assms
proof (induction fs arbitrary: m)
  case Nil
  then show ?case by (simp add: parses_Nil put_unknown_self)
next
  case (Cons f fs)
  let ?m = "put_unknown (unknown m @ [f]) m"
  have "unknown_ok d [f]" "unknown_ok d fs" using Cons.prems(1) unknown_ok_Cons by blast+
  then have "parses (MergeLoop cases_of unknown put_unknown) d m (unknown_bytes [f]) ?m"
    and "parses (MergeLoop cases_of unknown put_unknown) d ?m (unknown_bytes fs) (put_unknown (unknown ?m @ fs) ?m)"
    using parses_unknown_field [of d f cases_of m] Cons by simp_all
  then have "parses (MergeLoop cases_of unknown put_unknown) d m (unknown_bytes [f] @ unknown_bytes fs)
      (put_unknown (unknown ?m @ fs) ?m)" by (rule parses_append)
  then show ?case by (simp add: unknown_put put_unknown_twice unknown_bytes_Cons)
qed

end

locale wire_message = unknown_part unknown put_unknown
  for unknown :: "'m \<Rightarrow> UnknownFieldSet" and put_unknown :: "UnknownFieldSet \<Rightarrow> 'm \<Rightarrow> 'm" +
  fixes cases_of :: "'m switch" and fresh :: 'm and clear :: "'m \<Rightarrow> 'm"
    and byte_size :: "'m \<Rightarrow> nat" and to_array :: "'m \<Rightarrow> target \<Rightarrow> target option"
    and serialize :: "'m \<Rightarrow> cos \<Rightarrow> cos option"
    and merge_from :: "'m \<Rightarrow> 'm \<Rightarrow> 'm" and encode :: "'m \<Rightarrow> bytes" and valid :: "nat \<Rightarrow> 'm \<Rightarrow> bool"
  assumes clear_fresh: "clear m = fresh"
    and cases_return: "cases_of t = Some body \<Longrightarrow> flat s \<Longrightarrow> budget_ok s \<Longrightarrow> returns s (body m s)"
    and size_exact: "byte_size m = length (encode m)"
    and array_writes: "writes (to_array m) (encode m)"
    and stream_emits: "int (length (encode m)) \<le> INT_MAX \<Longrightarrow> emits (serialize m) (encode m)"
    and encode_merges: "valid d m \<Longrightarrow> parses (MergeLoop cases_of unknown put_unknown) d m0 (encode m) (merge_from m0 m)"
    and merge_fresh: "valid d m \<Longrightarrow> merge_from fresh m = m"
begin

lemma encode_parses: "valid d m \<Longrightarrow> parses (MergeLoop cases_of unknown put_unknown) d fresh (encode m) m"
  using encode_merges [of d m fresh] by (simp add: merge_fresh)

lemma merge_returns: "flat s \<Longrightarrow> budget_ok s \<Longrightarrow> returns s (MergeLoop cases_of unknown put_unknown m s)"
proof (induction "length (buffer s)" arbitrary: s m rule: less_induct)
  case less
  obtain t b s1 where t: "ReadTagWithCutoffNoLastTag 127 s = ((t, b), s1)" "moved s s1"
    "t \<noteq> 0 \<longrightarrow> length (buffer s1) < length (buffer s)" "b \<longrightarrow> t \<noteq> 0"
    by (rule ReadTagWithCutoff_moved [OF less.prems(1)])
  have s1: "flat s1" "budget_ok s1" using t(2) less.prems moved_flat moved_budget_ok by blast+
  have rec: "returns s (MergeLoop cases_of unknown put_unknown m' s2)" if "moved s1 s2" "t \<noteq> 0" for m' s2
  proof -
    have "length (buffer s2) < length (buffer s)" using that t(3) moved_fields(10) [OF that(1)] by simp
    moreover have "flat s2" "budget_ok s2" using that s1 moved_flat moved_budget_ok by blast+
    ultimately have "returns s2 (MergeLoop cases_of unknown put_unknown m' s2)" using less.hyps by blast
    then show ?thesis using t(2) that(1) by (blast intro: returns_trans moved_trans)
  qed
  show ?case
  proof (cases "if b then cases_of t else None")
    case None
    show ?thesis
    proof (cases "t = 0")
      case True
      then show ?thesis using t None less.prems(1) by (subst MergeLoop.simps) (simp add: returns_moved)
    next
      case False
      obtain ok uf s2 where "SkipField t (unknown m) s1 = Some (ok, uf, s2)" "flat s2" "ok \<longrightarrow> moved s1 s2"
        using SkipField_returns [OF s1, of t "unknown m"] by (auto simp: returns_def)
      then show ?thesis using t(1) None False rec by (subst MergeLoop.simps) (auto intro: returns_fail)
    qed
  next
    case (Some body)
    then have "b" "cases_of t = Some body" by (auto split: if_splits)
    moreover obtain ok m' s2 where "body m s1 = Some (ok, m', s2)" "flat s2" "ok \<longrightarrow> moved s1 s2"
      using cases_return [OF \<open>cases_of t = Some body\<close> s1, of m] by (auto simp: returns_def)
    ultimately show ?thesis using t(1,4) rec by (subst MergeLoop.simps) (auto intro: returns_fail)
  qed
qed

lemma merge_end:
  "flat s \<Longrightarrow> buffer s = [] \<Longrightarrow>
     MergeLoop cases_of unknown put_unknown m s = Some (True, m, s\<lparr>legitimate_message_end := True\<rparr>)"
  by (subst MergeLoop.simps) (simp add: ReadTagWithCutoff_end)

text \<open>Reading back a whole message.\<close>

lemma merge_bytes:
  assumes "parses (MergeLoop cases_of unknown put_unknown) d m0 bs m"
    and "flat s" and "budget_ok s" and "int d \<le> recursion_budget s" and "buffer s = bs"
  shows "\<exists>s'. MergeLoop cases_of unknown put_unknown m0 s = Some (True, m, s') \<and> moved s s'
     \<and> buffer s' = [] \<and> legitimate_message_end s'"
proof -
  obtain s1 where s1: "moved s s1" "buffer s1 = []"
      "MergeLoop cases_of unknown put_unknown m0 s = MergeLoop cases_of unknown put_unknown m s1"
    using assms unfolding parses_def by (metis append_Nil2)
  then show ?thesis using merge_end [OF moved_flat [OF s1(1) assms(2)] s1(2)] by auto
qed

lemmas merge_encode = merge_bytes [OF encode_parses]

lemma parse_returns:
  assumes "int (length data) \<le> INT_MAX"
  shows "\<exists>ok m'. ParseFromArray (MergeLoop cases_of unknown put_unknown) clear data m = Some (ok, m')"
proof -
  have "budget_ok (mk_CodedInputStream_flat data)"
    by (simp add: budget_ok_def mk_CodedInputStream_flat_def)
  from merge_returns [OF flat_mk_CodedInputStream_flat [OF assms] this, of "clear m"]
  show ?thesis by (auto simp: returns_def ParseFromArray_def)
qed

lemma parse_bytes:
  assumes "parses (MergeLoop cases_of unknown put_unknown) 100 fresh bs m" and "int (length bs) \<le> INT_MAX"
  shows "ParseFromArray (MergeLoop cases_of unknown put_unknown) clear bs m0 = Some (True, m)"
proof -
  let ?s = "mk_CodedInputStream_flat bs"
  have "budget_ok ?s" "int 100 \<le> recursion_budget ?s" "buffer ?s = bs"
    by (simp_all add: budget_ok_def mk_CodedInputStream_flat_def default_recursion_limit_def)
  then show ?thesis
    using merge_bytes [OF assms(1) flat_mk_CodedInputStream_flat [OF assms(2)]]
    by (auto simp: ParseFromArray_def clear_fresh ConsumedEntireMessage_def)
qed

lemmas parse_encode = parse_bytes [OF encode_parses]

text \<open>Two encodings in a row are read as the second message merged into the first.\<close>

lemma parse_append:
  assumes "valid 100 m" and "valid 100 m'" and "int (length (encode m @ encode m')) \<le> INT_MAX"
  shows "ParseFromArray (MergeLoop cases_of unknown put_unknown) clear (encode m @ encode m') m0 =
     Some (True, merge_from m m')"
  by (rule parse_bytes [OF parses_append [OF encode_parses [OF assms(1)] encode_merges [OF assms(2)]] assms(3)])

text \<open>Writing a message to a stream.\<close>

lemma serialize_stream:
  assumes "int (length (encode m)) \<le> INT_MAX" and "cos_inv s"
  shows "\<exists>s'. SerializeToCodedStream byte_size to_array serialize m s = Some (True, s')
     \<and> cos_inv s' \<and> contents s' = contents s @ encode m"
proof (cases "length (room s) < length (encode m)")
  case True
  obtain s' where "serialize m s = Some s'" "cos_inv s'" "contents s' = contents s @ encode m"
    by (rule emitsE [OF stream_emits [OF assms(1)] assms(2)])
  with True assms(1) show ?thesis
    by (simp add: SerializeToCodedStream_def size_exact GetDirectBufferForNBytes_def Let_def)
next
  case False
  then have "to_array m (room s, 0) = Some (overwrite (room s) 0 (encode m), length (encode m))"
    using writesD [OF array_writes [of m], of 0 "room s"] by simp
  moreover obtain s' where "direct (to_array m) s = Some s'" "cos_inv s'" "contents s' = contents s @ encode m"
    using direct_spec [OF array_writes _ assms(2), of m] False by auto
  ultimately show ?thesis using False assms(1)
    by (simp add: SerializeToCodedStream_def size_exact GetDirectBufferForNBytes_def Let_def)
qed

lemma serialize_large:
  "\<not> int (length (encode m)) \<le> INT_MAX \<Longrightarrow>
     SerializeToCodedStream byte_size to_array serialize m s = Some (False, s)"
  by (simp add: SerializeToCodedStream_def size_exact)

text \<open>A message inside another one.\<close>

lemma read_nested:
  assumes v: "valid d m" and len: "int (length (encode m)) \<le> INT_MAX"
  shows "consumes (ReadMessage (MergeLoop cases_of unknown put_unknown)) (Suc d) fresh (delimited (encode m)) m"
  unfolding consumes_def
proof (intro allI impI)
  fix s p assume s: "flat s" "budget_ok s" "int (Suc d) \<le> recursion_budget s"
    and b: "buffer s = delimited (encode m) @ p"
  let ?n = "int (length (encode m))"
  let ?s = "s\<lparr>buffer := encode m @ p\<rparr>"
  have b': "buffer s = varint (length (encode m)) @ encode m @ p" using b len by (simp add: delimited_eq)
  have rd: "ReadVarintSizeAsInt s = (Some ?n, ?s)"
    using readsD_Some [OF reads_ReadVarintSizeAsInt s(1)] get_size_varint [OF len] b' by simp
  have m: "flat ?s" "moved s ?s" using flat_suffix [OF s(1) b'] by simp_all
  note enter = IncrementRecursionDepthAndPushLimit_flat [OF m(1), of ?n]
  have e: "flat (enter ?n ?s)" "budget_ok (enter ?n ?s)" "int d \<le> recursion_budget (enter ?n ?s)"
      "buffer (enter ?n ?s) = encode m"
    using enter s by (auto simp: budget_ok_def enter_def IncrementRecursionDepthAndPushLimit_def PushLimit_flat [OF m(1)])
  obtain t where t: "MergeLoop cases_of unknown put_unknown fresh (enter ?n ?s) = Some (True, m, t)"
      "moved (enter ?n ?s) t" "buffer t = []" "legitimate_message_end t"
    using merge_encode [OF v e] by blast
  let ?t = "?s\<lparr>buffer := p, legitimate_message_end := False, last_tag := last_tag t\<rparr>"
  have "ReadMessage (MergeLoop cases_of unknown put_unknown) fresh s = Some (True, m, ?t)"
    using rd enter(1) t leave_nested [OF m(1) _ t(2)] s(3) by (simp add: ReadMessage_def)
  moreover have "moved s ?t" using flat_suffix [OF s(1), of "delimited (encode m)" p] b by simp
  ultimately show "\<exists>s'. ReadMessage (MergeLoop cases_of unknown put_unknown) fresh s = Some (True, m, s')
      \<and> moved s s' \<and> buffer s' = p" by auto
qed

end

section \<open>Optional and repeated fields\<close>

text \<open>The loop over a repeated field.\<close>

fun write_each :: "('e \<Rightarrow> 's \<Rightarrow> 's option) \<Rightarrow> 'e list \<Rightarrow> 's \<Rightarrow> 's option" where
  "write_each w [] s = Some s"
| "write_each w (e # es) s = w e s \<bind> write_each w es"

lemma emits_write_each:
  "(\<And>e. e \<in> set es \<Longrightarrow> emits (w e) (enc e)) \<Longrightarrow> emits (write_each w es) (concat (map enc es))"
  by (induction es) (simp_all only: write_each.simps [abs_def] list.map concat.simps, auto intro!: emits_intro)

lemma length_concat_member: "e \<in> set es \<Longrightarrow> length (f e) \<le> length (concat (map f es))"
  by (auto dest!: split_list)

lemma writes_write_each:
  "(\<And>e. e \<in> set es \<Longrightarrow> writes (w e) (enc e)) \<Longrightarrow> writes (write_each w es) (concat (map enc es))"
  by (induction es) (simp_all only: write_each.simps [abs_def] list.map concat.simps, auto intro!: writes_intro)

text \<open>\<open>float\<close> compares with \<open>0\<close> as a number: the two zeros are equal.\<close>

definition float_nonzero :: "float32 \<Rightarrow> bool" where
  "float_nonzero v \<longleftrightarrow> v AND 0x7FFFFFFF \<noteq> 0"

definition float_ok :: "float32 \<Rightarrow> bool" where
  "float_ok v \<longleftrightarrow> float_nonzero v \<or> v = 0"

lemma not_float_nonzero_0 [simp]: "\<not> float_nonzero 0"
  by (simp add: float_nonzero_def)

text \<open>The tags of the generated code.\<close>

lemma MakeTag_values:
  "MakeTag 1 WIRETYPE_LENGTH_DELIMITED = 10" "MakeTag 3 WIRETYPE_LENGTH_DELIMITED = 26"
  "MakeTag 4 WIRETYPE_LENGTH_DELIMITED = 34" "MakeTag 1 WIRETYPE_VARINT = 8"
  "MakeTag 2 WIRETYPE_VARINT = 16" "MakeTag 1 WIRETYPE_FIXED32 = 13" "MakeTag 2 WIRETYPE_FIXED32 = 21"
  by (simp_all add: MakeTag_def push_bit_eq_mult)

lemma GetTagFieldNumber_values:
  "GetTagFieldNumber 10 = 1" "GetTagFieldNumber 26 = 3" "GetTagFieldNumber 34 = 4" "GetTagFieldNumber 8 = 1"
  "GetTagFieldNumber 16 = 2" "GetTagFieldNumber 13 = 1" "GetTagFieldNumber 21 = 2"
  by (simp_all add: GetTagFieldNumber_def drop_bit_eq_div)

lemma length_tag_bytes:
  "length (tag_bytes 1 WIRETYPE_LENGTH_DELIMITED) = 1" "length (tag_bytes 3 WIRETYPE_LENGTH_DELIMITED) = 1"
  "length (tag_bytes 4 WIRETYPE_LENGTH_DELIMITED) = 1" "length (tag_bytes 1 WIRETYPE_VARINT) = 1"
  "length (tag_bytes 2 WIRETYPE_VARINT) = 1" "length (tag_bytes 1 WIRETYPE_FIXED32) = 1"
  "length (tag_bytes 2 WIRETYPE_FIXED32) = 1"
  by (simp_all add: MakeTag_values varint_small)

lemmas tag_simps = MakeTag_values GetTagFieldNumber_values

lemma parses_string:
  assumes "cases_of (MakeTag n WIRETYPE_LENGTH_DELIMITED) = Some (string_field get put)"
    and "MakeTag n WIRETYPE_LENGTH_DELIMITED - 1 < 127" and "string_ok v" and "get (put v m) = v"
  shows "parses (MergeLoop cases_of unknown put_unknown) d m
     (if length v > 0 then tag_bytes n WIRETYPE_LENGTH_DELIMITED @ delimited v else []) (if length v > 0 then put v m else m)"
  by (intro parses_if parses_field [where cases_of = cases_of, OF assms(2,1)] consumes_string assms(3,4))

lemma parses_int32:
  assumes "cases_of (MakeTag n WIRETYPE_VARINT) = Some (primitive_field ReadPrimitive_int32 put)"
    and "MakeTag n WIRETYPE_VARINT - 1 < 127"
  shows "parses (MergeLoop cases_of unknown put_unknown) d m
     (if v \<noteq> 0 then tag_bytes n WIRETYPE_VARINT @ varint (unat (scast v :: uint64)) else []) (if v \<noteq> 0 then put v m else m)"
  by (intro parses_if parses_field [where cases_of = cases_of, OF assms(2,1)] consumes_int32)

lemma parses_enum:
  assumes "cases_of (MakeTag n WIRETYPE_VARINT) = Some (primitive_field ReadPrimitive_enum put)"
    and "MakeTag n WIRETYPE_VARINT - 1 < 127"
  shows "parses (MergeLoop cases_of unknown put_unknown) d m
     (if v \<noteq> 0 then tag_bytes n WIRETYPE_VARINT @ varint (unat (scast v :: uint64)) else []) (if v \<noteq> 0 then put v m else m)"
  by (intro parses_if parses_field [where cases_of = cases_of, OF assms(2,1)] consumes_enum)

lemma parses_bool:
  assumes "cases_of (MakeTag n WIRETYPE_VARINT) = Some (primitive_field ReadPrimitive_bool put)"
    and "MakeTag n WIRETYPE_VARINT - 1 < 127"
  shows "parses (MergeLoop cases_of unknown put_unknown) d m
     (if v then tag_bytes n WIRETYPE_VARINT @ varint (unat (if v then 1 else 0 :: uint32)) else []) (if v then put v m else m)"
  by (intro parses_if parses_field [where cases_of = cases_of, OF assms(2,1)] consumes_bool)

lemma parses_float:
  assumes "cases_of (MakeTag n WIRETYPE_FIXED32) = Some (primitive_field ReadPrimitive_float put)"
    and "MakeTag n WIRETYPE_FIXED32 - 1 < 127"
  shows "parses (MergeLoop cases_of unknown put_unknown) d m
     (if float_nonzero v then tag_bytes n WIRETYPE_FIXED32 @ le32 v else []) (if float_nonzero v then put v m else m)"
  by (intro parses_if parses_field [where cases_of = cases_of, OF assms(2,1)] consumes_float)

lemma consumes_repeated:
  assumes "consumes (ReadMessage merge) d fresh bs e"
  shows "consumes (repeated_field merge fresh get put) d m bs (put (get m @ [e]) m)"
  using assms unfolding consumes_def repeated_field_def by fastforce

lemma parses_repeated:
  assumes body: "cases_of (MakeTag n WIRETYPE_LENGTH_DELIMITED) = Some (repeated_field merge fresh get put)"
    and tag: "MakeTag n WIRETYPE_LENGTH_DELIMITED - 1 < 127"
    and el: "\<And>e. e \<in> set es \<Longrightarrow> consumes (ReadMessage merge) d fresh (delimited (enc e)) e"
    and put: "\<And>xs m. get (put xs m) = xs" "\<And>xs ys m. put xs (put ys m) = put xs m" "\<And>m. put (get m) m = m"
  shows "parses (MergeLoop cases_of unknown put_unknown) d m
     (concat (map (\<lambda>e. tag_bytes n WIRETYPE_LENGTH_DELIMITED @ delimited (enc e)) es)) (put (get m @ es) m)"
  using el
proof (induction es arbitrary: m)
  case Nil
  then show ?case by (simp add: parses_Nil put(3))
next
  case (Cons e es)
  let ?m = "put (get m @ [e]) m"
  have "parses (MergeLoop cases_of unknown put_unknown) d m (tag_bytes n WIRETYPE_LENGTH_DELIMITED @ delimited (enc e)) ?m"
    by (intro parses_field [where cases_of = cases_of, OF tag body] consumes_repeated) (simp add: Cons.prems)
  moreover have "parses (MergeLoop cases_of unknown put_unknown) d ?m
     (concat (map (\<lambda>e. tag_bytes n WIRETYPE_LENGTH_DELIMITED @ delimited (enc e)) es)) (put (get ?m @ es) ?m)"
    by (rule Cons.IH) (simp add: Cons.prems)
  ultimately show ?case using parses_append by (fastforce simp: put(1,2))
qed

text \<open>Sizes of what is written for a field.\<close>

lemma length_delimited_pos: "0 < length (delimited str)"
  by (simp add: delimited_def)

lemma MessageSize_eq: "MessageSize (length bs) = length (delimited bs)"
  by (simp add: MessageSize_def size_simps)

lemma length_bool_bytes: "length (varint (Suc 0)) = 1"
  by (simp add: varint_small)

lemma length_repeated:
  "length t = 1 \<Longrightarrow> length (concat (map (\<lambda>e. t @ f e) es)) = length es + (\<Sum>e\<leftarrow>es. length (f e))"
  by (induction es) simp_all

lemmas message_size_simps = length_tag_bytes length_bool_bytes MessageSize_eq
  length_repeated [OF length_tag_bytes(1)] length_repeated [OF length_tag_bytes(3)]

text \<open>Unknown fields at the end of a message, and those its switch leaves alone.\<close>

definition unclaimed :: "'m switch \<Rightarrow> UnknownFieldSet \<Rightarrow> bool" where
  "unclaimed cases_of fs \<longleftrightarrow> list_all (\<lambda>f. field_tag f - 1 < 127 \<longrightarrow> Option.is_none (cases_of (field_tag f))) fs"

lemma unclaimedD:
  "unclaimed cases_of fs \<Longrightarrow> f \<in> set fs \<Longrightarrow> field_tag f - 1 < 127 \<Longrightarrow> cases_of (field_tag f) = None"
  by (auto simp: unclaimed_def list_all_iff Option.is_none_def)

lemma unclaimed_Nil [simp]: "unclaimed cases_of []"
  by (simp add: unclaimed_def)

lemma emits_unknown [emits_intro]:
  "emits (\<lambda>s. if fs \<noteq> [] \<and> GetProto3PreserveUnknownsDefault then SerializeUnknownFields fs s else Some s) (unknown_bytes fs)"
  using emits_SerializeUnknownFields [of fs] emits_Some
  by (cases "fs = []") (simp_all add: GetProto3PreserveUnknownsDefault_def)

lemma writes_unknown [writes_intro]:
  "writes (\<lambda>t. if fs \<noteq> [] \<and> GetProto3PreserveUnknownsDefault then SerializeUnknownFieldsToArray fs t else Some t) (unknown_bytes fs)"
  using writes_SerializeUnknownFieldsToArray [of fs] writes_Some
  by (cases "fs = []") (simp_all add: GetProto3PreserveUnknownsDefault_def)

lemma size_unknown:
  "(if fs \<noteq> [] \<and> GetProto3PreserveUnknownsDefault then ComputeUnknownFieldsSize fs else 0) = length (unknown_bytes fs)"
  by (cases "fs = []") (simp_all add: GetProto3PreserveUnknownsDefault_def ComputeUnknownFieldsSize_eq)

end
