(* ===== verification/BaseCmd.thy ===== *)
theory BaseCmd
  imports Message
begin

text \<open>
  The generated message classes without message fields.
  Each class of src/Shared/code/protobuf/BaseCmd.pb.cc is a record of its fields and its unknown
  fields.  Its operations carry the class name: \<open>X_new\<close> is the default constructor
  (\<open>SharedCtor\<close>), \<open>X_copy\<close> the copy constructor, \<open>X_cases\<close> the switch of
  \<open>MergePartialFromCodedStream\<close>, and the other names are those of the code.  The results of
  \<open>VerifyUtf8String\<close> in the serializers are not used by the code (the call only logs) and are left
  out.  Every class is an instance of \<open>wire_message\<close> (theory Message).
\<close>

section \<open>CmdType\<close>

record CmdType =
  CmdType_type :: "bytes"
  CmdType_size :: "int32"
  CmdType_fromip :: "bytes"
  CmdType_toip :: "bytes"
  CmdType_unknown :: UnknownFieldSet

definition CmdType_new :: CmdType where
  "CmdType_new = \<lparr>CmdType_type = [], CmdType_size = 0, CmdType_fromip = [], CmdType_toip = [], CmdType_unknown = []\<rparr>"

definition CmdType_copy :: "CmdType \<Rightarrow> CmdType" where
  "CmdType_copy from = CmdType_new\<lparr>CmdType_unknown := CmdType_unknown from,
     CmdType_type := (if length (CmdType_type from) > 0 then CmdType_type from else []),
     CmdType_fromip := (if length (CmdType_fromip from) > 0 then CmdType_fromip from else []),
     CmdType_toip := (if length (CmdType_toip from) > 0 then CmdType_toip from else []),
     CmdType_size := CmdType_size from\<rparr>"

definition CmdType_Clear :: "CmdType \<Rightarrow> CmdType" where
  "CmdType_Clear m = m\<lparr>CmdType_type := [], CmdType_fromip := [], CmdType_toip := [], CmdType_size := 0, CmdType_unknown := []\<rparr>"

definition CmdType_cases :: "CmdType switch" where
  "CmdType_cases tag =
     (if GetTagFieldNumber tag = 1 then
        (if (ucast tag :: byte) = 10 then Some (string_field CmdType_type (\<lambda>v. CmdType_type_update (\<lambda>_. v))) else None)
      else if GetTagFieldNumber tag = 2 then
        (if (ucast tag :: byte) = 16 then Some (primitive_field ReadPrimitive_int32 (\<lambda>v. CmdType_size_update (\<lambda>_. v))) else None)
      else if GetTagFieldNumber tag = 3 then
        (if (ucast tag :: byte) = 26 then Some (string_field CmdType_fromip (\<lambda>v. CmdType_fromip_update (\<lambda>_. v))) else None)
      else if GetTagFieldNumber tag = 4 then
        (if (ucast tag :: byte) = 34 then Some (string_field CmdType_toip (\<lambda>v. CmdType_toip_update (\<lambda>_. v))) else None)
      else None)"

definition CmdType_MergePartialFromCodedStream :: "CmdType \<Rightarrow> cis \<Rightarrow> CmdType result" where
  "CmdType_MergePartialFromCodedStream = MergeLoop CmdType_cases CmdType_unknown (\<lambda>v. CmdType_unknown_update (\<lambda>_. v))"

definition CmdType_SerializeWithCachedSizes :: "CmdType \<Rightarrow> cos \<Rightarrow> cos option" where
  "CmdType_SerializeWithCachedSizes m s = do {
     s \<leftarrow> (if length (CmdType_type m) > 0 then WriteStringMaybeAliased 1 (CmdType_type m) s else Some s);
     s \<leftarrow> (if CmdType_size m \<noteq> 0 then WriteInt32 2 (CmdType_size m) s else Some s);
     s \<leftarrow> (if length (CmdType_fromip m) > 0 then WriteStringMaybeAliased 3 (CmdType_fromip m) s else Some s);
     s \<leftarrow> (if length (CmdType_toip m) > 0 then WriteStringMaybeAliased 4 (CmdType_toip m) s else Some s);
     (if CmdType_unknown m \<noteq> [] \<and> GetProto3PreserveUnknownsDefault then SerializeUnknownFields (CmdType_unknown m) s else Some s)
   }"

definition CmdType_InternalSerializeWithCachedSizesToArray :: "CmdType \<Rightarrow> target \<Rightarrow> target option" where
  "CmdType_InternalSerializeWithCachedSizesToArray m t = do {
     t \<leftarrow> (if length (CmdType_type m) > 0 then WFL_WriteStringToArray 1 (CmdType_type m) t else Some t);
     t \<leftarrow> (if CmdType_size m \<noteq> 0 then WriteInt32ToArray 2 (CmdType_size m) t else Some t);
     t \<leftarrow> (if length (CmdType_fromip m) > 0 then WFL_WriteStringToArray 3 (CmdType_fromip m) t else Some t);
     t \<leftarrow> (if length (CmdType_toip m) > 0 then WFL_WriteStringToArray 4 (CmdType_toip m) t else Some t);
     (if CmdType_unknown m \<noteq> [] \<and> GetProto3PreserveUnknownsDefault then SerializeUnknownFieldsToArray (CmdType_unknown m) t else Some t)
   }"

definition CmdType_ByteSizeLong :: "CmdType \<Rightarrow> nat" where
  "CmdType_ByteSizeLong m =
     (if CmdType_unknown m \<noteq> [] \<and> GetProto3PreserveUnknownsDefault then ComputeUnknownFieldsSize (CmdType_unknown m) else 0) +
     (if length (CmdType_type m) > 0 then 1 + StringSize (CmdType_type m) else 0) +
     (if length (CmdType_fromip m) > 0 then 1 + StringSize (CmdType_fromip m) else 0) +
     (if length (CmdType_toip m) > 0 then 1 + StringSize (CmdType_toip m) else 0) +
     (if CmdType_size m \<noteq> 0 then 1 + Int32Size (CmdType_size m) else 0)"

definition CmdType_MergeFrom :: "CmdType \<Rightarrow> CmdType \<Rightarrow> CmdType" where
  "CmdType_MergeFrom m from =
     (let m = m\<lparr>CmdType_unknown := CmdType_unknown m @ CmdType_unknown from\<rparr>;
          m = (if length (CmdType_type from) > 0 then m\<lparr>CmdType_type := CmdType_type from\<rparr> else m);
          m = (if length (CmdType_fromip from) > 0 then m\<lparr>CmdType_fromip := CmdType_fromip from\<rparr> else m);
          m = (if length (CmdType_toip from) > 0 then m\<lparr>CmdType_toip := CmdType_toip from\<rparr> else m);
          m = (if CmdType_size from \<noteq> 0 then m\<lparr>CmdType_size := CmdType_size from\<rparr> else m)
      in m)"

text \<open>\<open>self\<close> is \<open>&from == this\<close>.\<close>

definition CmdType_CopyFrom :: "bool \<Rightarrow> CmdType \<Rightarrow> CmdType \<Rightarrow> CmdType" where
  "CmdType_CopyFrom self m from = (if self then m else CmdType_MergeFrom (CmdType_Clear m) from)"

definition CmdType_InternalSwap :: "CmdType \<Rightarrow> CmdType \<Rightarrow> CmdType \<times> CmdType" where
  "CmdType_InternalSwap m other =
     (m\<lparr>CmdType_type := CmdType_type other, CmdType_fromip := CmdType_fromip other, CmdType_toip := CmdType_toip other, CmdType_size := CmdType_size other, CmdType_unknown := CmdType_unknown other\<rparr>,
      other\<lparr>CmdType_type := CmdType_type m, CmdType_fromip := CmdType_fromip m, CmdType_toip := CmdType_toip m, CmdType_size := CmdType_size m, CmdType_unknown := CmdType_unknown m\<rparr>)"

text \<open>The wire format of the message, and the messages that survive it.\<close>

definition CmdType_encode :: "CmdType \<Rightarrow> bytes" where
  "CmdType_encode m =
     (if length (CmdType_type m) > 0 then tag_bytes 1 WIRETYPE_LENGTH_DELIMITED @ delimited (CmdType_type m) else []) @
     (if CmdType_size m \<noteq> 0 then tag_bytes 2 WIRETYPE_VARINT @ varint (unat (scast (CmdType_size m) :: uint64)) else []) @
     (if length (CmdType_fromip m) > 0 then tag_bytes 3 WIRETYPE_LENGTH_DELIMITED @ delimited (CmdType_fromip m) else []) @
     (if length (CmdType_toip m) > 0 then tag_bytes 4 WIRETYPE_LENGTH_DELIMITED @ delimited (CmdType_toip m) else []) @
     unknown_bytes (CmdType_unknown m)"

definition CmdType_valid :: "nat \<Rightarrow> CmdType \<Rightarrow> bool" where
  "CmdType_valid d m \<longleftrightarrow> string_ok (CmdType_type m) \<and>
     string_ok (CmdType_fromip m) \<and>
     string_ok (CmdType_toip m) \<and>
     unknown_ok d (CmdType_unknown m) \<and>
     unclaimed CmdType_cases (CmdType_unknown m)"

lemma CmdType_cases_return:
  "CmdType_cases t = Some body \<Longrightarrow> flat s \<Longrightarrow> budget_ok s \<Longrightarrow> returns s (body m s)"
  by (auto simp: CmdType_cases_def split: if_splits intro!: string_field_returns primitive_returns)

lemma CmdType_size: "CmdType_ByteSizeLong m = length (CmdType_encode m)"
  unfolding CmdType_ByteSizeLong_def CmdType_encode_def size_unknown
  by (simp add: size_simps message_size_simps)

lemma CmdType_writes: "writes (CmdType_InternalSerializeWithCachedSizesToArray m) (CmdType_encode m)"
  unfolding CmdType_InternalSerializeWithCachedSizesToArray_def [abs_def] CmdType_encode_def
  by (intro writes_bind writes_fun_if writes_unknown writes_intro)

lemma CmdType_emits:
  assumes "int (length (CmdType_encode m)) \<le> INT_MAX"
  shows "emits (CmdType_SerializeWithCachedSizes m) (CmdType_encode m)"
  using assms
  unfolding CmdType_SerializeWithCachedSizes_def [abs_def] CmdType_encode_def
  by (intro emits_bind emits_fun_if emits_unknown emits_intro)
    (fastforce simp: delimited_def split: if_splits)+

lemma CmdType_cases_values:
  "CmdType_cases (MakeTag 1 WIRETYPE_LENGTH_DELIMITED) = Some (string_field CmdType_type (\<lambda>v. CmdType_type_update (\<lambda>_. v)))"
  "CmdType_cases (MakeTag 2 WIRETYPE_VARINT) = Some (primitive_field ReadPrimitive_int32 (\<lambda>v. CmdType_size_update (\<lambda>_. v)))"
  "CmdType_cases (MakeTag 3 WIRETYPE_LENGTH_DELIMITED) = Some (string_field CmdType_fromip (\<lambda>v. CmdType_fromip_update (\<lambda>_. v)))"
  "CmdType_cases (MakeTag 4 WIRETYPE_LENGTH_DELIMITED) = Some (string_field CmdType_toip (\<lambda>v. CmdType_toip_update (\<lambda>_. v)))"
  by (simp_all add: CmdType_cases_def tag_simps)

interpretation CmdType_uf: unknown_part CmdType_unknown "(\<lambda>v. CmdType_unknown_update (\<lambda>_. v))"
  by unfold_locales simp_all

lemma CmdType_merges:
  assumes v: "CmdType_valid d m"
  shows "parses CmdType_MergePartialFromCodedStream d m0 (CmdType_encode m) (CmdType_MergeFrom m0 m)"
proof -
  let ?m1 = "if length (CmdType_type m) > 0 then CmdType_type_update (\<lambda>_. CmdType_type m) m0 else m0"
  let ?m2 = "if CmdType_size m \<noteq> 0 then CmdType_size_update (\<lambda>_. CmdType_size m) (?m1) else ?m1"
  let ?m3 = "if length (CmdType_fromip m) > 0 then CmdType_fromip_update (\<lambda>_. CmdType_fromip m) (?m2) else ?m2"
  let ?m4 = "if length (CmdType_toip m) > 0 then CmdType_toip_update (\<lambda>_. CmdType_toip m) (?m3) else ?m3"
  let ?u = "CmdType_unknown_update (\<lambda>_. CmdType_unknown (?m4) @ CmdType_unknown m) (?m4)"
  have "parses CmdType_MergePartialFromCodedStream d m0 (CmdType_encode m) ?u"
    unfolding CmdType_encode_def CmdType_MergePartialFromCodedStream_def
    by (rule parses_append [OF parses_string [where cases_of = CmdType_cases, OF CmdType_cases_values(1)]
      parses_append [OF parses_int32 [where cases_of = CmdType_cases, OF CmdType_cases_values(2)]
      parses_append [OF parses_string [where cases_of = CmdType_cases, OF CmdType_cases_values(3)]
      parses_append [OF parses_string [where cases_of = CmdType_cases, OF CmdType_cases_values(4)]
      CmdType_uf.parses_unknown]]]])
      (use v in \<open>auto simp: CmdType_valid_def tag_simps unclaimedD\<close>)
  moreover have "?u = CmdType_MergeFrom m0 m"
    by (cases m0) (simp add: CmdType_MergeFrom_def Let_def)
  ultimately show ?thesis by simp
qed

lemma CmdType_merge_new: "CmdType_valid d m \<Longrightarrow> CmdType_MergeFrom CmdType_new m = m"
  by (cases m) (auto simp: CmdType_MergeFrom_def CmdType_new_def CmdType_valid_def float_ok_def Let_def)

lemma CmdType_Clear_new: "CmdType_Clear m = CmdType_new"
  by (simp add: CmdType_Clear_def CmdType_new_def)

interpretation CmdType_msg: wire_message CmdType_unknown "(\<lambda>v. CmdType_unknown_update (\<lambda>_. v))" CmdType_cases CmdType_new CmdType_Clear
  CmdType_ByteSizeLong CmdType_InternalSerializeWithCachedSizesToArray CmdType_SerializeWithCachedSizes CmdType_MergeFrom CmdType_encode CmdType_valid
  rewrites "MergeLoop CmdType_cases CmdType_unknown (\<lambda>v. CmdType_unknown_update (\<lambda>_. v)) = CmdType_MergePartialFromCodedStream"
  by unfold_locales
    (simp_all only: CmdType_MergePartialFromCodedStream_def [symmetric] CmdType_cases_return CmdType_Clear_new CmdType_size CmdType_writes CmdType_emits CmdType_merges CmdType_merge_new)

lemma CmdType_MergeFrom_new: "CmdType_MergeFrom m CmdType_new = m"
  by (simp add: CmdType_MergeFrom_def CmdType_new_def Let_def)

lemma CmdType_MergeFrom_assoc: "CmdType_MergeFrom (CmdType_MergeFrom a b) c = CmdType_MergeFrom a (CmdType_MergeFrom b c)"
  by (simp add: CmdType_MergeFrom_def Let_def)

lemma CmdType_MergeFrom_twice: "CmdType_MergeFrom CmdType_new \<circ> CmdType_MergeFrom CmdType_new = CmdType_MergeFrom CmdType_new"
  by (simp add: fun_eq_iff CmdType_MergeFrom_assoc [symmetric] CmdType_MergeFrom_new)

lemma CmdType_CopyFrom_MergeFrom: "CmdType_CopyFrom False m from = CmdType_MergeFrom CmdType_new from"
  by (simp add: CmdType_CopyFrom_def CmdType_Clear_new)

lemma CmdType_InternalSwap_eq: "CmdType_InternalSwap m other = (other, m)"
  by (simp add: CmdType_InternalSwap_def)

section \<open>notifyConnectionStatus\<close>

record notifyConnectionStatus =
  notifyConnectionStatus_status :: "int32"
  notifyConnectionStatus_unknown :: UnknownFieldSet

definition notifyConnectionStatus_new :: notifyConnectionStatus where
  "notifyConnectionStatus_new = \<lparr>notifyConnectionStatus_status = 0, notifyConnectionStatus_unknown = []\<rparr>"

definition notifyConnectionStatus_copy :: "notifyConnectionStatus \<Rightarrow> notifyConnectionStatus" where
  "notifyConnectionStatus_copy from = notifyConnectionStatus_new\<lparr>notifyConnectionStatus_unknown := notifyConnectionStatus_unknown from,
     notifyConnectionStatus_status := notifyConnectionStatus_status from\<rparr>"

definition notifyConnectionStatus_Clear :: "notifyConnectionStatus \<Rightarrow> notifyConnectionStatus" where
  "notifyConnectionStatus_Clear m = m\<lparr>notifyConnectionStatus_status := 0, notifyConnectionStatus_unknown := []\<rparr>"

definition notifyConnectionStatus_cases :: "notifyConnectionStatus switch" where
  "notifyConnectionStatus_cases tag =
     (if GetTagFieldNumber tag = 1 then
        (if (ucast tag :: byte) = 8 then Some (primitive_field ReadPrimitive_enum (\<lambda>v. notifyConnectionStatus_status_update (\<lambda>_. v))) else None)
      else None)"

definition notifyConnectionStatus_MergePartialFromCodedStream :: "notifyConnectionStatus \<Rightarrow> cis \<Rightarrow> notifyConnectionStatus result" where
  "notifyConnectionStatus_MergePartialFromCodedStream = MergeLoop notifyConnectionStatus_cases notifyConnectionStatus_unknown (\<lambda>v. notifyConnectionStatus_unknown_update (\<lambda>_. v))"

definition notifyConnectionStatus_SerializeWithCachedSizes :: "notifyConnectionStatus \<Rightarrow> cos \<Rightarrow> cos option" where
  "notifyConnectionStatus_SerializeWithCachedSizes m s = do {
     s \<leftarrow> (if notifyConnectionStatus_status m \<noteq> 0 then WriteEnum 1 (notifyConnectionStatus_status m) s else Some s);
     (if notifyConnectionStatus_unknown m \<noteq> [] \<and> GetProto3PreserveUnknownsDefault then SerializeUnknownFields (notifyConnectionStatus_unknown m) s else Some s)
   }"

definition notifyConnectionStatus_InternalSerializeWithCachedSizesToArray :: "notifyConnectionStatus \<Rightarrow> target \<Rightarrow> target option" where
  "notifyConnectionStatus_InternalSerializeWithCachedSizesToArray m t = do {
     t \<leftarrow> (if notifyConnectionStatus_status m \<noteq> 0 then WriteEnumToArray 1 (notifyConnectionStatus_status m) t else Some t);
     (if notifyConnectionStatus_unknown m \<noteq> [] \<and> GetProto3PreserveUnknownsDefault then SerializeUnknownFieldsToArray (notifyConnectionStatus_unknown m) t else Some t)
   }"

definition notifyConnectionStatus_ByteSizeLong :: "notifyConnectionStatus \<Rightarrow> nat" where
  "notifyConnectionStatus_ByteSizeLong m =
     (if notifyConnectionStatus_unknown m \<noteq> [] \<and> GetProto3PreserveUnknownsDefault then ComputeUnknownFieldsSize (notifyConnectionStatus_unknown m) else 0) +
     (if notifyConnectionStatus_status m \<noteq> 0 then 1 + EnumSize (notifyConnectionStatus_status m) else 0)"

definition notifyConnectionStatus_MergeFrom :: "notifyConnectionStatus \<Rightarrow> notifyConnectionStatus \<Rightarrow> notifyConnectionStatus" where
  "notifyConnectionStatus_MergeFrom m from =
     (let m = m\<lparr>notifyConnectionStatus_unknown := notifyConnectionStatus_unknown m @ notifyConnectionStatus_unknown from\<rparr>;
          m = (if notifyConnectionStatus_status from \<noteq> 0 then m\<lparr>notifyConnectionStatus_status := notifyConnectionStatus_status from\<rparr> else m)
      in m)"

text \<open>\<open>self\<close> is \<open>&from == this\<close>.\<close>

definition notifyConnectionStatus_CopyFrom :: "bool \<Rightarrow> notifyConnectionStatus \<Rightarrow> notifyConnectionStatus \<Rightarrow> notifyConnectionStatus" where
  "notifyConnectionStatus_CopyFrom self m from = (if self then m else notifyConnectionStatus_MergeFrom (notifyConnectionStatus_Clear m) from)"

definition notifyConnectionStatus_InternalSwap :: "notifyConnectionStatus \<Rightarrow> notifyConnectionStatus \<Rightarrow> notifyConnectionStatus \<times> notifyConnectionStatus" where
  "notifyConnectionStatus_InternalSwap m other =
     (m\<lparr>notifyConnectionStatus_status := notifyConnectionStatus_status other, notifyConnectionStatus_unknown := notifyConnectionStatus_unknown other\<rparr>,
      other\<lparr>notifyConnectionStatus_status := notifyConnectionStatus_status m, notifyConnectionStatus_unknown := notifyConnectionStatus_unknown m\<rparr>)"

text \<open>The wire format of the message, and the messages that survive it.\<close>

definition notifyConnectionStatus_encode :: "notifyConnectionStatus \<Rightarrow> bytes" where
  "notifyConnectionStatus_encode m =
     (if notifyConnectionStatus_status m \<noteq> 0 then tag_bytes 1 WIRETYPE_VARINT @ varint (unat (scast (notifyConnectionStatus_status m) :: uint64)) else []) @
     unknown_bytes (notifyConnectionStatus_unknown m)"

definition notifyConnectionStatus_valid :: "nat \<Rightarrow> notifyConnectionStatus \<Rightarrow> bool" where
  "notifyConnectionStatus_valid d m \<longleftrightarrow> unknown_ok d (notifyConnectionStatus_unknown m) \<and>
     unclaimed notifyConnectionStatus_cases (notifyConnectionStatus_unknown m)"

lemma notifyConnectionStatus_cases_return:
  "notifyConnectionStatus_cases t = Some body \<Longrightarrow> flat s \<Longrightarrow> budget_ok s \<Longrightarrow> returns s (body m s)"
  by (auto simp: notifyConnectionStatus_cases_def split: if_splits intro!: string_field_returns primitive_returns)

lemma notifyConnectionStatus_size: "notifyConnectionStatus_ByteSizeLong m = length (notifyConnectionStatus_encode m)"
  unfolding notifyConnectionStatus_ByteSizeLong_def notifyConnectionStatus_encode_def size_unknown
  by (simp add: size_simps message_size_simps)

lemma notifyConnectionStatus_writes: "writes (notifyConnectionStatus_InternalSerializeWithCachedSizesToArray m) (notifyConnectionStatus_encode m)"
  unfolding notifyConnectionStatus_InternalSerializeWithCachedSizesToArray_def [abs_def] notifyConnectionStatus_encode_def
  by (intro writes_bind writes_fun_if writes_unknown writes_intro)

lemma notifyConnectionStatus_emits:
  assumes "int (length (notifyConnectionStatus_encode m)) \<le> INT_MAX"
  shows "emits (notifyConnectionStatus_SerializeWithCachedSizes m) (notifyConnectionStatus_encode m)"
  unfolding notifyConnectionStatus_SerializeWithCachedSizes_def [abs_def] notifyConnectionStatus_encode_def
  by (intro emits_bind emits_fun_if emits_unknown emits_intro)

lemma notifyConnectionStatus_cases_values:
  "notifyConnectionStatus_cases (MakeTag 1 WIRETYPE_VARINT) = Some (primitive_field ReadPrimitive_enum (\<lambda>v. notifyConnectionStatus_status_update (\<lambda>_. v)))"
  by (simp_all add: notifyConnectionStatus_cases_def tag_simps)

interpretation notifyConnectionStatus_uf: unknown_part notifyConnectionStatus_unknown "(\<lambda>v. notifyConnectionStatus_unknown_update (\<lambda>_. v))"
  by unfold_locales simp_all

lemma notifyConnectionStatus_merges:
  assumes v: "notifyConnectionStatus_valid d m"
  shows "parses notifyConnectionStatus_MergePartialFromCodedStream d m0 (notifyConnectionStatus_encode m) (notifyConnectionStatus_MergeFrom m0 m)"
proof -
  let ?m1 = "if notifyConnectionStatus_status m \<noteq> 0 then notifyConnectionStatus_status_update (\<lambda>_. notifyConnectionStatus_status m) m0 else m0"
  let ?u = "notifyConnectionStatus_unknown_update (\<lambda>_. notifyConnectionStatus_unknown (?m1) @ notifyConnectionStatus_unknown m) (?m1)"
  have "parses notifyConnectionStatus_MergePartialFromCodedStream d m0 (notifyConnectionStatus_encode m) ?u"
    unfolding notifyConnectionStatus_encode_def notifyConnectionStatus_MergePartialFromCodedStream_def
    by (rule parses_append [OF parses_enum [where cases_of = notifyConnectionStatus_cases, OF notifyConnectionStatus_cases_values]
      notifyConnectionStatus_uf.parses_unknown])
      (use v in \<open>auto simp: notifyConnectionStatus_valid_def tag_simps unclaimedD\<close>)
  moreover have "?u = notifyConnectionStatus_MergeFrom m0 m"
    by (cases m0) (simp add: notifyConnectionStatus_MergeFrom_def Let_def)
  ultimately show ?thesis by simp
qed

lemma notifyConnectionStatus_merge_new: "notifyConnectionStatus_valid d m \<Longrightarrow> notifyConnectionStatus_MergeFrom notifyConnectionStatus_new m = m"
  by (cases m) (auto simp: notifyConnectionStatus_MergeFrom_def notifyConnectionStatus_new_def notifyConnectionStatus_valid_def float_ok_def Let_def)

lemma notifyConnectionStatus_Clear_new: "notifyConnectionStatus_Clear m = notifyConnectionStatus_new"
  by (simp add: notifyConnectionStatus_Clear_def notifyConnectionStatus_new_def)

interpretation notifyConnectionStatus_msg: wire_message notifyConnectionStatus_unknown "(\<lambda>v. notifyConnectionStatus_unknown_update (\<lambda>_. v))" notifyConnectionStatus_cases notifyConnectionStatus_new notifyConnectionStatus_Clear
  notifyConnectionStatus_ByteSizeLong notifyConnectionStatus_InternalSerializeWithCachedSizesToArray notifyConnectionStatus_SerializeWithCachedSizes notifyConnectionStatus_MergeFrom notifyConnectionStatus_encode notifyConnectionStatus_valid
  rewrites "MergeLoop notifyConnectionStatus_cases notifyConnectionStatus_unknown (\<lambda>v. notifyConnectionStatus_unknown_update (\<lambda>_. v)) = notifyConnectionStatus_MergePartialFromCodedStream"
  by unfold_locales
    (simp_all only: notifyConnectionStatus_MergePartialFromCodedStream_def [symmetric] notifyConnectionStatus_cases_return notifyConnectionStatus_Clear_new notifyConnectionStatus_size notifyConnectionStatus_writes notifyConnectionStatus_emits notifyConnectionStatus_merges notifyConnectionStatus_merge_new)

lemma notifyConnectionStatus_MergeFrom_new: "notifyConnectionStatus_MergeFrom m notifyConnectionStatus_new = m"
  by (simp add: notifyConnectionStatus_MergeFrom_def notifyConnectionStatus_new_def Let_def)

lemma notifyConnectionStatus_MergeFrom_assoc: "notifyConnectionStatus_MergeFrom (notifyConnectionStatus_MergeFrom a b) c = notifyConnectionStatus_MergeFrom a (notifyConnectionStatus_MergeFrom b c)"
  by (simp add: notifyConnectionStatus_MergeFrom_def Let_def)

lemma notifyConnectionStatus_MergeFrom_twice: "notifyConnectionStatus_MergeFrom notifyConnectionStatus_new \<circ> notifyConnectionStatus_MergeFrom notifyConnectionStatus_new = notifyConnectionStatus_MergeFrom notifyConnectionStatus_new"
  by (simp add: fun_eq_iff notifyConnectionStatus_MergeFrom_assoc [symmetric] notifyConnectionStatus_MergeFrom_new)

lemma notifyConnectionStatus_CopyFrom_MergeFrom: "notifyConnectionStatus_CopyFrom False m from = notifyConnectionStatus_MergeFrom notifyConnectionStatus_new from"
  by (simp add: notifyConnectionStatus_CopyFrom_def notifyConnectionStatus_Clear_new)

lemma notifyConnectionStatus_InternalSwap_eq: "notifyConnectionStatus_InternalSwap m other = (other, m)"
  by (simp add: notifyConnectionStatus_InternalSwap_def)

section \<open>rspSignin\<close>

record rspSignin =
  rspSignin_name :: "bytes"
  rspSignin_succ :: "bool"
  rspSignin_unknown :: UnknownFieldSet

definition rspSignin_new :: rspSignin where
  "rspSignin_new = \<lparr>rspSignin_name = [], rspSignin_succ = False, rspSignin_unknown = []\<rparr>"

definition rspSignin_copy :: "rspSignin \<Rightarrow> rspSignin" where
  "rspSignin_copy from = rspSignin_new\<lparr>rspSignin_unknown := rspSignin_unknown from,
     rspSignin_name := (if length (rspSignin_name from) > 0 then rspSignin_name from else []),
     rspSignin_succ := rspSignin_succ from\<rparr>"

definition rspSignin_Clear :: "rspSignin \<Rightarrow> rspSignin" where
  "rspSignin_Clear m = m\<lparr>rspSignin_name := [], rspSignin_succ := False, rspSignin_unknown := []\<rparr>"

definition rspSignin_cases :: "rspSignin switch" where
  "rspSignin_cases tag =
     (if GetTagFieldNumber tag = 1 then
        (if (ucast tag :: byte) = 10 then Some (string_field rspSignin_name (\<lambda>v. rspSignin_name_update (\<lambda>_. v))) else None)
      else if GetTagFieldNumber tag = 2 then
        (if (ucast tag :: byte) = 16 then Some (primitive_field ReadPrimitive_bool (\<lambda>v. rspSignin_succ_update (\<lambda>_. v))) else None)
      else None)"

definition rspSignin_MergePartialFromCodedStream :: "rspSignin \<Rightarrow> cis \<Rightarrow> rspSignin result" where
  "rspSignin_MergePartialFromCodedStream = MergeLoop rspSignin_cases rspSignin_unknown (\<lambda>v. rspSignin_unknown_update (\<lambda>_. v))"

definition rspSignin_SerializeWithCachedSizes :: "rspSignin \<Rightarrow> cos \<Rightarrow> cos option" where
  "rspSignin_SerializeWithCachedSizes m s = do {
     s \<leftarrow> (if length (rspSignin_name m) > 0 then WriteStringMaybeAliased 1 (rspSignin_name m) s else Some s);
     s \<leftarrow> (if rspSignin_succ m then WriteBool 2 (rspSignin_succ m) s else Some s);
     (if rspSignin_unknown m \<noteq> [] \<and> GetProto3PreserveUnknownsDefault then SerializeUnknownFields (rspSignin_unknown m) s else Some s)
   }"

definition rspSignin_InternalSerializeWithCachedSizesToArray :: "rspSignin \<Rightarrow> target \<Rightarrow> target option" where
  "rspSignin_InternalSerializeWithCachedSizesToArray m t = do {
     t \<leftarrow> (if length (rspSignin_name m) > 0 then WFL_WriteStringToArray 1 (rspSignin_name m) t else Some t);
     t \<leftarrow> (if rspSignin_succ m then WriteBoolToArray 2 (rspSignin_succ m) t else Some t);
     (if rspSignin_unknown m \<noteq> [] \<and> GetProto3PreserveUnknownsDefault then SerializeUnknownFieldsToArray (rspSignin_unknown m) t else Some t)
   }"

definition rspSignin_ByteSizeLong :: "rspSignin \<Rightarrow> nat" where
  "rspSignin_ByteSizeLong m =
     (if rspSignin_unknown m \<noteq> [] \<and> GetProto3PreserveUnknownsDefault then ComputeUnknownFieldsSize (rspSignin_unknown m) else 0) +
     (if length (rspSignin_name m) > 0 then 1 + StringSize (rspSignin_name m) else 0) +
     (if rspSignin_succ m then 1 + 1 else 0)"

definition rspSignin_MergeFrom :: "rspSignin \<Rightarrow> rspSignin \<Rightarrow> rspSignin" where
  "rspSignin_MergeFrom m from =
     (let m = m\<lparr>rspSignin_unknown := rspSignin_unknown m @ rspSignin_unknown from\<rparr>;
          m = (if length (rspSignin_name from) > 0 then m\<lparr>rspSignin_name := rspSignin_name from\<rparr> else m);
          m = (if rspSignin_succ from then m\<lparr>rspSignin_succ := rspSignin_succ from\<rparr> else m)
      in m)"

text \<open>\<open>self\<close> is \<open>&from == this\<close>.\<close>

definition rspSignin_CopyFrom :: "bool \<Rightarrow> rspSignin \<Rightarrow> rspSignin \<Rightarrow> rspSignin" where
  "rspSignin_CopyFrom self m from = (if self then m else rspSignin_MergeFrom (rspSignin_Clear m) from)"

definition rspSignin_InternalSwap :: "rspSignin \<Rightarrow> rspSignin \<Rightarrow> rspSignin \<times> rspSignin" where
  "rspSignin_InternalSwap m other =
     (m\<lparr>rspSignin_name := rspSignin_name other, rspSignin_succ := rspSignin_succ other, rspSignin_unknown := rspSignin_unknown other\<rparr>,
      other\<lparr>rspSignin_name := rspSignin_name m, rspSignin_succ := rspSignin_succ m, rspSignin_unknown := rspSignin_unknown m\<rparr>)"

text \<open>The wire format of the message, and the messages that survive it.\<close>

definition rspSignin_encode :: "rspSignin \<Rightarrow> bytes" where
  "rspSignin_encode m =
     (if length (rspSignin_name m) > 0 then tag_bytes 1 WIRETYPE_LENGTH_DELIMITED @ delimited (rspSignin_name m) else []) @
     (if rspSignin_succ m then tag_bytes 2 WIRETYPE_VARINT @ varint (unat (if rspSignin_succ m then 1 else 0 :: uint32)) else []) @
     unknown_bytes (rspSignin_unknown m)"

definition rspSignin_valid :: "nat \<Rightarrow> rspSignin \<Rightarrow> bool" where
  "rspSignin_valid d m \<longleftrightarrow> string_ok (rspSignin_name m) \<and>
     unknown_ok d (rspSignin_unknown m) \<and>
     unclaimed rspSignin_cases (rspSignin_unknown m)"

lemma rspSignin_cases_return:
  "rspSignin_cases t = Some body \<Longrightarrow> flat s \<Longrightarrow> budget_ok s \<Longrightarrow> returns s (body m s)"
  by (auto simp: rspSignin_cases_def split: if_splits intro!: string_field_returns primitive_returns)

lemma rspSignin_size: "rspSignin_ByteSizeLong m = length (rspSignin_encode m)"
  unfolding rspSignin_ByteSizeLong_def rspSignin_encode_def size_unknown
  by (simp add: size_simps message_size_simps)

lemma rspSignin_writes: "writes (rspSignin_InternalSerializeWithCachedSizesToArray m) (rspSignin_encode m)"
  unfolding rspSignin_InternalSerializeWithCachedSizesToArray_def [abs_def] rspSignin_encode_def
  by (intro writes_bind writes_fun_if writes_unknown writes_intro)

lemma rspSignin_emits:
  assumes "int (length (rspSignin_encode m)) \<le> INT_MAX"
  shows "emits (rspSignin_SerializeWithCachedSizes m) (rspSignin_encode m)"
  using assms
  unfolding rspSignin_SerializeWithCachedSizes_def [abs_def] rspSignin_encode_def
  by (intro emits_bind emits_fun_if emits_unknown emits_intro)
    (fastforce simp: delimited_def split: if_splits)+

lemma rspSignin_cases_values:
  "rspSignin_cases (MakeTag 1 WIRETYPE_LENGTH_DELIMITED) = Some (string_field rspSignin_name (\<lambda>v. rspSignin_name_update (\<lambda>_. v)))"
  "rspSignin_cases (MakeTag 2 WIRETYPE_VARINT) = Some (primitive_field ReadPrimitive_bool (\<lambda>v. rspSignin_succ_update (\<lambda>_. v)))"
  by (simp_all add: rspSignin_cases_def tag_simps)

interpretation rspSignin_uf: unknown_part rspSignin_unknown "(\<lambda>v. rspSignin_unknown_update (\<lambda>_. v))"
  by unfold_locales simp_all

lemma rspSignin_merges:
  assumes v: "rspSignin_valid d m"
  shows "parses rspSignin_MergePartialFromCodedStream d m0 (rspSignin_encode m) (rspSignin_MergeFrom m0 m)"
proof -
  let ?m1 = "if length (rspSignin_name m) > 0 then rspSignin_name_update (\<lambda>_. rspSignin_name m) m0 else m0"
  let ?m2 = "if rspSignin_succ m then rspSignin_succ_update (\<lambda>_. rspSignin_succ m) (?m1) else ?m1"
  let ?u = "rspSignin_unknown_update (\<lambda>_. rspSignin_unknown (?m2) @ rspSignin_unknown m) (?m2)"
  have "parses rspSignin_MergePartialFromCodedStream d m0 (rspSignin_encode m) ?u"
    unfolding rspSignin_encode_def rspSignin_MergePartialFromCodedStream_def
    by (rule parses_append [OF parses_string [where cases_of = rspSignin_cases, OF rspSignin_cases_values(1)]
      parses_append [OF parses_bool [where cases_of = rspSignin_cases, OF rspSignin_cases_values(2)]
      rspSignin_uf.parses_unknown]])
      (use v in \<open>auto simp: rspSignin_valid_def tag_simps unclaimedD\<close>)
  moreover have "?u = rspSignin_MergeFrom m0 m"
    by (cases m0) (simp add: rspSignin_MergeFrom_def Let_def)
  ultimately show ?thesis by simp
qed

lemma rspSignin_merge_new: "rspSignin_valid d m \<Longrightarrow> rspSignin_MergeFrom rspSignin_new m = m"
  by (cases m) (auto simp: rspSignin_MergeFrom_def rspSignin_new_def rspSignin_valid_def float_ok_def Let_def)

lemma rspSignin_Clear_new: "rspSignin_Clear m = rspSignin_new"
  by (simp add: rspSignin_Clear_def rspSignin_new_def)

interpretation rspSignin_msg: wire_message rspSignin_unknown "(\<lambda>v. rspSignin_unknown_update (\<lambda>_. v))" rspSignin_cases rspSignin_new rspSignin_Clear
  rspSignin_ByteSizeLong rspSignin_InternalSerializeWithCachedSizesToArray rspSignin_SerializeWithCachedSizes rspSignin_MergeFrom rspSignin_encode rspSignin_valid
  rewrites "MergeLoop rspSignin_cases rspSignin_unknown (\<lambda>v. rspSignin_unknown_update (\<lambda>_. v)) = rspSignin_MergePartialFromCodedStream"
  by unfold_locales
    (simp_all only: rspSignin_MergePartialFromCodedStream_def [symmetric] rspSignin_cases_return rspSignin_Clear_new rspSignin_size rspSignin_writes rspSignin_emits rspSignin_merges rspSignin_merge_new)

lemma rspSignin_MergeFrom_new: "rspSignin_MergeFrom m rspSignin_new = m"
  by (simp add: rspSignin_MergeFrom_def rspSignin_new_def Let_def)

lemma rspSignin_MergeFrom_assoc: "rspSignin_MergeFrom (rspSignin_MergeFrom a b) c = rspSignin_MergeFrom a (rspSignin_MergeFrom b c)"
  by (simp add: rspSignin_MergeFrom_def Let_def)

lemma rspSignin_MergeFrom_twice: "rspSignin_MergeFrom rspSignin_new \<circ> rspSignin_MergeFrom rspSignin_new = rspSignin_MergeFrom rspSignin_new"
  by (simp add: fun_eq_iff rspSignin_MergeFrom_assoc [symmetric] rspSignin_MergeFrom_new)

lemma rspSignin_CopyFrom_MergeFrom: "rspSignin_CopyFrom False m from = rspSignin_MergeFrom rspSignin_new from"
  by (simp add: rspSignin_CopyFrom_def rspSignin_Clear_new)

lemma rspSignin_InternalSwap_eq: "rspSignin_InternalSwap m other = (other, m)"
  by (simp add: rspSignin_InternalSwap_def)

section \<open>reqMove\<close>

record reqMove =
  reqMove_forward :: "float32"
  reqMove_angle :: "float32"
  reqMove_unknown :: UnknownFieldSet

definition reqMove_new :: reqMove where
  "reqMove_new = \<lparr>reqMove_forward = 0, reqMove_angle = 0, reqMove_unknown = []\<rparr>"

definition reqMove_copy :: "reqMove \<Rightarrow> reqMove" where
  "reqMove_copy from = reqMove_new\<lparr>reqMove_unknown := reqMove_unknown from,
     reqMove_forward := reqMove_forward from,
     reqMove_angle := reqMove_angle from\<rparr>"

definition reqMove_Clear :: "reqMove \<Rightarrow> reqMove" where
  "reqMove_Clear m = m\<lparr>reqMove_forward := 0, reqMove_angle := 0, reqMove_unknown := []\<rparr>"

definition reqMove_cases :: "reqMove switch" where
  "reqMove_cases tag =
     (if GetTagFieldNumber tag = 1 then
        (if (ucast tag :: byte) = 13 then Some (primitive_field ReadPrimitive_float (\<lambda>v. reqMove_forward_update (\<lambda>_. v))) else None)
      else if GetTagFieldNumber tag = 2 then
        (if (ucast tag :: byte) = 21 then Some (primitive_field ReadPrimitive_float (\<lambda>v. reqMove_angle_update (\<lambda>_. v))) else None)
      else None)"

definition reqMove_MergePartialFromCodedStream :: "reqMove \<Rightarrow> cis \<Rightarrow> reqMove result" where
  "reqMove_MergePartialFromCodedStream = MergeLoop reqMove_cases reqMove_unknown (\<lambda>v. reqMove_unknown_update (\<lambda>_. v))"

definition reqMove_SerializeWithCachedSizes :: "reqMove \<Rightarrow> cos \<Rightarrow> cos option" where
  "reqMove_SerializeWithCachedSizes m s = do {
     s \<leftarrow> (if float_nonzero (reqMove_forward m) then WriteFloat 1 (reqMove_forward m) s else Some s);
     s \<leftarrow> (if float_nonzero (reqMove_angle m) then WriteFloat 2 (reqMove_angle m) s else Some s);
     (if reqMove_unknown m \<noteq> [] \<and> GetProto3PreserveUnknownsDefault then SerializeUnknownFields (reqMove_unknown m) s else Some s)
   }"

definition reqMove_InternalSerializeWithCachedSizesToArray :: "reqMove \<Rightarrow> target \<Rightarrow> target option" where
  "reqMove_InternalSerializeWithCachedSizesToArray m t = do {
     t \<leftarrow> (if float_nonzero (reqMove_forward m) then WriteFloatToArray 1 (reqMove_forward m) t else Some t);
     t \<leftarrow> (if float_nonzero (reqMove_angle m) then WriteFloatToArray 2 (reqMove_angle m) t else Some t);
     (if reqMove_unknown m \<noteq> [] \<and> GetProto3PreserveUnknownsDefault then SerializeUnknownFieldsToArray (reqMove_unknown m) t else Some t)
   }"

definition reqMove_ByteSizeLong :: "reqMove \<Rightarrow> nat" where
  "reqMove_ByteSizeLong m =
     (if reqMove_unknown m \<noteq> [] \<and> GetProto3PreserveUnknownsDefault then ComputeUnknownFieldsSize (reqMove_unknown m) else 0) +
     (if float_nonzero (reqMove_forward m) then 1 + 4 else 0) +
     (if float_nonzero (reqMove_angle m) then 1 + 4 else 0)"

definition reqMove_MergeFrom :: "reqMove \<Rightarrow> reqMove \<Rightarrow> reqMove" where
  "reqMove_MergeFrom m from =
     (let m = m\<lparr>reqMove_unknown := reqMove_unknown m @ reqMove_unknown from\<rparr>;
          m = (if float_nonzero (reqMove_forward from) then m\<lparr>reqMove_forward := reqMove_forward from\<rparr> else m);
          m = (if float_nonzero (reqMove_angle from) then m\<lparr>reqMove_angle := reqMove_angle from\<rparr> else m)
      in m)"

text \<open>\<open>self\<close> is \<open>&from == this\<close>.\<close>

definition reqMove_CopyFrom :: "bool \<Rightarrow> reqMove \<Rightarrow> reqMove \<Rightarrow> reqMove" where
  "reqMove_CopyFrom self m from = (if self then m else reqMove_MergeFrom (reqMove_Clear m) from)"

definition reqMove_InternalSwap :: "reqMove \<Rightarrow> reqMove \<Rightarrow> reqMove \<times> reqMove" where
  "reqMove_InternalSwap m other =
     (m\<lparr>reqMove_forward := reqMove_forward other, reqMove_angle := reqMove_angle other, reqMove_unknown := reqMove_unknown other\<rparr>,
      other\<lparr>reqMove_forward := reqMove_forward m, reqMove_angle := reqMove_angle m, reqMove_unknown := reqMove_unknown m\<rparr>)"

text \<open>The wire format of the message, and the messages that survive it.\<close>

definition reqMove_encode :: "reqMove \<Rightarrow> bytes" where
  "reqMove_encode m =
     (if float_nonzero (reqMove_forward m) then tag_bytes 1 WIRETYPE_FIXED32 @ le32 (reqMove_forward m) else []) @
     (if float_nonzero (reqMove_angle m) then tag_bytes 2 WIRETYPE_FIXED32 @ le32 (reqMove_angle m) else []) @
     unknown_bytes (reqMove_unknown m)"

definition reqMove_valid :: "nat \<Rightarrow> reqMove \<Rightarrow> bool" where
  "reqMove_valid d m \<longleftrightarrow> float_ok (reqMove_forward m) \<and>
     float_ok (reqMove_angle m) \<and>
     unknown_ok d (reqMove_unknown m) \<and>
     unclaimed reqMove_cases (reqMove_unknown m)"

lemma reqMove_cases_return:
  "reqMove_cases t = Some body \<Longrightarrow> flat s \<Longrightarrow> budget_ok s \<Longrightarrow> returns s (body m s)"
  by (auto simp: reqMove_cases_def split: if_splits intro!: string_field_returns primitive_returns)

lemma reqMove_size: "reqMove_ByteSizeLong m = length (reqMove_encode m)"
  unfolding reqMove_ByteSizeLong_def reqMove_encode_def size_unknown
  by (simp add: size_simps message_size_simps)

lemma reqMove_writes: "writes (reqMove_InternalSerializeWithCachedSizesToArray m) (reqMove_encode m)"
  unfolding reqMove_InternalSerializeWithCachedSizesToArray_def [abs_def] reqMove_encode_def
  by (intro writes_bind writes_fun_if writes_unknown writes_intro)

lemma reqMove_emits:
  assumes "int (length (reqMove_encode m)) \<le> INT_MAX"
  shows "emits (reqMove_SerializeWithCachedSizes m) (reqMove_encode m)"
  unfolding reqMove_SerializeWithCachedSizes_def [abs_def] reqMove_encode_def
  by (intro emits_bind emits_fun_if emits_unknown emits_intro)

lemma reqMove_cases_values:
  "reqMove_cases (MakeTag 1 WIRETYPE_FIXED32) = Some (primitive_field ReadPrimitive_float (\<lambda>v. reqMove_forward_update (\<lambda>_. v)))"
  "reqMove_cases (MakeTag 2 WIRETYPE_FIXED32) = Some (primitive_field ReadPrimitive_float (\<lambda>v. reqMove_angle_update (\<lambda>_. v)))"
  by (simp_all add: reqMove_cases_def tag_simps)

interpretation reqMove_uf: unknown_part reqMove_unknown "(\<lambda>v. reqMove_unknown_update (\<lambda>_. v))"
  by unfold_locales simp_all

lemma reqMove_merges:
  assumes v: "reqMove_valid d m"
  shows "parses reqMove_MergePartialFromCodedStream d m0 (reqMove_encode m) (reqMove_MergeFrom m0 m)"
proof -
  let ?m1 = "if float_nonzero (reqMove_forward m) then reqMove_forward_update (\<lambda>_. reqMove_forward m) m0 else m0"
  let ?m2 = "if float_nonzero (reqMove_angle m) then reqMove_angle_update (\<lambda>_. reqMove_angle m) (?m1) else ?m1"
  let ?u = "reqMove_unknown_update (\<lambda>_. reqMove_unknown (?m2) @ reqMove_unknown m) (?m2)"
  have "parses reqMove_MergePartialFromCodedStream d m0 (reqMove_encode m) ?u"
    unfolding reqMove_encode_def reqMove_MergePartialFromCodedStream_def
    by (rule parses_append [OF parses_float [where cases_of = reqMove_cases, OF reqMove_cases_values(1)]
      parses_append [OF parses_float [where cases_of = reqMove_cases, OF reqMove_cases_values(2)]
      reqMove_uf.parses_unknown]])
      (use v in \<open>auto simp: reqMove_valid_def tag_simps unclaimedD\<close>)
  moreover have "?u = reqMove_MergeFrom m0 m"
    by (cases m0) (simp add: reqMove_MergeFrom_def Let_def)
  ultimately show ?thesis by simp
qed

lemma reqMove_merge_new: "reqMove_valid d m \<Longrightarrow> reqMove_MergeFrom reqMove_new m = m"
  by (cases m) (auto simp: reqMove_MergeFrom_def reqMove_new_def reqMove_valid_def float_ok_def Let_def)

lemma reqMove_Clear_new: "reqMove_Clear m = reqMove_new"
  by (simp add: reqMove_Clear_def reqMove_new_def)

interpretation reqMove_msg: wire_message reqMove_unknown "(\<lambda>v. reqMove_unknown_update (\<lambda>_. v))" reqMove_cases reqMove_new reqMove_Clear
  reqMove_ByteSizeLong reqMove_InternalSerializeWithCachedSizesToArray reqMove_SerializeWithCachedSizes reqMove_MergeFrom reqMove_encode reqMove_valid
  rewrites "MergeLoop reqMove_cases reqMove_unknown (\<lambda>v. reqMove_unknown_update (\<lambda>_. v)) = reqMove_MergePartialFromCodedStream"
  by unfold_locales
    (simp_all only: reqMove_MergePartialFromCodedStream_def [symmetric] reqMove_cases_return reqMove_Clear_new reqMove_size reqMove_writes reqMove_emits reqMove_merges reqMove_merge_new)

lemma reqMove_MergeFrom_new: "reqMove_MergeFrom m reqMove_new = m"
  by (simp add: reqMove_MergeFrom_def reqMove_new_def Let_def)

lemma reqMove_MergeFrom_assoc: "reqMove_MergeFrom (reqMove_MergeFrom a b) c = reqMove_MergeFrom a (reqMove_MergeFrom b c)"
  by (simp add: reqMove_MergeFrom_def Let_def)

lemma reqMove_MergeFrom_twice: "reqMove_MergeFrom reqMove_new \<circ> reqMove_MergeFrom reqMove_new = reqMove_MergeFrom reqMove_new"
  by (simp add: fun_eq_iff reqMove_MergeFrom_assoc [symmetric] reqMove_MergeFrom_new)

lemma reqMove_CopyFrom_MergeFrom: "reqMove_CopyFrom False m from = reqMove_MergeFrom reqMove_new from"
  by (simp add: reqMove_CopyFrom_def reqMove_Clear_new)

lemma reqMove_InternalSwap_eq: "reqMove_InternalSwap m other = (other, m)"
  by (simp add: reqMove_InternalSwap_def)

section \<open>rspMove\<close>

record rspMove =
  rspMove_error :: "bytes"
  rspMove_unknown :: UnknownFieldSet

definition rspMove_new :: rspMove where
  "rspMove_new = \<lparr>rspMove_error = [], rspMove_unknown = []\<rparr>"

definition rspMove_copy :: "rspMove \<Rightarrow> rspMove" where
  "rspMove_copy from = rspMove_new\<lparr>rspMove_unknown := rspMove_unknown from,
     rspMove_error := (if length (rspMove_error from) > 0 then rspMove_error from else [])\<rparr>"

definition rspMove_Clear :: "rspMove \<Rightarrow> rspMove" where
  "rspMove_Clear m = m\<lparr>rspMove_error := [], rspMove_unknown := []\<rparr>"

definition rspMove_cases :: "rspMove switch" where
  "rspMove_cases tag =
     (if GetTagFieldNumber tag = 1 then
        (if (ucast tag :: byte) = 10 then Some (string_field rspMove_error (\<lambda>v. rspMove_error_update (\<lambda>_. v))) else None)
      else None)"

definition rspMove_MergePartialFromCodedStream :: "rspMove \<Rightarrow> cis \<Rightarrow> rspMove result" where
  "rspMove_MergePartialFromCodedStream = MergeLoop rspMove_cases rspMove_unknown (\<lambda>v. rspMove_unknown_update (\<lambda>_. v))"

definition rspMove_SerializeWithCachedSizes :: "rspMove \<Rightarrow> cos \<Rightarrow> cos option" where
  "rspMove_SerializeWithCachedSizes m s = do {
     s \<leftarrow> (if length (rspMove_error m) > 0 then WriteStringMaybeAliased 1 (rspMove_error m) s else Some s);
     (if rspMove_unknown m \<noteq> [] \<and> GetProto3PreserveUnknownsDefault then SerializeUnknownFields (rspMove_unknown m) s else Some s)
   }"

definition rspMove_InternalSerializeWithCachedSizesToArray :: "rspMove \<Rightarrow> target \<Rightarrow> target option" where
  "rspMove_InternalSerializeWithCachedSizesToArray m t = do {
     t \<leftarrow> (if length (rspMove_error m) > 0 then WFL_WriteStringToArray 1 (rspMove_error m) t else Some t);
     (if rspMove_unknown m \<noteq> [] \<and> GetProto3PreserveUnknownsDefault then SerializeUnknownFieldsToArray (rspMove_unknown m) t else Some t)
   }"

definition rspMove_ByteSizeLong :: "rspMove \<Rightarrow> nat" where
  "rspMove_ByteSizeLong m =
     (if rspMove_unknown m \<noteq> [] \<and> GetProto3PreserveUnknownsDefault then ComputeUnknownFieldsSize (rspMove_unknown m) else 0) +
     (if length (rspMove_error m) > 0 then 1 + StringSize (rspMove_error m) else 0)"

definition rspMove_MergeFrom :: "rspMove \<Rightarrow> rspMove \<Rightarrow> rspMove" where
  "rspMove_MergeFrom m from =
     (let m = m\<lparr>rspMove_unknown := rspMove_unknown m @ rspMove_unknown from\<rparr>;
          m = (if length (rspMove_error from) > 0 then m\<lparr>rspMove_error := rspMove_error from\<rparr> else m)
      in m)"

text \<open>\<open>self\<close> is \<open>&from == this\<close>.\<close>

definition rspMove_CopyFrom :: "bool \<Rightarrow> rspMove \<Rightarrow> rspMove \<Rightarrow> rspMove" where
  "rspMove_CopyFrom self m from = (if self then m else rspMove_MergeFrom (rspMove_Clear m) from)"

definition rspMove_InternalSwap :: "rspMove \<Rightarrow> rspMove \<Rightarrow> rspMove \<times> rspMove" where
  "rspMove_InternalSwap m other =
     (m\<lparr>rspMove_error := rspMove_error other, rspMove_unknown := rspMove_unknown other\<rparr>,
      other\<lparr>rspMove_error := rspMove_error m, rspMove_unknown := rspMove_unknown m\<rparr>)"

text \<open>The wire format of the message, and the messages that survive it.\<close>

definition rspMove_encode :: "rspMove \<Rightarrow> bytes" where
  "rspMove_encode m =
     (if length (rspMove_error m) > 0 then tag_bytes 1 WIRETYPE_LENGTH_DELIMITED @ delimited (rspMove_error m) else []) @
     unknown_bytes (rspMove_unknown m)"

definition rspMove_valid :: "nat \<Rightarrow> rspMove \<Rightarrow> bool" where
  "rspMove_valid d m \<longleftrightarrow> string_ok (rspMove_error m) \<and>
     unknown_ok d (rspMove_unknown m) \<and>
     unclaimed rspMove_cases (rspMove_unknown m)"

lemma rspMove_cases_return:
  "rspMove_cases t = Some body \<Longrightarrow> flat s \<Longrightarrow> budget_ok s \<Longrightarrow> returns s (body m s)"
  by (auto simp: rspMove_cases_def split: if_splits intro!: string_field_returns primitive_returns)

lemma rspMove_size: "rspMove_ByteSizeLong m = length (rspMove_encode m)"
  unfolding rspMove_ByteSizeLong_def rspMove_encode_def size_unknown
  by (simp add: size_simps message_size_simps)

lemma rspMove_writes: "writes (rspMove_InternalSerializeWithCachedSizesToArray m) (rspMove_encode m)"
  unfolding rspMove_InternalSerializeWithCachedSizesToArray_def [abs_def] rspMove_encode_def
  by (intro writes_bind writes_fun_if writes_unknown writes_intro)

lemma rspMove_emits:
  assumes "int (length (rspMove_encode m)) \<le> INT_MAX"
  shows "emits (rspMove_SerializeWithCachedSizes m) (rspMove_encode m)"
  using assms
  unfolding rspMove_SerializeWithCachedSizes_def [abs_def] rspMove_encode_def
  by (intro emits_bind emits_fun_if emits_unknown emits_intro)
    (fastforce simp: delimited_def split: if_splits)+

lemma rspMove_cases_values:
  "rspMove_cases (MakeTag 1 WIRETYPE_LENGTH_DELIMITED) = Some (string_field rspMove_error (\<lambda>v. rspMove_error_update (\<lambda>_. v)))"
  by (simp_all add: rspMove_cases_def tag_simps)

interpretation rspMove_uf: unknown_part rspMove_unknown "(\<lambda>v. rspMove_unknown_update (\<lambda>_. v))"
  by unfold_locales simp_all

lemma rspMove_merges:
  assumes v: "rspMove_valid d m"
  shows "parses rspMove_MergePartialFromCodedStream d m0 (rspMove_encode m) (rspMove_MergeFrom m0 m)"
proof -
  let ?m1 = "if length (rspMove_error m) > 0 then rspMove_error_update (\<lambda>_. rspMove_error m) m0 else m0"
  let ?u = "rspMove_unknown_update (\<lambda>_. rspMove_unknown (?m1) @ rspMove_unknown m) (?m1)"
  have "parses rspMove_MergePartialFromCodedStream d m0 (rspMove_encode m) ?u"
    unfolding rspMove_encode_def rspMove_MergePartialFromCodedStream_def
    by (rule parses_append [OF parses_string [where cases_of = rspMove_cases, OF rspMove_cases_values]
      rspMove_uf.parses_unknown])
      (use v in \<open>auto simp: rspMove_valid_def tag_simps unclaimedD\<close>)
  moreover have "?u = rspMove_MergeFrom m0 m"
    by (cases m0) (simp add: rspMove_MergeFrom_def Let_def)
  ultimately show ?thesis by simp
qed

lemma rspMove_merge_new: "rspMove_valid d m \<Longrightarrow> rspMove_MergeFrom rspMove_new m = m"
  by (cases m) (auto simp: rspMove_MergeFrom_def rspMove_new_def rspMove_valid_def float_ok_def Let_def)

lemma rspMove_Clear_new: "rspMove_Clear m = rspMove_new"
  by (simp add: rspMove_Clear_def rspMove_new_def)

interpretation rspMove_msg: wire_message rspMove_unknown "(\<lambda>v. rspMove_unknown_update (\<lambda>_. v))" rspMove_cases rspMove_new rspMove_Clear
  rspMove_ByteSizeLong rspMove_InternalSerializeWithCachedSizesToArray rspMove_SerializeWithCachedSizes rspMove_MergeFrom rspMove_encode rspMove_valid
  rewrites "MergeLoop rspMove_cases rspMove_unknown (\<lambda>v. rspMove_unknown_update (\<lambda>_. v)) = rspMove_MergePartialFromCodedStream"
  by unfold_locales
    (simp_all only: rspMove_MergePartialFromCodedStream_def [symmetric] rspMove_cases_return rspMove_Clear_new rspMove_size rspMove_writes rspMove_emits rspMove_merges rspMove_merge_new)

lemma rspMove_MergeFrom_new: "rspMove_MergeFrom m rspMove_new = m"
  by (simp add: rspMove_MergeFrom_def rspMove_new_def Let_def)

lemma rspMove_MergeFrom_assoc: "rspMove_MergeFrom (rspMove_MergeFrom a b) c = rspMove_MergeFrom a (rspMove_MergeFrom b c)"
  by (simp add: rspMove_MergeFrom_def Let_def)

lemma rspMove_MergeFrom_twice: "rspMove_MergeFrom rspMove_new \<circ> rspMove_MergeFrom rspMove_new = rspMove_MergeFrom rspMove_new"
  by (simp add: fun_eq_iff rspMove_MergeFrom_assoc [symmetric] rspMove_MergeFrom_new)

lemma rspMove_CopyFrom_MergeFrom: "rspMove_CopyFrom False m from = rspMove_MergeFrom rspMove_new from"
  by (simp add: rspMove_CopyFrom_def rspMove_Clear_new)

lemma rspMove_InternalSwap_eq: "rspMove_InternalSwap m other = (other, m)"
  by (simp add: rspMove_InternalSwap_def)

section \<open>reqAlarm\<close>

record reqAlarm =
  reqAlarm_infomessage :: "bytes"
  reqAlarm_unknown :: UnknownFieldSet

definition reqAlarm_new :: reqAlarm where
  "reqAlarm_new = \<lparr>reqAlarm_infomessage = [], reqAlarm_unknown = []\<rparr>"

definition reqAlarm_copy :: "reqAlarm \<Rightarrow> reqAlarm" where
  "reqAlarm_copy from = reqAlarm_new\<lparr>reqAlarm_unknown := reqAlarm_unknown from,
     reqAlarm_infomessage := (if length (reqAlarm_infomessage from) > 0 then reqAlarm_infomessage from else [])\<rparr>"

definition reqAlarm_Clear :: "reqAlarm \<Rightarrow> reqAlarm" where
  "reqAlarm_Clear m = m\<lparr>reqAlarm_infomessage := [], reqAlarm_unknown := []\<rparr>"

definition reqAlarm_cases :: "reqAlarm switch" where
  "reqAlarm_cases tag =
     (if GetTagFieldNumber tag = 1 then
        (if (ucast tag :: byte) = 10 then Some (string_field reqAlarm_infomessage (\<lambda>v. reqAlarm_infomessage_update (\<lambda>_. v))) else None)
      else None)"

definition reqAlarm_MergePartialFromCodedStream :: "reqAlarm \<Rightarrow> cis \<Rightarrow> reqAlarm result" where
  "reqAlarm_MergePartialFromCodedStream = MergeLoop reqAlarm_cases reqAlarm_unknown (\<lambda>v. reqAlarm_unknown_update (\<lambda>_. v))"

definition reqAlarm_SerializeWithCachedSizes :: "reqAlarm \<Rightarrow> cos \<Rightarrow> cos option" where
  "reqAlarm_SerializeWithCachedSizes m s = do {
     s \<leftarrow> (if length (reqAlarm_infomessage m) > 0 then WriteStringMaybeAliased 1 (reqAlarm_infomessage m) s else Some s);
     (if reqAlarm_unknown m \<noteq> [] \<and> GetProto3PreserveUnknownsDefault then SerializeUnknownFields (reqAlarm_unknown m) s else Some s)
   }"

definition reqAlarm_InternalSerializeWithCachedSizesToArray :: "reqAlarm \<Rightarrow> target \<Rightarrow> target option" where
  "reqAlarm_InternalSerializeWithCachedSizesToArray m t = do {
     t \<leftarrow> (if length (reqAlarm_infomessage m) > 0 then WFL_WriteStringToArray 1 (reqAlarm_infomessage m) t else Some t);
     (if reqAlarm_unknown m \<noteq> [] \<and> GetProto3PreserveUnknownsDefault then SerializeUnknownFieldsToArray (reqAlarm_unknown m) t else Some t)
   }"

definition reqAlarm_ByteSizeLong :: "reqAlarm \<Rightarrow> nat" where
  "reqAlarm_ByteSizeLong m =
     (if reqAlarm_unknown m \<noteq> [] \<and> GetProto3PreserveUnknownsDefault then ComputeUnknownFieldsSize (reqAlarm_unknown m) else 0) +
     (if length (reqAlarm_infomessage m) > 0 then 1 + StringSize (reqAlarm_infomessage m) else 0)"

definition reqAlarm_MergeFrom :: "reqAlarm \<Rightarrow> reqAlarm \<Rightarrow> reqAlarm" where
  "reqAlarm_MergeFrom m from =
     (let m = m\<lparr>reqAlarm_unknown := reqAlarm_unknown m @ reqAlarm_unknown from\<rparr>;
          m = (if length (reqAlarm_infomessage from) > 0 then m\<lparr>reqAlarm_infomessage := reqAlarm_infomessage from\<rparr> else m)
      in m)"

text \<open>\<open>self\<close> is \<open>&from == this\<close>.\<close>

definition reqAlarm_CopyFrom :: "bool \<Rightarrow> reqAlarm \<Rightarrow> reqAlarm \<Rightarrow> reqAlarm" where
  "reqAlarm_CopyFrom self m from = (if self then m else reqAlarm_MergeFrom (reqAlarm_Clear m) from)"

definition reqAlarm_InternalSwap :: "reqAlarm \<Rightarrow> reqAlarm \<Rightarrow> reqAlarm \<times> reqAlarm" where
  "reqAlarm_InternalSwap m other =
     (m\<lparr>reqAlarm_infomessage := reqAlarm_infomessage other, reqAlarm_unknown := reqAlarm_unknown other\<rparr>,
      other\<lparr>reqAlarm_infomessage := reqAlarm_infomessage m, reqAlarm_unknown := reqAlarm_unknown m\<rparr>)"

text \<open>The wire format of the message, and the messages that survive it.\<close>

definition reqAlarm_encode :: "reqAlarm \<Rightarrow> bytes" where
  "reqAlarm_encode m =
     (if length (reqAlarm_infomessage m) > 0 then tag_bytes 1 WIRETYPE_LENGTH_DELIMITED @ delimited (reqAlarm_infomessage m) else []) @
     unknown_bytes (reqAlarm_unknown m)"

definition reqAlarm_valid :: "nat \<Rightarrow> reqAlarm \<Rightarrow> bool" where
  "reqAlarm_valid d m \<longleftrightarrow> string_ok (reqAlarm_infomessage m) \<and>
     unknown_ok d (reqAlarm_unknown m) \<and>
     unclaimed reqAlarm_cases (reqAlarm_unknown m)"

lemma reqAlarm_cases_return:
  "reqAlarm_cases t = Some body \<Longrightarrow> flat s \<Longrightarrow> budget_ok s \<Longrightarrow> returns s (body m s)"
  by (auto simp: reqAlarm_cases_def split: if_splits intro!: string_field_returns primitive_returns)

lemma reqAlarm_size: "reqAlarm_ByteSizeLong m = length (reqAlarm_encode m)"
  unfolding reqAlarm_ByteSizeLong_def reqAlarm_encode_def size_unknown
  by (simp add: size_simps message_size_simps)

lemma reqAlarm_writes: "writes (reqAlarm_InternalSerializeWithCachedSizesToArray m) (reqAlarm_encode m)"
  unfolding reqAlarm_InternalSerializeWithCachedSizesToArray_def [abs_def] reqAlarm_encode_def
  by (intro writes_bind writes_fun_if writes_unknown writes_intro)

lemma reqAlarm_emits:
  assumes "int (length (reqAlarm_encode m)) \<le> INT_MAX"
  shows "emits (reqAlarm_SerializeWithCachedSizes m) (reqAlarm_encode m)"
  using assms
  unfolding reqAlarm_SerializeWithCachedSizes_def [abs_def] reqAlarm_encode_def
  by (intro emits_bind emits_fun_if emits_unknown emits_intro)
    (fastforce simp: delimited_def split: if_splits)+

lemma reqAlarm_cases_values:
  "reqAlarm_cases (MakeTag 1 WIRETYPE_LENGTH_DELIMITED) = Some (string_field reqAlarm_infomessage (\<lambda>v. reqAlarm_infomessage_update (\<lambda>_. v)))"
  by (simp_all add: reqAlarm_cases_def tag_simps)

interpretation reqAlarm_uf: unknown_part reqAlarm_unknown "(\<lambda>v. reqAlarm_unknown_update (\<lambda>_. v))"
  by unfold_locales simp_all

lemma reqAlarm_merges:
  assumes v: "reqAlarm_valid d m"
  shows "parses reqAlarm_MergePartialFromCodedStream d m0 (reqAlarm_encode m) (reqAlarm_MergeFrom m0 m)"
proof -
  let ?m1 = "if length (reqAlarm_infomessage m) > 0 then reqAlarm_infomessage_update (\<lambda>_. reqAlarm_infomessage m) m0 else m0"
  let ?u = "reqAlarm_unknown_update (\<lambda>_. reqAlarm_unknown (?m1) @ reqAlarm_unknown m) (?m1)"
  have "parses reqAlarm_MergePartialFromCodedStream d m0 (reqAlarm_encode m) ?u"
    unfolding reqAlarm_encode_def reqAlarm_MergePartialFromCodedStream_def
    by (rule parses_append [OF parses_string [where cases_of = reqAlarm_cases, OF reqAlarm_cases_values]
      reqAlarm_uf.parses_unknown])
      (use v in \<open>auto simp: reqAlarm_valid_def tag_simps unclaimedD\<close>)
  moreover have "?u = reqAlarm_MergeFrom m0 m"
    by (cases m0) (simp add: reqAlarm_MergeFrom_def Let_def)
  ultimately show ?thesis by simp
qed

lemma reqAlarm_merge_new: "reqAlarm_valid d m \<Longrightarrow> reqAlarm_MergeFrom reqAlarm_new m = m"
  by (cases m) (auto simp: reqAlarm_MergeFrom_def reqAlarm_new_def reqAlarm_valid_def float_ok_def Let_def)

lemma reqAlarm_Clear_new: "reqAlarm_Clear m = reqAlarm_new"
  by (simp add: reqAlarm_Clear_def reqAlarm_new_def)

interpretation reqAlarm_msg: wire_message reqAlarm_unknown "(\<lambda>v. reqAlarm_unknown_update (\<lambda>_. v))" reqAlarm_cases reqAlarm_new reqAlarm_Clear
  reqAlarm_ByteSizeLong reqAlarm_InternalSerializeWithCachedSizesToArray reqAlarm_SerializeWithCachedSizes reqAlarm_MergeFrom reqAlarm_encode reqAlarm_valid
  rewrites "MergeLoop reqAlarm_cases reqAlarm_unknown (\<lambda>v. reqAlarm_unknown_update (\<lambda>_. v)) = reqAlarm_MergePartialFromCodedStream"
  by unfold_locales
    (simp_all only: reqAlarm_MergePartialFromCodedStream_def [symmetric] reqAlarm_cases_return reqAlarm_Clear_new reqAlarm_size reqAlarm_writes reqAlarm_emits reqAlarm_merges reqAlarm_merge_new)

lemma reqAlarm_MergeFrom_new: "reqAlarm_MergeFrom m reqAlarm_new = m"
  by (simp add: reqAlarm_MergeFrom_def reqAlarm_new_def Let_def)

lemma reqAlarm_MergeFrom_assoc: "reqAlarm_MergeFrom (reqAlarm_MergeFrom a b) c = reqAlarm_MergeFrom a (reqAlarm_MergeFrom b c)"
  by (simp add: reqAlarm_MergeFrom_def Let_def)

lemma reqAlarm_MergeFrom_twice: "reqAlarm_MergeFrom reqAlarm_new \<circ> reqAlarm_MergeFrom reqAlarm_new = reqAlarm_MergeFrom reqAlarm_new"
  by (simp add: fun_eq_iff reqAlarm_MergeFrom_assoc [symmetric] reqAlarm_MergeFrom_new)

lemma reqAlarm_CopyFrom_MergeFrom: "reqAlarm_CopyFrom False m from = reqAlarm_MergeFrom reqAlarm_new from"
  by (simp add: reqAlarm_CopyFrom_def reqAlarm_Clear_new)

lemma reqAlarm_InternalSwap_eq: "reqAlarm_InternalSwap m other = (other, m)"
  by (simp add: reqAlarm_InternalSwap_def)

section \<open>rspAlarm\<close>

record rspAlarm =
  rspAlarm_error :: "bytes"
  rspAlarm_unknown :: UnknownFieldSet

definition rspAlarm_new :: rspAlarm where
  "rspAlarm_new = \<lparr>rspAlarm_error = [], rspAlarm_unknown = []\<rparr>"

definition rspAlarm_copy :: "rspAlarm \<Rightarrow> rspAlarm" where
  "rspAlarm_copy from = rspAlarm_new\<lparr>rspAlarm_unknown := rspAlarm_unknown from,
     rspAlarm_error := (if length (rspAlarm_error from) > 0 then rspAlarm_error from else [])\<rparr>"

definition rspAlarm_Clear :: "rspAlarm \<Rightarrow> rspAlarm" where
  "rspAlarm_Clear m = m\<lparr>rspAlarm_error := [], rspAlarm_unknown := []\<rparr>"

definition rspAlarm_cases :: "rspAlarm switch" where
  "rspAlarm_cases tag =
     (if GetTagFieldNumber tag = 1 then
        (if (ucast tag :: byte) = 10 then Some (string_field rspAlarm_error (\<lambda>v. rspAlarm_error_update (\<lambda>_. v))) else None)
      else None)"

definition rspAlarm_MergePartialFromCodedStream :: "rspAlarm \<Rightarrow> cis \<Rightarrow> rspAlarm result" where
  "rspAlarm_MergePartialFromCodedStream = MergeLoop rspAlarm_cases rspAlarm_unknown (\<lambda>v. rspAlarm_unknown_update (\<lambda>_. v))"

definition rspAlarm_SerializeWithCachedSizes :: "rspAlarm \<Rightarrow> cos \<Rightarrow> cos option" where
  "rspAlarm_SerializeWithCachedSizes m s = do {
     s \<leftarrow> (if length (rspAlarm_error m) > 0 then WriteStringMaybeAliased 1 (rspAlarm_error m) s else Some s);
     (if rspAlarm_unknown m \<noteq> [] \<and> GetProto3PreserveUnknownsDefault then SerializeUnknownFields (rspAlarm_unknown m) s else Some s)
   }"

definition rspAlarm_InternalSerializeWithCachedSizesToArray :: "rspAlarm \<Rightarrow> target \<Rightarrow> target option" where
  "rspAlarm_InternalSerializeWithCachedSizesToArray m t = do {
     t \<leftarrow> (if length (rspAlarm_error m) > 0 then WFL_WriteStringToArray 1 (rspAlarm_error m) t else Some t);
     (if rspAlarm_unknown m \<noteq> [] \<and> GetProto3PreserveUnknownsDefault then SerializeUnknownFieldsToArray (rspAlarm_unknown m) t else Some t)
   }"

definition rspAlarm_ByteSizeLong :: "rspAlarm \<Rightarrow> nat" where
  "rspAlarm_ByteSizeLong m =
     (if rspAlarm_unknown m \<noteq> [] \<and> GetProto3PreserveUnknownsDefault then ComputeUnknownFieldsSize (rspAlarm_unknown m) else 0) +
     (if length (rspAlarm_error m) > 0 then 1 + StringSize (rspAlarm_error m) else 0)"

definition rspAlarm_MergeFrom :: "rspAlarm \<Rightarrow> rspAlarm \<Rightarrow> rspAlarm" where
  "rspAlarm_MergeFrom m from =
     (let m = m\<lparr>rspAlarm_unknown := rspAlarm_unknown m @ rspAlarm_unknown from\<rparr>;
          m = (if length (rspAlarm_error from) > 0 then m\<lparr>rspAlarm_error := rspAlarm_error from\<rparr> else m)
      in m)"

text \<open>\<open>self\<close> is \<open>&from == this\<close>.\<close>

definition rspAlarm_CopyFrom :: "bool \<Rightarrow> rspAlarm \<Rightarrow> rspAlarm \<Rightarrow> rspAlarm" where
  "rspAlarm_CopyFrom self m from = (if self then m else rspAlarm_MergeFrom (rspAlarm_Clear m) from)"

definition rspAlarm_InternalSwap :: "rspAlarm \<Rightarrow> rspAlarm \<Rightarrow> rspAlarm \<times> rspAlarm" where
  "rspAlarm_InternalSwap m other =
     (m\<lparr>rspAlarm_error := rspAlarm_error other, rspAlarm_unknown := rspAlarm_unknown other\<rparr>,
      other\<lparr>rspAlarm_error := rspAlarm_error m, rspAlarm_unknown := rspAlarm_unknown m\<rparr>)"

text \<open>The wire format of the message, and the messages that survive it.\<close>

definition rspAlarm_encode :: "rspAlarm \<Rightarrow> bytes" where
  "rspAlarm_encode m =
     (if length (rspAlarm_error m) > 0 then tag_bytes 1 WIRETYPE_LENGTH_DELIMITED @ delimited (rspAlarm_error m) else []) @
     unknown_bytes (rspAlarm_unknown m)"

definition rspAlarm_valid :: "nat \<Rightarrow> rspAlarm \<Rightarrow> bool" where
  "rspAlarm_valid d m \<longleftrightarrow> string_ok (rspAlarm_error m) \<and>
     unknown_ok d (rspAlarm_unknown m) \<and>
     unclaimed rspAlarm_cases (rspAlarm_unknown m)"

lemma rspAlarm_cases_return:
  "rspAlarm_cases t = Some body \<Longrightarrow> flat s \<Longrightarrow> budget_ok s \<Longrightarrow> returns s (body m s)"
  by (auto simp: rspAlarm_cases_def split: if_splits intro!: string_field_returns primitive_returns)

lemma rspAlarm_size: "rspAlarm_ByteSizeLong m = length (rspAlarm_encode m)"
  unfolding rspAlarm_ByteSizeLong_def rspAlarm_encode_def size_unknown
  by (simp add: size_simps message_size_simps)

lemma rspAlarm_writes: "writes (rspAlarm_InternalSerializeWithCachedSizesToArray m) (rspAlarm_encode m)"
  unfolding rspAlarm_InternalSerializeWithCachedSizesToArray_def [abs_def] rspAlarm_encode_def
  by (intro writes_bind writes_fun_if writes_unknown writes_intro)

lemma rspAlarm_emits:
  assumes "int (length (rspAlarm_encode m)) \<le> INT_MAX"
  shows "emits (rspAlarm_SerializeWithCachedSizes m) (rspAlarm_encode m)"
  using assms
  unfolding rspAlarm_SerializeWithCachedSizes_def [abs_def] rspAlarm_encode_def
  by (intro emits_bind emits_fun_if emits_unknown emits_intro)
    (fastforce simp: delimited_def split: if_splits)+

lemma rspAlarm_cases_values:
  "rspAlarm_cases (MakeTag 1 WIRETYPE_LENGTH_DELIMITED) = Some (string_field rspAlarm_error (\<lambda>v. rspAlarm_error_update (\<lambda>_. v)))"
  by (simp_all add: rspAlarm_cases_def tag_simps)

interpretation rspAlarm_uf: unknown_part rspAlarm_unknown "(\<lambda>v. rspAlarm_unknown_update (\<lambda>_. v))"
  by unfold_locales simp_all

lemma rspAlarm_merges:
  assumes v: "rspAlarm_valid d m"
  shows "parses rspAlarm_MergePartialFromCodedStream d m0 (rspAlarm_encode m) (rspAlarm_MergeFrom m0 m)"
proof -
  let ?m1 = "if length (rspAlarm_error m) > 0 then rspAlarm_error_update (\<lambda>_. rspAlarm_error m) m0 else m0"
  let ?u = "rspAlarm_unknown_update (\<lambda>_. rspAlarm_unknown (?m1) @ rspAlarm_unknown m) (?m1)"
  have "parses rspAlarm_MergePartialFromCodedStream d m0 (rspAlarm_encode m) ?u"
    unfolding rspAlarm_encode_def rspAlarm_MergePartialFromCodedStream_def
    by (rule parses_append [OF parses_string [where cases_of = rspAlarm_cases, OF rspAlarm_cases_values]
      rspAlarm_uf.parses_unknown])
      (use v in \<open>auto simp: rspAlarm_valid_def tag_simps unclaimedD\<close>)
  moreover have "?u = rspAlarm_MergeFrom m0 m"
    by (cases m0) (simp add: rspAlarm_MergeFrom_def Let_def)
  ultimately show ?thesis by simp
qed

lemma rspAlarm_merge_new: "rspAlarm_valid d m \<Longrightarrow> rspAlarm_MergeFrom rspAlarm_new m = m"
  by (cases m) (auto simp: rspAlarm_MergeFrom_def rspAlarm_new_def rspAlarm_valid_def float_ok_def Let_def)

lemma rspAlarm_Clear_new: "rspAlarm_Clear m = rspAlarm_new"
  by (simp add: rspAlarm_Clear_def rspAlarm_new_def)

interpretation rspAlarm_msg: wire_message rspAlarm_unknown "(\<lambda>v. rspAlarm_unknown_update (\<lambda>_. v))" rspAlarm_cases rspAlarm_new rspAlarm_Clear
  rspAlarm_ByteSizeLong rspAlarm_InternalSerializeWithCachedSizesToArray rspAlarm_SerializeWithCachedSizes rspAlarm_MergeFrom rspAlarm_encode rspAlarm_valid
  rewrites "MergeLoop rspAlarm_cases rspAlarm_unknown (\<lambda>v. rspAlarm_unknown_update (\<lambda>_. v)) = rspAlarm_MergePartialFromCodedStream"
  by unfold_locales
    (simp_all only: rspAlarm_MergePartialFromCodedStream_def [symmetric] rspAlarm_cases_return rspAlarm_Clear_new rspAlarm_size rspAlarm_writes rspAlarm_emits rspAlarm_merges rspAlarm_merge_new)

lemma rspAlarm_MergeFrom_new: "rspAlarm_MergeFrom m rspAlarm_new = m"
  by (simp add: rspAlarm_MergeFrom_def rspAlarm_new_def Let_def)

lemma rspAlarm_MergeFrom_assoc: "rspAlarm_MergeFrom (rspAlarm_MergeFrom a b) c = rspAlarm_MergeFrom a (rspAlarm_MergeFrom b c)"
  by (simp add: rspAlarm_MergeFrom_def Let_def)

lemma rspAlarm_MergeFrom_twice: "rspAlarm_MergeFrom rspAlarm_new \<circ> rspAlarm_MergeFrom rspAlarm_new = rspAlarm_MergeFrom rspAlarm_new"
  by (simp add: fun_eq_iff rspAlarm_MergeFrom_assoc [symmetric] rspAlarm_MergeFrom_new)

lemma rspAlarm_CopyFrom_MergeFrom: "rspAlarm_CopyFrom False m from = rspAlarm_MergeFrom rspAlarm_new from"
  by (simp add: rspAlarm_CopyFrom_def rspAlarm_Clear_new)

lemma rspAlarm_InternalSwap_eq: "rspAlarm_InternalSwap m other = (other, m)"
  by (simp add: rspAlarm_InternalSwap_def)

end
