(* ===== verification/BaseCmdUser.thy ===== *)
theory BaseCmdUser
  imports BaseCmd
begin

text \<open>
  The generated message classes of the sign-in request, nested two levels deep:
  \<open>reqSignin\<close> holds \<open>sUser\<close>s, which hold \<open>sUser_ePhoneNumber\<close>s.  Conventions as in
  theory BaseCmd.
\<close>

section \<open>sUser_ePhoneNumber\<close>

record sUser_ePhoneNumber =
  sUser_ePhoneNumber_number :: "bytes"
  sUser_ePhoneNumber_type :: "int32"
  sUser_ePhoneNumber_unknown :: UnknownFieldSet

definition sUser_ePhoneNumber_new :: sUser_ePhoneNumber where
  "sUser_ePhoneNumber_new = \<lparr>sUser_ePhoneNumber_number = [], sUser_ePhoneNumber_type = 0, sUser_ePhoneNumber_unknown = []\<rparr>"

definition sUser_ePhoneNumber_copy :: "sUser_ePhoneNumber \<Rightarrow> sUser_ePhoneNumber" where
  "sUser_ePhoneNumber_copy from = sUser_ePhoneNumber_new\<lparr>sUser_ePhoneNumber_unknown := sUser_ePhoneNumber_unknown from,
     sUser_ePhoneNumber_number := (if length (sUser_ePhoneNumber_number from) > 0 then sUser_ePhoneNumber_number from else []),
     sUser_ePhoneNumber_type := sUser_ePhoneNumber_type from\<rparr>"

definition sUser_ePhoneNumber_Clear :: "sUser_ePhoneNumber \<Rightarrow> sUser_ePhoneNumber" where
  "sUser_ePhoneNumber_Clear m = m\<lparr>sUser_ePhoneNumber_number := [], sUser_ePhoneNumber_type := 0, sUser_ePhoneNumber_unknown := []\<rparr>"

definition sUser_ePhoneNumber_cases :: "sUser_ePhoneNumber switch" where
  "sUser_ePhoneNumber_cases tag =
     (if GetTagFieldNumber tag = 1 then
        (if (ucast tag :: byte) = 10 then Some (string_field sUser_ePhoneNumber_number (\<lambda>v. sUser_ePhoneNumber_number_update (\<lambda>_. v))) else None)
      else if GetTagFieldNumber tag = 2 then
        (if (ucast tag :: byte) = 16 then Some (primitive_field ReadPrimitive_enum (\<lambda>v. sUser_ePhoneNumber_type_update (\<lambda>_. v))) else None)
      else None)"

definition sUser_ePhoneNumber_MergePartialFromCodedStream :: "sUser_ePhoneNumber \<Rightarrow> cis \<Rightarrow> sUser_ePhoneNumber result" where
  "sUser_ePhoneNumber_MergePartialFromCodedStream = MergeLoop sUser_ePhoneNumber_cases sUser_ePhoneNumber_unknown (\<lambda>v. sUser_ePhoneNumber_unknown_update (\<lambda>_. v))"

definition sUser_ePhoneNumber_SerializeWithCachedSizes :: "sUser_ePhoneNumber \<Rightarrow> cos \<Rightarrow> cos option" where
  "sUser_ePhoneNumber_SerializeWithCachedSizes m s = do {
     s \<leftarrow> (if length (sUser_ePhoneNumber_number m) > 0 then WriteStringMaybeAliased 1 (sUser_ePhoneNumber_number m) s else Some s);
     s \<leftarrow> (if sUser_ePhoneNumber_type m \<noteq> 0 then WriteEnum 2 (sUser_ePhoneNumber_type m) s else Some s);
     (if sUser_ePhoneNumber_unknown m \<noteq> [] \<and> GetProto3PreserveUnknownsDefault then SerializeUnknownFields (sUser_ePhoneNumber_unknown m) s else Some s)
   }"

definition sUser_ePhoneNumber_InternalSerializeWithCachedSizesToArray :: "sUser_ePhoneNumber \<Rightarrow> target \<Rightarrow> target option" where
  "sUser_ePhoneNumber_InternalSerializeWithCachedSizesToArray m t = do {
     t \<leftarrow> (if length (sUser_ePhoneNumber_number m) > 0 then WFL_WriteStringToArray 1 (sUser_ePhoneNumber_number m) t else Some t);
     t \<leftarrow> (if sUser_ePhoneNumber_type m \<noteq> 0 then WriteEnumToArray 2 (sUser_ePhoneNumber_type m) t else Some t);
     (if sUser_ePhoneNumber_unknown m \<noteq> [] \<and> GetProto3PreserveUnknownsDefault then SerializeUnknownFieldsToArray (sUser_ePhoneNumber_unknown m) t else Some t)
   }"

definition sUser_ePhoneNumber_ByteSizeLong :: "sUser_ePhoneNumber \<Rightarrow> nat" where
  "sUser_ePhoneNumber_ByteSizeLong m =
     (if sUser_ePhoneNumber_unknown m \<noteq> [] \<and> GetProto3PreserveUnknownsDefault then ComputeUnknownFieldsSize (sUser_ePhoneNumber_unknown m) else 0) +
     (if length (sUser_ePhoneNumber_number m) > 0 then 1 + StringSize (sUser_ePhoneNumber_number m) else 0) +
     (if sUser_ePhoneNumber_type m \<noteq> 0 then 1 + EnumSize (sUser_ePhoneNumber_type m) else 0)"

definition sUser_ePhoneNumber_MergeFrom :: "sUser_ePhoneNumber \<Rightarrow> sUser_ePhoneNumber \<Rightarrow> sUser_ePhoneNumber" where
  "sUser_ePhoneNumber_MergeFrom m from =
     (let m = m\<lparr>sUser_ePhoneNumber_unknown := sUser_ePhoneNumber_unknown m @ sUser_ePhoneNumber_unknown from\<rparr>;
          m = (if length (sUser_ePhoneNumber_number from) > 0 then m\<lparr>sUser_ePhoneNumber_number := sUser_ePhoneNumber_number from\<rparr> else m);
          m = (if sUser_ePhoneNumber_type from \<noteq> 0 then m\<lparr>sUser_ePhoneNumber_type := sUser_ePhoneNumber_type from\<rparr> else m)
      in m)"

text \<open>\<open>self\<close> is \<open>&from == this\<close>.\<close>

definition sUser_ePhoneNumber_CopyFrom :: "bool \<Rightarrow> sUser_ePhoneNumber \<Rightarrow> sUser_ePhoneNumber \<Rightarrow> sUser_ePhoneNumber" where
  "sUser_ePhoneNumber_CopyFrom self m from = (if self then m else sUser_ePhoneNumber_MergeFrom (sUser_ePhoneNumber_Clear m) from)"

definition sUser_ePhoneNumber_InternalSwap :: "sUser_ePhoneNumber \<Rightarrow> sUser_ePhoneNumber \<Rightarrow> sUser_ePhoneNumber \<times> sUser_ePhoneNumber" where
  "sUser_ePhoneNumber_InternalSwap m other =
     (m\<lparr>sUser_ePhoneNumber_number := sUser_ePhoneNumber_number other, sUser_ePhoneNumber_type := sUser_ePhoneNumber_type other, sUser_ePhoneNumber_unknown := sUser_ePhoneNumber_unknown other\<rparr>,
      other\<lparr>sUser_ePhoneNumber_number := sUser_ePhoneNumber_number m, sUser_ePhoneNumber_type := sUser_ePhoneNumber_type m, sUser_ePhoneNumber_unknown := sUser_ePhoneNumber_unknown m\<rparr>)"

text \<open>The wire format of the message, and the messages that survive it.\<close>

definition sUser_ePhoneNumber_encode :: "sUser_ePhoneNumber \<Rightarrow> bytes" where
  "sUser_ePhoneNumber_encode m =
     (if length (sUser_ePhoneNumber_number m) > 0 then tag_bytes 1 WIRETYPE_LENGTH_DELIMITED @ delimited (sUser_ePhoneNumber_number m) else []) @
     (if sUser_ePhoneNumber_type m \<noteq> 0 then tag_bytes 2 WIRETYPE_VARINT @ varint (unat (scast (sUser_ePhoneNumber_type m) :: uint64)) else []) @
     unknown_bytes (sUser_ePhoneNumber_unknown m)"

definition sUser_ePhoneNumber_valid :: "nat \<Rightarrow> sUser_ePhoneNumber \<Rightarrow> bool" where
  "sUser_ePhoneNumber_valid d m \<longleftrightarrow> string_ok (sUser_ePhoneNumber_number m) \<and>
     unknown_ok d (sUser_ePhoneNumber_unknown m) \<and>
     unclaimed sUser_ePhoneNumber_cases (sUser_ePhoneNumber_unknown m)"

lemma sUser_ePhoneNumber_cases_return:
  "sUser_ePhoneNumber_cases t = Some body \<Longrightarrow> flat s \<Longrightarrow> budget_ok s \<Longrightarrow> returns s (body m s)"
  by (auto simp: sUser_ePhoneNumber_cases_def split: if_splits intro!: string_field_returns primitive_returns)

lemma sUser_ePhoneNumber_size: "sUser_ePhoneNumber_ByteSizeLong m = length (sUser_ePhoneNumber_encode m)"
  unfolding sUser_ePhoneNumber_ByteSizeLong_def sUser_ePhoneNumber_encode_def size_unknown
  by (simp add: size_simps message_size_simps)

lemma sUser_ePhoneNumber_writes: "writes (sUser_ePhoneNumber_InternalSerializeWithCachedSizesToArray m) (sUser_ePhoneNumber_encode m)"
  unfolding sUser_ePhoneNumber_InternalSerializeWithCachedSizesToArray_def [abs_def] sUser_ePhoneNumber_encode_def
  by (intro writes_bind writes_fun_if writes_unknown writes_intro)

lemma sUser_ePhoneNumber_emits:
  assumes "int (length (sUser_ePhoneNumber_encode m)) \<le> INT_MAX"
  shows "emits (sUser_ePhoneNumber_SerializeWithCachedSizes m) (sUser_ePhoneNumber_encode m)"
  using assms
  unfolding sUser_ePhoneNumber_SerializeWithCachedSizes_def [abs_def] sUser_ePhoneNumber_encode_def
  by (intro emits_bind emits_fun_if emits_unknown emits_intro)
    (fastforce simp: delimited_def split: if_splits)+

lemma sUser_ePhoneNumber_cases_values:
  "sUser_ePhoneNumber_cases (MakeTag 1 WIRETYPE_LENGTH_DELIMITED) = Some (string_field sUser_ePhoneNumber_number (\<lambda>v. sUser_ePhoneNumber_number_update (\<lambda>_. v)))"
  "sUser_ePhoneNumber_cases (MakeTag 2 WIRETYPE_VARINT) = Some (primitive_field ReadPrimitive_enum (\<lambda>v. sUser_ePhoneNumber_type_update (\<lambda>_. v)))"
  by (simp_all add: sUser_ePhoneNumber_cases_def tag_simps)

interpretation sUser_ePhoneNumber_uf: unknown_part sUser_ePhoneNumber_unknown "(\<lambda>v. sUser_ePhoneNumber_unknown_update (\<lambda>_. v))"
  by unfold_locales simp_all

lemma sUser_ePhoneNumber_merges:
  assumes v: "sUser_ePhoneNumber_valid d m"
  shows "parses sUser_ePhoneNumber_MergePartialFromCodedStream d m0 (sUser_ePhoneNumber_encode m) (sUser_ePhoneNumber_MergeFrom m0 m)"
proof -
  let ?m1 = "if length (sUser_ePhoneNumber_number m) > 0 then sUser_ePhoneNumber_number_update (\<lambda>_. sUser_ePhoneNumber_number m) m0 else m0"
  let ?m2 = "if sUser_ePhoneNumber_type m \<noteq> 0 then sUser_ePhoneNumber_type_update (\<lambda>_. sUser_ePhoneNumber_type m) (?m1) else ?m1"
  let ?u = "sUser_ePhoneNumber_unknown_update (\<lambda>_. sUser_ePhoneNumber_unknown (?m2) @ sUser_ePhoneNumber_unknown m) (?m2)"
  have "parses sUser_ePhoneNumber_MergePartialFromCodedStream d m0 (sUser_ePhoneNumber_encode m) ?u"
    unfolding sUser_ePhoneNumber_encode_def sUser_ePhoneNumber_MergePartialFromCodedStream_def
    by (rule parses_append [OF parses_string [where cases_of = sUser_ePhoneNumber_cases, OF sUser_ePhoneNumber_cases_values(1)]
      parses_append [OF parses_enum [where cases_of = sUser_ePhoneNumber_cases, OF sUser_ePhoneNumber_cases_values(2)]
      sUser_ePhoneNumber_uf.parses_unknown]])
      (use v in \<open>auto simp: sUser_ePhoneNumber_valid_def tag_simps unclaimedD\<close>)
  moreover have "?u = sUser_ePhoneNumber_MergeFrom m0 m"
    by (cases m0) (simp add: sUser_ePhoneNumber_MergeFrom_def Let_def)
  ultimately show ?thesis by simp
qed

lemma sUser_ePhoneNumber_merge_new: "sUser_ePhoneNumber_valid d m \<Longrightarrow> sUser_ePhoneNumber_MergeFrom sUser_ePhoneNumber_new m = m"
  by (cases m) (auto simp: sUser_ePhoneNumber_MergeFrom_def sUser_ePhoneNumber_new_def sUser_ePhoneNumber_valid_def float_ok_def Let_def)

lemma sUser_ePhoneNumber_Clear_new: "sUser_ePhoneNumber_Clear m = sUser_ePhoneNumber_new"
  by (simp add: sUser_ePhoneNumber_Clear_def sUser_ePhoneNumber_new_def)

interpretation sUser_ePhoneNumber_msg: wire_message sUser_ePhoneNumber_unknown "(\<lambda>v. sUser_ePhoneNumber_unknown_update (\<lambda>_. v))" sUser_ePhoneNumber_cases sUser_ePhoneNumber_new sUser_ePhoneNumber_Clear
  sUser_ePhoneNumber_ByteSizeLong sUser_ePhoneNumber_InternalSerializeWithCachedSizesToArray sUser_ePhoneNumber_SerializeWithCachedSizes sUser_ePhoneNumber_MergeFrom sUser_ePhoneNumber_encode sUser_ePhoneNumber_valid
  rewrites "MergeLoop sUser_ePhoneNumber_cases sUser_ePhoneNumber_unknown (\<lambda>v. sUser_ePhoneNumber_unknown_update (\<lambda>_. v)) = sUser_ePhoneNumber_MergePartialFromCodedStream"
  by unfold_locales
    (simp_all only: sUser_ePhoneNumber_MergePartialFromCodedStream_def [symmetric] sUser_ePhoneNumber_cases_return sUser_ePhoneNumber_Clear_new sUser_ePhoneNumber_size sUser_ePhoneNumber_writes sUser_ePhoneNumber_emits sUser_ePhoneNumber_merges sUser_ePhoneNumber_merge_new)

lemma sUser_ePhoneNumber_MergeFrom_new: "sUser_ePhoneNumber_MergeFrom m sUser_ePhoneNumber_new = m"
  by (simp add: sUser_ePhoneNumber_MergeFrom_def sUser_ePhoneNumber_new_def Let_def)

lemma sUser_ePhoneNumber_MergeFrom_assoc: "sUser_ePhoneNumber_MergeFrom (sUser_ePhoneNumber_MergeFrom a b) c = sUser_ePhoneNumber_MergeFrom a (sUser_ePhoneNumber_MergeFrom b c)"
  by (simp add: sUser_ePhoneNumber_MergeFrom_def Let_def)

lemma sUser_ePhoneNumber_MergeFrom_twice: "sUser_ePhoneNumber_MergeFrom sUser_ePhoneNumber_new \<circ> sUser_ePhoneNumber_MergeFrom sUser_ePhoneNumber_new = sUser_ePhoneNumber_MergeFrom sUser_ePhoneNumber_new"
  by (simp add: fun_eq_iff sUser_ePhoneNumber_MergeFrom_assoc [symmetric] sUser_ePhoneNumber_MergeFrom_new)

lemma sUser_ePhoneNumber_CopyFrom_MergeFrom: "sUser_ePhoneNumber_CopyFrom False m from = sUser_ePhoneNumber_MergeFrom sUser_ePhoneNumber_new from"
  by (simp add: sUser_ePhoneNumber_CopyFrom_def sUser_ePhoneNumber_Clear_new)

lemma sUser_ePhoneNumber_InternalSwap_eq: "sUser_ePhoneNumber_InternalSwap m other = (other, m)"
  by (simp add: sUser_ePhoneNumber_InternalSwap_def)

section \<open>sUser\<close>

record sUser =
  sUser_name :: "bytes"
  sUser_id :: "int32"
  sUser_email :: "bytes"
  sUser_phones :: "sUser_ePhoneNumber list"
  sUser_unknown :: UnknownFieldSet

definition sUser_new :: sUser where
  "sUser_new = \<lparr>sUser_name = [], sUser_id = 0, sUser_email = [], sUser_phones = [], sUser_unknown = []\<rparr>"

definition sUser_copy :: "sUser \<Rightarrow> sUser" where
  "sUser_copy from = sUser_new\<lparr>sUser_unknown := sUser_unknown from,
     sUser_phones := map (sUser_ePhoneNumber_MergeFrom sUser_ePhoneNumber_new) (sUser_phones from),
     sUser_name := (if length (sUser_name from) > 0 then sUser_name from else []),
     sUser_email := (if length (sUser_email from) > 0 then sUser_email from else []),
     sUser_id := sUser_id from\<rparr>"

definition sUser_Clear :: "sUser \<Rightarrow> sUser" where
  "sUser_Clear m = m\<lparr>sUser_phones := [], sUser_name := [], sUser_email := [], sUser_id := 0, sUser_unknown := []\<rparr>"

definition sUser_cases :: "sUser switch" where
  "sUser_cases tag =
     (if GetTagFieldNumber tag = 1 then
        (if (ucast tag :: byte) = 10 then Some (string_field sUser_name (\<lambda>v. sUser_name_update (\<lambda>_. v))) else None)
      else if GetTagFieldNumber tag = 2 then
        (if (ucast tag :: byte) = 16 then Some (primitive_field ReadPrimitive_int32 (\<lambda>v. sUser_id_update (\<lambda>_. v))) else None)
      else if GetTagFieldNumber tag = 3 then
        (if (ucast tag :: byte) = 26 then Some (string_field sUser_email (\<lambda>v. sUser_email_update (\<lambda>_. v))) else None)
      else if GetTagFieldNumber tag = 4 then
        (if (ucast tag :: byte) = 34 then Some (repeated_field sUser_ePhoneNumber_MergePartialFromCodedStream sUser_ePhoneNumber_new sUser_phones (\<lambda>v. sUser_phones_update (\<lambda>_. v))) else None)
      else None)"

definition sUser_MergePartialFromCodedStream :: "sUser \<Rightarrow> cis \<Rightarrow> sUser result" where
  "sUser_MergePartialFromCodedStream = MergeLoop sUser_cases sUser_unknown (\<lambda>v. sUser_unknown_update (\<lambda>_. v))"

definition sUser_SerializeWithCachedSizes :: "sUser \<Rightarrow> cos \<Rightarrow> cos option" where
  "sUser_SerializeWithCachedSizes m s = do {
     s \<leftarrow> (if length (sUser_name m) > 0 then WriteStringMaybeAliased 1 (sUser_name m) s else Some s);
     s \<leftarrow> (if sUser_id m \<noteq> 0 then WriteInt32 2 (sUser_id m) s else Some s);
     s \<leftarrow> (if length (sUser_email m) > 0 then WriteStringMaybeAliased 3 (sUser_email m) s else Some s);
     s \<leftarrow> write_each (\<lambda>e. WriteMessageMaybeToArray (sUser_ePhoneNumber_InternalSerializeWithCachedSizesToArray e) (sUser_ePhoneNumber_SerializeWithCachedSizes e) (sUser_ePhoneNumber_ByteSizeLong e) 4) (sUser_phones m) s;
     (if sUser_unknown m \<noteq> [] \<and> GetProto3PreserveUnknownsDefault then SerializeUnknownFields (sUser_unknown m) s else Some s)
   }"

definition sUser_InternalSerializeWithCachedSizesToArray :: "sUser \<Rightarrow> target \<Rightarrow> target option" where
  "sUser_InternalSerializeWithCachedSizesToArray m t = do {
     t \<leftarrow> (if length (sUser_name m) > 0 then WFL_WriteStringToArray 1 (sUser_name m) t else Some t);
     t \<leftarrow> (if sUser_id m \<noteq> 0 then WriteInt32ToArray 2 (sUser_id m) t else Some t);
     t \<leftarrow> (if length (sUser_email m) > 0 then WFL_WriteStringToArray 3 (sUser_email m) t else Some t);
     t \<leftarrow> write_each (\<lambda>e. InternalWriteMessageToArray (sUser_ePhoneNumber_InternalSerializeWithCachedSizesToArray e) (sUser_ePhoneNumber_ByteSizeLong e) 4) (sUser_phones m) t;
     (if sUser_unknown m \<noteq> [] \<and> GetProto3PreserveUnknownsDefault then SerializeUnknownFieldsToArray (sUser_unknown m) t else Some t)
   }"

definition sUser_ByteSizeLong :: "sUser \<Rightarrow> nat" where
  "sUser_ByteSizeLong m =
     (if sUser_unknown m \<noteq> [] \<and> GetProto3PreserveUnknownsDefault then ComputeUnknownFieldsSize (sUser_unknown m) else 0) +
     (1 * length (sUser_phones m) + sum_list (map (\<lambda>e. MessageSize (sUser_ePhoneNumber_ByteSizeLong e)) (sUser_phones m))) +
     (if length (sUser_name m) > 0 then 1 + StringSize (sUser_name m) else 0) +
     (if length (sUser_email m) > 0 then 1 + StringSize (sUser_email m) else 0) +
     (if sUser_id m \<noteq> 0 then 1 + Int32Size (sUser_id m) else 0)"

definition sUser_MergeFrom :: "sUser \<Rightarrow> sUser \<Rightarrow> sUser" where
  "sUser_MergeFrom m from =
     (let m = m\<lparr>sUser_unknown := sUser_unknown m @ sUser_unknown from\<rparr>;
          m = m\<lparr>sUser_phones := sUser_phones m @ map (sUser_ePhoneNumber_MergeFrom sUser_ePhoneNumber_new) (sUser_phones from)\<rparr>;
          m = (if length (sUser_name from) > 0 then m\<lparr>sUser_name := sUser_name from\<rparr> else m);
          m = (if length (sUser_email from) > 0 then m\<lparr>sUser_email := sUser_email from\<rparr> else m);
          m = (if sUser_id from \<noteq> 0 then m\<lparr>sUser_id := sUser_id from\<rparr> else m)
      in m)"

text \<open>\<open>self\<close> is \<open>&from == this\<close>.\<close>

definition sUser_CopyFrom :: "bool \<Rightarrow> sUser \<Rightarrow> sUser \<Rightarrow> sUser" where
  "sUser_CopyFrom self m from = (if self then m else sUser_MergeFrom (sUser_Clear m) from)"

definition sUser_InternalSwap :: "sUser \<Rightarrow> sUser \<Rightarrow> sUser \<times> sUser" where
  "sUser_InternalSwap m other =
     (m\<lparr>sUser_phones := sUser_phones other, sUser_name := sUser_name other, sUser_email := sUser_email other, sUser_id := sUser_id other, sUser_unknown := sUser_unknown other\<rparr>,
      other\<lparr>sUser_phones := sUser_phones m, sUser_name := sUser_name m, sUser_email := sUser_email m, sUser_id := sUser_id m, sUser_unknown := sUser_unknown m\<rparr>)"

text \<open>The wire format of the message, and the messages that survive it.\<close>

definition sUser_encode :: "sUser \<Rightarrow> bytes" where
  "sUser_encode m =
     (if length (sUser_name m) > 0 then tag_bytes 1 WIRETYPE_LENGTH_DELIMITED @ delimited (sUser_name m) else []) @
     (if sUser_id m \<noteq> 0 then tag_bytes 2 WIRETYPE_VARINT @ varint (unat (scast (sUser_id m) :: uint64)) else []) @
     (if length (sUser_email m) > 0 then tag_bytes 3 WIRETYPE_LENGTH_DELIMITED @ delimited (sUser_email m) else []) @
     concat (map (\<lambda>e. tag_bytes 4 WIRETYPE_LENGTH_DELIMITED @ delimited (sUser_ePhoneNumber_encode e)) (sUser_phones m)) @
     unknown_bytes (sUser_unknown m)"

definition sUser_valid :: "nat \<Rightarrow> sUser \<Rightarrow> bool" where
  "sUser_valid d m \<longleftrightarrow> string_ok (sUser_name m) \<and>
     string_ok (sUser_email m) \<and>
     list_all (\<lambda>e. 0 < d \<and> sUser_ePhoneNumber_valid (d - 1) e \<and> int (length (sUser_ePhoneNumber_encode e)) \<le> INT_MAX) (sUser_phones m) \<and>
     unknown_ok d (sUser_unknown m) \<and>
     unclaimed sUser_cases (sUser_unknown m)"

lemma sUser_cases_return:
  "sUser_cases t = Some body \<Longrightarrow> flat s \<Longrightarrow> budget_ok s \<Longrightarrow> returns s (body m s)"
  by (auto simp: sUser_cases_def split: if_splits intro!: string_field_returns primitive_returns repeated_field_returns sUser_ePhoneNumber_msg.merge_returns)

lemma sUser_size: "sUser_ByteSizeLong m = length (sUser_encode m)"
  unfolding sUser_ByteSizeLong_def sUser_encode_def size_unknown
  by (simp add: size_simps message_size_simps sUser_ePhoneNumber_msg.size_exact)

lemma sUser_writes: "writes (sUser_InternalSerializeWithCachedSizesToArray m) (sUser_encode m)"
  unfolding sUser_InternalSerializeWithCachedSizesToArray_def [abs_def] sUser_encode_def
  by (intro writes_bind writes_fun_if writes_unknown writes_intro writes_write_each writes_InternalWriteMessageToArray sUser_ePhoneNumber_msg.array_writes sUser_ePhoneNumber_msg.size_exact)

lemma sUser_emits:
  assumes "int (length (sUser_encode m)) \<le> INT_MAX"
  shows "emits (sUser_SerializeWithCachedSizes m) (sUser_encode m)"
  using assms length_concat_member [of _ "sUser_phones m" "\<lambda>e. tag_bytes 4 WIRETYPE_LENGTH_DELIMITED @ delimited (sUser_ePhoneNumber_encode e)"]
  unfolding sUser_SerializeWithCachedSizes_def [abs_def] sUser_encode_def
  by (intro emits_bind emits_fun_if emits_unknown emits_intro emits_write_each emits_WriteMessageMaybeToArray sUser_ePhoneNumber_msg.array_writes sUser_ePhoneNumber_msg.stream_emits sUser_ePhoneNumber_msg.size_exact)
    (fastforce simp: delimited_def split: if_splits)+

lemma sUser_cases_values:
  "sUser_cases (MakeTag 1 WIRETYPE_LENGTH_DELIMITED) = Some (string_field sUser_name (\<lambda>v. sUser_name_update (\<lambda>_. v)))"
  "sUser_cases (MakeTag 2 WIRETYPE_VARINT) = Some (primitive_field ReadPrimitive_int32 (\<lambda>v. sUser_id_update (\<lambda>_. v)))"
  "sUser_cases (MakeTag 3 WIRETYPE_LENGTH_DELIMITED) = Some (string_field sUser_email (\<lambda>v. sUser_email_update (\<lambda>_. v)))"
  "sUser_cases (MakeTag 4 WIRETYPE_LENGTH_DELIMITED) = Some (repeated_field sUser_ePhoneNumber_MergePartialFromCodedStream sUser_ePhoneNumber_new sUser_phones (\<lambda>v. sUser_phones_update (\<lambda>_. v)))"
  by (simp_all add: sUser_cases_def tag_simps)

interpretation sUser_uf: unknown_part sUser_unknown "(\<lambda>v. sUser_unknown_update (\<lambda>_. v))"
  by unfold_locales simp_all

lemma sUser_phones_copied: "sUser_valid d m \<Longrightarrow> map (sUser_ePhoneNumber_MergeFrom sUser_ePhoneNumber_new) (sUser_phones m) = sUser_phones m"
  by (auto simp: sUser_valid_def list_all_iff intro: map_idI sUser_ePhoneNumber_msg.merge_fresh)

lemma sUser_merges:
  assumes v: "sUser_valid d m"
  shows "parses sUser_MergePartialFromCodedStream d m0 (sUser_encode m) (sUser_MergeFrom m0 m)"
proof -
  let ?m1 = "if length (sUser_name m) > 0 then sUser_name_update (\<lambda>_. sUser_name m) m0 else m0"
  let ?m2 = "if sUser_id m \<noteq> 0 then sUser_id_update (\<lambda>_. sUser_id m) (?m1) else ?m1"
  let ?m3 = "if length (sUser_email m) > 0 then sUser_email_update (\<lambda>_. sUser_email m) (?m2) else ?m2"
  let ?m4 = "sUser_phones_update (\<lambda>_. sUser_phones (?m3) @ sUser_phones m) (?m3)"
  let ?u = "sUser_unknown_update (\<lambda>_. sUser_unknown (?m4) @ sUser_unknown m) (?m4)"
  have nested: "consumes (ReadMessage sUser_ePhoneNumber_MergePartialFromCodedStream) d sUser_ePhoneNumber_new (delimited (sUser_ePhoneNumber_encode e)) e"
    if "e \<in> set (sUser_phones m)" for e
    using that v sUser_ePhoneNumber_msg.read_nested [of "d - 1" e] by (cases d) (auto simp: sUser_valid_def list_all_iff)
  have "parses sUser_MergePartialFromCodedStream d m0 (sUser_encode m) ?u"
    unfolding sUser_encode_def sUser_MergePartialFromCodedStream_def
    by (rule parses_append [OF parses_string [where cases_of = sUser_cases, OF sUser_cases_values(1)]
      parses_append [OF parses_int32 [where cases_of = sUser_cases, OF sUser_cases_values(2)]
      parses_append [OF parses_string [where cases_of = sUser_cases, OF sUser_cases_values(3)]
      parses_append [OF parses_repeated [where cases_of = sUser_cases, OF sUser_cases_values(4)]
      sUser_uf.parses_unknown]]]])
      (use v in \<open>auto simp: sUser_valid_def tag_simps unclaimedD nested\<close>)
  moreover have "?u = sUser_MergeFrom m0 m"
    by (cases m0) (simp add: sUser_MergeFrom_def Let_def sUser_phones_copied [OF v])
  ultimately show ?thesis by simp
qed

lemma sUser_merge_new: "sUser_valid d m \<Longrightarrow> sUser_MergeFrom sUser_new m = m"
  using sUser_phones_copied [of d m]
  by (cases m) (auto simp: sUser_MergeFrom_def sUser_new_def sUser_valid_def float_ok_def Let_def)

lemma sUser_Clear_new: "sUser_Clear m = sUser_new"
  by (simp add: sUser_Clear_def sUser_new_def)

interpretation sUser_msg: wire_message sUser_unknown "(\<lambda>v. sUser_unknown_update (\<lambda>_. v))" sUser_cases sUser_new sUser_Clear
  sUser_ByteSizeLong sUser_InternalSerializeWithCachedSizesToArray sUser_SerializeWithCachedSizes sUser_MergeFrom sUser_encode sUser_valid
  rewrites "MergeLoop sUser_cases sUser_unknown (\<lambda>v. sUser_unknown_update (\<lambda>_. v)) = sUser_MergePartialFromCodedStream"
  by unfold_locales
    (simp_all only: sUser_MergePartialFromCodedStream_def [symmetric] sUser_cases_return sUser_Clear_new sUser_size sUser_writes sUser_emits sUser_merges sUser_merge_new)

lemma sUser_MergeFrom_new: "sUser_MergeFrom m sUser_new = m"
  by (simp add: sUser_MergeFrom_def sUser_new_def Let_def)

lemma sUser_MergeFrom_assoc: "sUser_MergeFrom (sUser_MergeFrom a b) c = sUser_MergeFrom a (sUser_MergeFrom b c)"
  by (simp add: sUser_MergeFrom_def Let_def sUser_ePhoneNumber_MergeFrom_twice)

lemma sUser_MergeFrom_twice: "sUser_MergeFrom sUser_new \<circ> sUser_MergeFrom sUser_new = sUser_MergeFrom sUser_new"
  by (simp add: fun_eq_iff sUser_MergeFrom_assoc [symmetric] sUser_MergeFrom_new)

lemma sUser_CopyFrom_MergeFrom: "sUser_CopyFrom False m from = sUser_MergeFrom sUser_new from"
  by (simp add: sUser_CopyFrom_def sUser_Clear_new)

lemma sUser_InternalSwap_eq: "sUser_InternalSwap m other = (other, m)"
  by (simp add: sUser_InternalSwap_def)

section \<open>reqSignin\<close>

record reqSignin =
  reqSignin_user :: "sUser list"
  reqSignin_unknown :: UnknownFieldSet

definition reqSignin_new :: reqSignin where
  "reqSignin_new = \<lparr>reqSignin_user = [], reqSignin_unknown = []\<rparr>"

definition reqSignin_copy :: "reqSignin \<Rightarrow> reqSignin" where
  "reqSignin_copy from = reqSignin_new\<lparr>reqSignin_unknown := reqSignin_unknown from,
     reqSignin_user := map (sUser_MergeFrom sUser_new) (reqSignin_user from)\<rparr>"

definition reqSignin_Clear :: "reqSignin \<Rightarrow> reqSignin" where
  "reqSignin_Clear m = m\<lparr>reqSignin_user := [], reqSignin_unknown := []\<rparr>"

definition reqSignin_cases :: "reqSignin switch" where
  "reqSignin_cases tag =
     (if GetTagFieldNumber tag = 1 then
        (if (ucast tag :: byte) = 10 then Some (repeated_field sUser_MergePartialFromCodedStream sUser_new reqSignin_user (\<lambda>v. reqSignin_user_update (\<lambda>_. v))) else None)
      else None)"

definition reqSignin_MergePartialFromCodedStream :: "reqSignin \<Rightarrow> cis \<Rightarrow> reqSignin result" where
  "reqSignin_MergePartialFromCodedStream = MergeLoop reqSignin_cases reqSignin_unknown (\<lambda>v. reqSignin_unknown_update (\<lambda>_. v))"

definition reqSignin_SerializeWithCachedSizes :: "reqSignin \<Rightarrow> cos \<Rightarrow> cos option" where
  "reqSignin_SerializeWithCachedSizes m s = do {
     s \<leftarrow> write_each (\<lambda>e. WriteMessageMaybeToArray (sUser_InternalSerializeWithCachedSizesToArray e) (sUser_SerializeWithCachedSizes e) (sUser_ByteSizeLong e) 1) (reqSignin_user m) s;
     (if reqSignin_unknown m \<noteq> [] \<and> GetProto3PreserveUnknownsDefault then SerializeUnknownFields (reqSignin_unknown m) s else Some s)
   }"

definition reqSignin_InternalSerializeWithCachedSizesToArray :: "reqSignin \<Rightarrow> target \<Rightarrow> target option" where
  "reqSignin_InternalSerializeWithCachedSizesToArray m t = do {
     t \<leftarrow> write_each (\<lambda>e. InternalWriteMessageToArray (sUser_InternalSerializeWithCachedSizesToArray e) (sUser_ByteSizeLong e) 1) (reqSignin_user m) t;
     (if reqSignin_unknown m \<noteq> [] \<and> GetProto3PreserveUnknownsDefault then SerializeUnknownFieldsToArray (reqSignin_unknown m) t else Some t)
   }"

definition reqSignin_ByteSizeLong :: "reqSignin \<Rightarrow> nat" where
  "reqSignin_ByteSizeLong m =
     (if reqSignin_unknown m \<noteq> [] \<and> GetProto3PreserveUnknownsDefault then ComputeUnknownFieldsSize (reqSignin_unknown m) else 0) +
     (1 * length (reqSignin_user m) + sum_list (map (\<lambda>e. MessageSize (sUser_ByteSizeLong e)) (reqSignin_user m)))"

definition reqSignin_MergeFrom :: "reqSignin \<Rightarrow> reqSignin \<Rightarrow> reqSignin" where
  "reqSignin_MergeFrom m from =
     (let m = m\<lparr>reqSignin_unknown := reqSignin_unknown m @ reqSignin_unknown from\<rparr>;
          m = m\<lparr>reqSignin_user := reqSignin_user m @ map (sUser_MergeFrom sUser_new) (reqSignin_user from)\<rparr>
      in m)"

text \<open>\<open>self\<close> is \<open>&from == this\<close>.\<close>

definition reqSignin_CopyFrom :: "bool \<Rightarrow> reqSignin \<Rightarrow> reqSignin \<Rightarrow> reqSignin" where
  "reqSignin_CopyFrom self m from = (if self then m else reqSignin_MergeFrom (reqSignin_Clear m) from)"

definition reqSignin_InternalSwap :: "reqSignin \<Rightarrow> reqSignin \<Rightarrow> reqSignin \<times> reqSignin" where
  "reqSignin_InternalSwap m other =
     (m\<lparr>reqSignin_user := reqSignin_user other, reqSignin_unknown := reqSignin_unknown other\<rparr>,
      other\<lparr>reqSignin_user := reqSignin_user m, reqSignin_unknown := reqSignin_unknown m\<rparr>)"

text \<open>The wire format of the message, and the messages that survive it.\<close>

definition reqSignin_encode :: "reqSignin \<Rightarrow> bytes" where
  "reqSignin_encode m =
     concat (map (\<lambda>e. tag_bytes 1 WIRETYPE_LENGTH_DELIMITED @ delimited (sUser_encode e)) (reqSignin_user m)) @
     unknown_bytes (reqSignin_unknown m)"

definition reqSignin_valid :: "nat \<Rightarrow> reqSignin \<Rightarrow> bool" where
  "reqSignin_valid d m \<longleftrightarrow> list_all (\<lambda>e. 0 < d \<and> sUser_valid (d - 1) e \<and> int (length (sUser_encode e)) \<le> INT_MAX) (reqSignin_user m) \<and>
     unknown_ok d (reqSignin_unknown m) \<and>
     unclaimed reqSignin_cases (reqSignin_unknown m)"

lemma reqSignin_cases_return:
  "reqSignin_cases t = Some body \<Longrightarrow> flat s \<Longrightarrow> budget_ok s \<Longrightarrow> returns s (body m s)"
  by (auto simp: reqSignin_cases_def split: if_splits intro!: string_field_returns primitive_returns repeated_field_returns sUser_msg.merge_returns)

lemma reqSignin_size: "reqSignin_ByteSizeLong m = length (reqSignin_encode m)"
  unfolding reqSignin_ByteSizeLong_def reqSignin_encode_def size_unknown
  by (simp add: size_simps message_size_simps sUser_msg.size_exact)

lemma reqSignin_writes: "writes (reqSignin_InternalSerializeWithCachedSizesToArray m) (reqSignin_encode m)"
  unfolding reqSignin_InternalSerializeWithCachedSizesToArray_def [abs_def] reqSignin_encode_def
  by (intro writes_bind writes_fun_if writes_unknown writes_intro writes_write_each writes_InternalWriteMessageToArray sUser_msg.array_writes sUser_msg.size_exact)

lemma reqSignin_emits:
  assumes "int (length (reqSignin_encode m)) \<le> INT_MAX"
  shows "emits (reqSignin_SerializeWithCachedSizes m) (reqSignin_encode m)"
  using assms length_concat_member [of _ "reqSignin_user m" "\<lambda>e. tag_bytes 1 WIRETYPE_LENGTH_DELIMITED @ delimited (sUser_encode e)"]
  unfolding reqSignin_SerializeWithCachedSizes_def [abs_def] reqSignin_encode_def
  by (intro emits_bind emits_fun_if emits_unknown emits_intro emits_write_each emits_WriteMessageMaybeToArray sUser_msg.array_writes sUser_msg.stream_emits sUser_msg.size_exact)
    (fastforce simp: delimited_def split: if_splits)+

lemma reqSignin_cases_values:
  "reqSignin_cases (MakeTag 1 WIRETYPE_LENGTH_DELIMITED) = Some (repeated_field sUser_MergePartialFromCodedStream sUser_new reqSignin_user (\<lambda>v. reqSignin_user_update (\<lambda>_. v)))"
  by (simp_all add: reqSignin_cases_def tag_simps)

interpretation reqSignin_uf: unknown_part reqSignin_unknown "(\<lambda>v. reqSignin_unknown_update (\<lambda>_. v))"
  by unfold_locales simp_all

lemma reqSignin_user_copied: "reqSignin_valid d m \<Longrightarrow> map (sUser_MergeFrom sUser_new) (reqSignin_user m) = reqSignin_user m"
  by (auto simp: reqSignin_valid_def list_all_iff intro: map_idI sUser_msg.merge_fresh)

lemma reqSignin_merges:
  assumes v: "reqSignin_valid d m"
  shows "parses reqSignin_MergePartialFromCodedStream d m0 (reqSignin_encode m) (reqSignin_MergeFrom m0 m)"
proof -
  let ?m1 = "reqSignin_user_update (\<lambda>_. reqSignin_user m0 @ reqSignin_user m) m0"
  let ?u = "reqSignin_unknown_update (\<lambda>_. reqSignin_unknown (?m1) @ reqSignin_unknown m) (?m1)"
  have nested: "consumes (ReadMessage sUser_MergePartialFromCodedStream) d sUser_new (delimited (sUser_encode e)) e"
    if "e \<in> set (reqSignin_user m)" for e
    using that v sUser_msg.read_nested [of "d - 1" e] by (cases d) (auto simp: reqSignin_valid_def list_all_iff)
  have "parses reqSignin_MergePartialFromCodedStream d m0 (reqSignin_encode m) ?u"
    unfolding reqSignin_encode_def reqSignin_MergePartialFromCodedStream_def
    by (rule parses_append [OF parses_repeated [where cases_of = reqSignin_cases, OF reqSignin_cases_values]
      reqSignin_uf.parses_unknown])
      (use v in \<open>auto simp: reqSignin_valid_def tag_simps unclaimedD nested\<close>)
  moreover have "?u = reqSignin_MergeFrom m0 m"
    by (cases m0) (simp add: reqSignin_MergeFrom_def Let_def reqSignin_user_copied [OF v])
  ultimately show ?thesis by simp
qed

lemma reqSignin_merge_new: "reqSignin_valid d m \<Longrightarrow> reqSignin_MergeFrom reqSignin_new m = m"
  using reqSignin_user_copied [of d m]
  by (cases m) (auto simp: reqSignin_MergeFrom_def reqSignin_new_def reqSignin_valid_def float_ok_def Let_def)

lemma reqSignin_Clear_new: "reqSignin_Clear m = reqSignin_new"
  by (simp add: reqSignin_Clear_def reqSignin_new_def)

interpretation reqSignin_msg: wire_message reqSignin_unknown "(\<lambda>v. reqSignin_unknown_update (\<lambda>_. v))" reqSignin_cases reqSignin_new reqSignin_Clear
  reqSignin_ByteSizeLong reqSignin_InternalSerializeWithCachedSizesToArray reqSignin_SerializeWithCachedSizes reqSignin_MergeFrom reqSignin_encode reqSignin_valid
  rewrites "MergeLoop reqSignin_cases reqSignin_unknown (\<lambda>v. reqSignin_unknown_update (\<lambda>_. v)) = reqSignin_MergePartialFromCodedStream"
  by unfold_locales
    (simp_all only: reqSignin_MergePartialFromCodedStream_def [symmetric] reqSignin_cases_return reqSignin_Clear_new reqSignin_size reqSignin_writes reqSignin_emits reqSignin_merges reqSignin_merge_new)

lemma reqSignin_MergeFrom_new: "reqSignin_MergeFrom m reqSignin_new = m"
  by (simp add: reqSignin_MergeFrom_def reqSignin_new_def Let_def)

lemma reqSignin_MergeFrom_assoc: "reqSignin_MergeFrom (reqSignin_MergeFrom a b) c = reqSignin_MergeFrom a (reqSignin_MergeFrom b c)"
  by (simp add: reqSignin_MergeFrom_def Let_def sUser_MergeFrom_twice)

lemma reqSignin_MergeFrom_twice: "reqSignin_MergeFrom reqSignin_new \<circ> reqSignin_MergeFrom reqSignin_new = reqSignin_MergeFrom reqSignin_new"
  by (simp add: fun_eq_iff reqSignin_MergeFrom_assoc [symmetric] reqSignin_MergeFrom_new)

lemma reqSignin_CopyFrom_MergeFrom: "reqSignin_CopyFrom False m from = reqSignin_MergeFrom reqSignin_new from"
  by (simp add: reqSignin_CopyFrom_def reqSignin_Clear_new)

lemma reqSignin_InternalSwap_eq: "reqSignin_InternalSwap m other = (other, m)"
  by (simp add: reqSignin_InternalSwap_def)

end
