(* ===== verification/AnyMessage.thy ===== *)
theory AnyMessage
  imports BaseCmdUser
begin

text \<open>
  The messages of BaseCmd.proto behind the common interface \<open>google::protobuf::Message\<close>: the
  virtual operations that MessageRoute calls, and \<open>createMessage\<close> (MessageRoute.cpp), which finds
  a message class by its name.  The lemmas at the end are what MessageRoute relies on.
\<close>

section \<open>Virtual operations\<close>

datatype AnyMessage =
    Msg_CmdType CmdType
  | Msg_notifyConnectionStatus notifyConnectionStatus
  | Msg_sUser_ePhoneNumber sUser_ePhoneNumber
  | Msg_sUser sUser
  | Msg_reqSignin reqSignin
  | Msg_rspSignin rspSignin
  | Msg_reqMove reqMove
  | Msg_rspMove rspMove
  | Msg_reqAlarm reqAlarm
  | Msg_rspAlarm rspAlarm

fun GetTypeName :: "AnyMessage \<Rightarrow> bytes" where
  "GetTypeName (Msg_CmdType m) = ascii ''BaseCmd.CmdType''"
| "GetTypeName (Msg_notifyConnectionStatus m) = ascii ''BaseCmd.notifyConnectionStatus''"
| "GetTypeName (Msg_sUser_ePhoneNumber m) = ascii ''BaseCmd.sUser.ePhoneNumber''"
| "GetTypeName (Msg_sUser m) = ascii ''BaseCmd.sUser''"
| "GetTypeName (Msg_reqSignin m) = ascii ''BaseCmd.reqSignin''"
| "GetTypeName (Msg_rspSignin m) = ascii ''BaseCmd.rspSignin''"
| "GetTypeName (Msg_reqMove m) = ascii ''BaseCmd.reqMove''"
| "GetTypeName (Msg_rspMove m) = ascii ''BaseCmd.rspMove''"
| "GetTypeName (Msg_reqAlarm m) = ascii ''BaseCmd.reqAlarm''"
| "GetTypeName (Msg_rspAlarm m) = ascii ''BaseCmd.rspAlarm''"

fun ByteSizeLong :: "AnyMessage \<Rightarrow> nat" where
  "ByteSizeLong (Msg_CmdType m) = CmdType_ByteSizeLong m"
| "ByteSizeLong (Msg_notifyConnectionStatus m) = notifyConnectionStatus_ByteSizeLong m"
| "ByteSizeLong (Msg_sUser_ePhoneNumber m) = sUser_ePhoneNumber_ByteSizeLong m"
| "ByteSizeLong (Msg_sUser m) = sUser_ByteSizeLong m"
| "ByteSizeLong (Msg_reqSignin m) = reqSignin_ByteSizeLong m"
| "ByteSizeLong (Msg_rspSignin m) = rspSignin_ByteSizeLong m"
| "ByteSizeLong (Msg_reqMove m) = reqMove_ByteSizeLong m"
| "ByteSizeLong (Msg_rspMove m) = rspMove_ByteSizeLong m"
| "ByteSizeLong (Msg_reqAlarm m) = reqAlarm_ByteSizeLong m"
| "ByteSizeLong (Msg_rspAlarm m) = rspAlarm_ByteSizeLong m"

fun Message_SerializeToCodedStream :: "AnyMessage \<Rightarrow> cos \<Rightarrow> (bool \<times> cos) option" where
  "Message_SerializeToCodedStream (Msg_CmdType m) s = SerializeToCodedStream CmdType_ByteSizeLong CmdType_InternalSerializeWithCachedSizesToArray
     CmdType_SerializeWithCachedSizes m s"
| "Message_SerializeToCodedStream (Msg_notifyConnectionStatus m) s = SerializeToCodedStream notifyConnectionStatus_ByteSizeLong notifyConnectionStatus_InternalSerializeWithCachedSizesToArray
     notifyConnectionStatus_SerializeWithCachedSizes m s"
| "Message_SerializeToCodedStream (Msg_sUser_ePhoneNumber m) s = SerializeToCodedStream sUser_ePhoneNumber_ByteSizeLong sUser_ePhoneNumber_InternalSerializeWithCachedSizesToArray
     sUser_ePhoneNumber_SerializeWithCachedSizes m s"
| "Message_SerializeToCodedStream (Msg_sUser m) s = SerializeToCodedStream sUser_ByteSizeLong sUser_InternalSerializeWithCachedSizesToArray
     sUser_SerializeWithCachedSizes m s"
| "Message_SerializeToCodedStream (Msg_reqSignin m) s = SerializeToCodedStream reqSignin_ByteSizeLong reqSignin_InternalSerializeWithCachedSizesToArray
     reqSignin_SerializeWithCachedSizes m s"
| "Message_SerializeToCodedStream (Msg_rspSignin m) s = SerializeToCodedStream rspSignin_ByteSizeLong rspSignin_InternalSerializeWithCachedSizesToArray
     rspSignin_SerializeWithCachedSizes m s"
| "Message_SerializeToCodedStream (Msg_reqMove m) s = SerializeToCodedStream reqMove_ByteSizeLong reqMove_InternalSerializeWithCachedSizesToArray
     reqMove_SerializeWithCachedSizes m s"
| "Message_SerializeToCodedStream (Msg_rspMove m) s = SerializeToCodedStream rspMove_ByteSizeLong rspMove_InternalSerializeWithCachedSizesToArray
     rspMove_SerializeWithCachedSizes m s"
| "Message_SerializeToCodedStream (Msg_reqAlarm m) s = SerializeToCodedStream reqAlarm_ByteSizeLong reqAlarm_InternalSerializeWithCachedSizesToArray
     reqAlarm_SerializeWithCachedSizes m s"
| "Message_SerializeToCodedStream (Msg_rspAlarm m) s = SerializeToCodedStream rspAlarm_ByteSizeLong rspAlarm_InternalSerializeWithCachedSizesToArray
     rspAlarm_SerializeWithCachedSizes m s"

fun Message_ParseFromArray :: "bytes \<Rightarrow> AnyMessage \<Rightarrow> (bool \<times> AnyMessage) option" where
  "Message_ParseFromArray data (Msg_CmdType m) = map_option (map_prod id Msg_CmdType)
     (ParseFromArray CmdType_MergePartialFromCodedStream CmdType_Clear data m)"
| "Message_ParseFromArray data (Msg_notifyConnectionStatus m) = map_option (map_prod id Msg_notifyConnectionStatus)
     (ParseFromArray notifyConnectionStatus_MergePartialFromCodedStream notifyConnectionStatus_Clear data m)"
| "Message_ParseFromArray data (Msg_sUser_ePhoneNumber m) = map_option (map_prod id Msg_sUser_ePhoneNumber)
     (ParseFromArray sUser_ePhoneNumber_MergePartialFromCodedStream sUser_ePhoneNumber_Clear data m)"
| "Message_ParseFromArray data (Msg_sUser m) = map_option (map_prod id Msg_sUser)
     (ParseFromArray sUser_MergePartialFromCodedStream sUser_Clear data m)"
| "Message_ParseFromArray data (Msg_reqSignin m) = map_option (map_prod id Msg_reqSignin)
     (ParseFromArray reqSignin_MergePartialFromCodedStream reqSignin_Clear data m)"
| "Message_ParseFromArray data (Msg_rspSignin m) = map_option (map_prod id Msg_rspSignin)
     (ParseFromArray rspSignin_MergePartialFromCodedStream rspSignin_Clear data m)"
| "Message_ParseFromArray data (Msg_reqMove m) = map_option (map_prod id Msg_reqMove)
     (ParseFromArray reqMove_MergePartialFromCodedStream reqMove_Clear data m)"
| "Message_ParseFromArray data (Msg_rspMove m) = map_option (map_prod id Msg_rspMove)
     (ParseFromArray rspMove_MergePartialFromCodedStream rspMove_Clear data m)"
| "Message_ParseFromArray data (Msg_reqAlarm m) = map_option (map_prod id Msg_reqAlarm)
     (ParseFromArray reqAlarm_MergePartialFromCodedStream reqAlarm_Clear data m)"
| "Message_ParseFromArray data (Msg_rspAlarm m) = map_option (map_prod id Msg_rspAlarm)
     (ParseFromArray rspAlarm_MergePartialFromCodedStream rspAlarm_Clear data m)"

section \<open>createMessage\<close>

text \<open>
  The generated pool holds the messages of BaseCmd.proto and those of the other files linked into
  the program; \<open>linked\<close> tells their names.  Messages of those classes are never registered with a
  dispatcher, so only their name is kept.
\<close>

datatype created = Known AnyMessage | Foreign bytes

definition prototypes :: "AnyMessage list" where
  "prototypes = [Msg_CmdType CmdType_new,
     Msg_notifyConnectionStatus notifyConnectionStatus_new,
     Msg_sUser_ePhoneNumber sUser_ePhoneNumber_new,
     Msg_sUser sUser_new,
     Msg_reqSignin reqSignin_new,
     Msg_rspSignin rspSignin_new,
     Msg_reqMove reqMove_new,
     Msg_rspMove rspMove_new,
     Msg_reqAlarm reqAlarm_new,
     Msg_rspAlarm rspAlarm_new]"

definition createMessage :: "(bytes \<Rightarrow> bool) \<Rightarrow> bytes \<Rightarrow> created option" where
  "createMessage linked type_name =
     (case find (\<lambda>p. GetTypeName p = type_name) prototypes of
        Some p \<Rightarrow> Some (Known p)
      | None \<Rightarrow> if linked type_name then Some (Foreign type_name) else None)"

section \<open>The wire format\<close>

fun encode :: "AnyMessage \<Rightarrow> bytes" where
  "encode (Msg_CmdType m) = CmdType_encode m"
| "encode (Msg_notifyConnectionStatus m) = notifyConnectionStatus_encode m"
| "encode (Msg_sUser_ePhoneNumber m) = sUser_ePhoneNumber_encode m"
| "encode (Msg_sUser m) = sUser_encode m"
| "encode (Msg_reqSignin m) = reqSignin_encode m"
| "encode (Msg_rspSignin m) = rspSignin_encode m"
| "encode (Msg_reqMove m) = reqMove_encode m"
| "encode (Msg_rspMove m) = rspMove_encode m"
| "encode (Msg_reqAlarm m) = reqAlarm_encode m"
| "encode (Msg_rspAlarm m) = rspAlarm_encode m"

fun valid :: "nat \<Rightarrow> AnyMessage \<Rightarrow> bool" where
  "valid d (Msg_CmdType m) = CmdType_valid d m"
| "valid d (Msg_notifyConnectionStatus m) = notifyConnectionStatus_valid d m"
| "valid d (Msg_sUser_ePhoneNumber m) = sUser_ePhoneNumber_valid d m"
| "valid d (Msg_sUser m) = sUser_valid d m"
| "valid d (Msg_reqSignin m) = reqSignin_valid d m"
| "valid d (Msg_rspSignin m) = rspSignin_valid d m"
| "valid d (Msg_reqMove m) = reqMove_valid d m"
| "valid d (Msg_rspMove m) = rspMove_valid d m"
| "valid d (Msg_reqAlarm m) = reqAlarm_valid d m"
| "valid d (Msg_rspAlarm m) = rspAlarm_valid d m"

fun prototype :: "AnyMessage \<Rightarrow> AnyMessage" where
  "prototype (Msg_CmdType m) = Msg_CmdType CmdType_new"
| "prototype (Msg_notifyConnectionStatus m) = Msg_notifyConnectionStatus notifyConnectionStatus_new"
| "prototype (Msg_sUser_ePhoneNumber m) = Msg_sUser_ePhoneNumber sUser_ePhoneNumber_new"
| "prototype (Msg_sUser m) = Msg_sUser sUser_new"
| "prototype (Msg_reqSignin m) = Msg_reqSignin reqSignin_new"
| "prototype (Msg_rspSignin m) = Msg_rspSignin rspSignin_new"
| "prototype (Msg_reqMove m) = Msg_reqMove reqMove_new"
| "prototype (Msg_rspMove m) = Msg_rspMove rspMove_new"
| "prototype (Msg_reqAlarm m) = Msg_reqAlarm reqAlarm_new"
| "prototype (Msg_rspAlarm m) = Msg_rspAlarm rspAlarm_new"

lemmas size_exacts = CmdType_msg.size_exact notifyConnectionStatus_msg.size_exact sUser_ePhoneNumber_msg.size_exact sUser_msg.size_exact reqSignin_msg.size_exact rspSignin_msg.size_exact reqMove_msg.size_exact rspMove_msg.size_exact reqAlarm_msg.size_exact rspAlarm_msg.size_exact

lemmas serialize_streams = CmdType_msg.serialize_stream notifyConnectionStatus_msg.serialize_stream sUser_ePhoneNumber_msg.serialize_stream sUser_msg.serialize_stream reqSignin_msg.serialize_stream rspSignin_msg.serialize_stream reqMove_msg.serialize_stream rspMove_msg.serialize_stream reqAlarm_msg.serialize_stream rspAlarm_msg.serialize_stream

lemmas serialize_larges = CmdType_msg.serialize_large notifyConnectionStatus_msg.serialize_large sUser_ePhoneNumber_msg.serialize_large sUser_msg.serialize_large reqSignin_msg.serialize_large rspSignin_msg.serialize_large reqMove_msg.serialize_large rspMove_msg.serialize_large reqAlarm_msg.serialize_large rspAlarm_msg.serialize_large

lemmas parse_encodes = CmdType_msg.parse_encode notifyConnectionStatus_msg.parse_encode sUser_ePhoneNumber_msg.parse_encode sUser_msg.parse_encode reqSignin_msg.parse_encode rspSignin_msg.parse_encode reqMove_msg.parse_encode rspMove_msg.parse_encode reqAlarm_msg.parse_encode rspAlarm_msg.parse_encode

lemmas parse_returnses = CmdType_msg.parse_returns notifyConnectionStatus_msg.parse_returns sUser_ePhoneNumber_msg.parse_returns sUser_msg.parse_returns reqSignin_msg.parse_returns rspSignin_msg.parse_returns reqMove_msg.parse_returns rspMove_msg.parse_returns reqAlarm_msg.parse_returns rspAlarm_msg.parse_returns

lemma ByteSizeLong_encode: "ByteSizeLong m = length (encode m)"
  by (cases m) (simp_all add: size_exacts)

lemma Message_SerializeToCodedStream_spec:
  assumes "int (length (encode m)) \<le> INT_MAX" and "cos_inv s"
  shows "\<exists>s'. Message_SerializeToCodedStream m s = Some (True, s') \<and> cos_inv s' \<and> contents s' = contents s @ encode m"
  using assms by (cases m) (simp_all add: serialize_streams)

lemma Message_SerializeToCodedStream_total:
  "cos_inv s \<Longrightarrow> \<exists>ok s'. Message_SerializeToCodedStream m s = Some (ok, s') \<and> cos_inv s'"
proof (cases "int (length (encode m)) \<le> INT_MAX")
  case False
  then have "Message_SerializeToCodedStream m s = Some (False, s)" by (cases m) (simp_all add: serialize_larges)
  then show "cos_inv s \<Longrightarrow> ?thesis" by blast
qed (use Message_SerializeToCodedStream_spec in blast)

lemma Message_ParseFromArray_returns:
  "int (length data) \<le> INT_MAX \<Longrightarrow> \<exists>ok m'. Message_ParseFromArray data m = Some (ok, m')"
  by (cases m) (simp_all, insert parse_returnses, fastforce+)

lemma Message_ParseFromArray_encode:
  assumes "valid 100 m" and "int (length (encode m)) \<le> INT_MAX"
  shows "Message_ParseFromArray (encode m) (prototype m) = Some (True, m)"
  using assms by (cases m) (simp_all add: parse_encodes)

lemma createMessage_prototype: "createMessage linked (GetTypeName m) = Some (Known (prototype m))"
  by (cases m) (simp_all add: createMessage_def prototypes_def ascii_def)

section \<open>Properties\<close>

text \<open>A sign-in request with one user and one phone number.\<close>

definition sample_user :: sUser where
  "sample_user = \<lparr>sUser_name = ascii ''michael'', sUser_id = 99, sUser_email = [],
     sUser_phones = [\<lparr>sUser_ePhoneNumber_number = ascii ''555'', sUser_ePhoneNumber_type = 1, sUser_ePhoneNumber_unknown = []\<rparr>],
     sUser_unknown = []\<rparr>"

definition sample_signin :: AnyMessage where
  "sample_signin = Msg_reqSignin \<lparr>reqSignin_user = [sample_user], reqSignin_unknown = []\<rparr>"

lemma length_sample_phone:
  "length (sUser_ePhoneNumber_encode \<lparr>sUser_ePhoneNumber_number = ascii ''555'', sUser_ePhoneNumber_type = 1, sUser_ePhoneNumber_unknown = []\<rparr>) = 7"
  by (simp add: sUser_ePhoneNumber_encode_def delimited_def message_size_simps varint_small)

lemma length_sample_user: "length (sUser_encode sample_user) = 20"
  by (simp add: sample_user_def sUser_encode_def delimited_def message_size_simps varint_small length_sample_phone)

lemma sample_user_valid: "sUser_valid 99 sample_user"
  using length_sample_phone
  by (simp add: sample_user_def sUser_valid_def sUser_ePhoneNumber_valid_def string_ok_def ascii_def)

lemma sample_signin_valid: "valid 100 sample_signin" "int (length (encode sample_signin)) \<le> INT_MAX"
  using sample_user_valid
  by (simp_all add: sample_signin_def reqSignin_valid_def reqSignin_encode_def delimited_def message_size_simps
      varint_small length_sample_user)

text \<open>C8: every message that has valid strings and nests at most 100 levels survives the wire: writing it to a
  coded stream appends exactly \<open>ByteSizeLong\<close> bytes, and parsing those bytes gives the message back.\<close>

theorem message_roundtrip:
  assumes "valid 100 m" and "int (length (encode m)) \<le> INT_MAX" and "cos_inv s"
  shows "\<exists>s' bs. Message_SerializeToCodedStream m s = Some (True, s') \<and> contents s' = contents s @ bs
     \<and> length bs = ByteSizeLong m \<and> Message_ParseFromArray bs (prototype m) = Some (True, m)"
  using Message_SerializeToCodedStream_spec [OF assms(2,3)] Message_ParseFromArray_encode [OF assms(1,2)]
  by (auto simp: ByteSizeLong_encode)

theorem message_roundtrip_witness:
  "\<exists>s' bs. Message_SerializeToCodedStream sample_signin (CodedOutputStream [] (replicate 8192 0)) = Some (True, s')
     \<and> contents s' = bs \<and> Message_ParseFromArray bs (Msg_reqSignin reqSignin_new) = Some (True, sample_signin)"
proof -
  have "cos_inv (CodedOutputStream [] (replicate 8192 0))"
    by (rule CodedOutputStream_inv) (simp add: kDefaultBlockSize_def)
  from message_roundtrip [OF sample_signin_valid this] show ?thesis by (auto simp: sample_signin_def)
qed

text \<open>C27: parsing returns on every input of at most \<open>INT_MAX\<close> bytes, however malformed, and keeps the class
  of the message.\<close>

theorem message_parse_total:
  assumes "int (length data) \<le> INT_MAX"
  shows "\<exists>ok m'. Message_ParseFromArray data m = Some (ok, m') \<and> prototype m' = prototype m"
  using Message_ParseFromArray_returns [OF assms, of m] by (cases m) auto

theorem message_parse_total_witness:
  "\<exists>ok m'. Message_ParseFromArray [0x0A, 0xFF] (Msg_reqSignin reqSignin_new) = Some (ok, m')
     \<and> prototype m' = Msg_reqSignin reqSignin_new"
  using message_parse_total [of "[0x0A, 0xFF]" "Msg_reqSignin reqSignin_new"] by simp

text \<open>C26: parsing two encodings in a row gives the second message merged into the first: phone numbers are
  appended, and the scalar fields that the second message sets win.\<close>

theorem sUser_parse_append:
  assumes "sUser_valid 100 a" and "sUser_valid 100 b" and "int (length (sUser_encode a @ sUser_encode b)) \<le> INT_MAX"
  shows "ParseFromArray sUser_MergePartialFromCodedStream sUser_Clear (sUser_encode a @ sUser_encode b) m =
     Some (True, sUser_MergeFrom a b)"
  by (rule sUser_msg.parse_append [OF assms])

theorem sUser_parse_append_witness:
  "\<exists>m'. ParseFromArray sUser_MergePartialFromCodedStream sUser_Clear (sUser_encode sample_user @ sUser_encode sample_user) sUser_new =
     Some (True, m') \<and> length (sUser_phones m') = 2"
proof -
  have "sUser_valid 100 sample_user" using length_sample_phone
    by (simp add: sample_user_def sUser_valid_def sUser_ePhoneNumber_valid_def string_ok_def ascii_def)
  moreover have "int (length (sUser_encode sample_user @ sUser_encode sample_user)) \<le> INT_MAX"
    by (simp add: length_sample_user)
  ultimately have "ParseFromArray sUser_MergePartialFromCodedStream sUser_Clear (sUser_encode sample_user @ sUser_encode sample_user) sUser_new =
      Some (True, sUser_MergeFrom sample_user sample_user)"
    by (intro sUser_parse_append)
  moreover have "length (sUser_phones (sUser_MergeFrom sample_user sample_user)) = 2"
    by (simp add: sUser_MergeFrom_def sample_user_def Let_def)
  ultimately show ?thesis by blast
qed

text \<open>\<open>MergeFrom\<close> of sign-in requests is associative, on every message.\<close>

theorem reqSignin_MergeFrom_monoid:
  "reqSignin_MergeFrom (reqSignin_MergeFrom a b) c = reqSignin_MergeFrom a (reqSignin_MergeFrom b c)"
  by (rule reqSignin_MergeFrom_assoc)

text \<open>C40: the copy constructor of \<open>reqMove\<close> copies every message, but \<open>CopyFrom\<close> gives an equal message
  only when neither field is a negative zero, which \<open>MergeFrom\<close> skips.\<close>

theorem reqMove_copies:
  "reqMove_copy from = from \<and>
   (reqMove_CopyFrom False m from = from \<longleftrightarrow> float_ok (reqMove_forward from) \<and> float_ok (reqMove_angle from))"
  by (cases "from"; cases m) (auto simp: reqMove_copy_def reqMove_CopyFrom_def reqMove_Clear_def reqMove_MergeFrom_def
      reqMove_new_def Let_def float_ok_def)

end
