(* ===== verification/Route.thy ===== *)
theory Route
  imports AnyMessage
begin

text \<open>
  \<open>MessageRoute\<close> (src/Shared/code/utility/MessageRoute.h, .cpp): the two stream buffers of a
  connection, \<open>Receive\<close>, which appends what the socket delivered, and \<open>Send\<close>, which appends one
  frame.  A frame is the four bytes \<open>pbh\<close> and \<open>0\<close>, the total length, the length of the
  \<open>CmdType\<close> header, that header and the body.
\<close>

section \<open>State\<close>

text \<open>
  The classes derived from \<open>BaseProcessor\<close>, and a dispatcher as its map from type names to
  processors.
\<close>

datatype Processor =
    Server_SigninProcessor | Server_MoveProcessor | Client_SigninProcessor | Client_MoveProcessor

type_synonym ProcessorMap = "bytes \<rightharpoonup> Processor"

text \<open>
  The stream buffers hold their unread bytes.  Sizes are \<open>size_t\<close>, 64 bits.
\<close>

record MessageRoute =
  mPreRecivesTotalLen :: int32
  mDataStreamReceive :: bytes
  mDataStreamSend :: bytes
  mTempBuffer :: bytes
  mTempBufferProcess :: bytes
  totalSend :: uint64
  totalSend2 :: uint64
  m_spMessageDispatcher :: "ProcessorMap option"

definition TEMP_BUFFER_SIZE :: nat where
  "TEMP_BUFFER_SIZE = 1024"

definition head :: bytes where
  "head = ascii ''pbh'' @ [0]"

definition hlen :: nat where
  "hlen = 4"

text \<open>
  The constructor initialises the two counters only: the three other arguments are what the memory
  of the object held.
\<close>

definition MessageRoute_new :: "int32 \<Rightarrow> bytes \<Rightarrow> bytes \<Rightarrow> MessageRoute" where
  "MessageRoute_new pre temp tempProcess =
     \<lparr>mPreRecivesTotalLen = pre, mDataStreamReceive = [], mDataStreamSend = [], mTempBuffer = temp,
      mTempBufferProcess = tempProcess, totalSend = 0, totalSend2 = 0, m_spMessageDispatcher = None\<rparr>"

definition SetMessageDispatcher :: "ProcessorMap \<Rightarrow> MessageRoute \<Rightarrow> MessageRoute" where
  "SetMessageDispatcher sp r = r\<lparr>m_spMessageDispatcher := Some sp\<rparr>"

text \<open>\<open>sizeof\<close> the two arrays.\<close>

definition route_inv :: "MessageRoute \<Rightarrow> bool" where
  "route_inv r \<longleftrightarrow> length (mTempBuffer r) = TEMP_BUFFER_SIZE \<and> length (mTempBufferProcess r) = TEMP_BUFFER_SIZE"

section \<open>Receive\<close>

text \<open>
  The copy loop of \<open>Receive\<close>.  \<open>None\<close> is a size that is not positive as an \<open>int\<close>: the loop then
  copies a negative number of bytes or never ends.
\<close>

function Receive_loop :: "bytes \<Rightarrow> bytes \<Rightarrow> cos \<Rightarrow> (bytes \<times> cos) option" where
  "Receive_loop buf temp s =
     (if buf = [] then Some (temp, s)
      else let readSize = min (sint (word_of_nat (length buf) :: int32)) (int TEMP_BUFFER_SIZE)
           in if readSize \<le> 0 then None
              else let temp = overwrite temp 0 (take (nat readSize) buf)
                   in WriteRaw (take (nat readSize) temp) s \<bind> Receive_loop (drop (nat readSize) buf) temp)"
  by pat_completeness auto
termination
  by (relation "measure (\<lambda>(buf, _). length buf)") (auto intro!: diff_less simp del: min_less_iff_conj)

declare Receive_loop.simps [simp del]

text \<open>The result is the route; the buffer of the socket is empty afterwards.\<close>

definition Receive :: "bytes \<Rightarrow> MessageRoute \<Rightarrow> MessageRoute option" where
  "Receive buf r = do {
     (temp, s) \<leftarrow> Receive_loop buf (mTempBuffer r)
        (CodedOutputStream (mDataStreamReceive r) (replicate kDefaultBlockSize 0));
     Some (r\<lparr>mTempBuffer := temp, mDataStreamReceive := close_stream s\<rparr>)
   }"

section \<open>Send\<close>

text \<open>
  The results of \<open>SerializeToCodedStream\<close> are not used.  The block that a new stream allocates
  is uninitialised; none of its bytes is sent.
\<close>

definition Send :: "AnyMessage \<Rightarrow> MessageRoute \<Rightarrow> MessageRoute option" where
  "Send msg r =
     (let stype = GetTypeName msg;
          bodylen = word_of_nat (ByteSizeLong msg) :: int32;
          cmdType = CmdType_new\<lparr>CmdType_type := stype, CmdType_size := bodylen\<rparr>;
          headlen = word_of_nat (CmdType_ByteSizeLong cmdType) :: int32;
          totallen = 8 + headlen + bodylen;
          s = CodedOutputStream (mDataStreamSend r) (replicate kDefaultBlockSize 0)
      in do {
        s \<leftarrow> WriteRaw (take hlen head) s;
        s \<leftarrow> WriteLittleEndian32 totallen s;
        s \<leftarrow> WriteLittleEndian32 headlen s;
        (ok1, s) \<leftarrow> Message_SerializeToCodedStream (Msg_CmdType cmdType) s;
        (ok2, s) \<leftarrow> Message_SerializeToCodedStream msg s;
        Some (r\<lparr>mDataStreamSend := close_stream s, totalSend := totalSend r + scast (totallen + 4)\<rparr>)
      })"

section \<open>What they append\<close>

definition cmd_of :: "AnyMessage \<Rightarrow> CmdType" where
  "cmd_of m = CmdType_new\<lparr>CmdType_type := GetTypeName m, CmdType_size := word_of_nat (length (encode m))\<rparr>"

definition frame_len :: "AnyMessage \<Rightarrow> nat" where
  "frame_len m = 8 + length (CmdType_encode (cmd_of m)) + length (encode m)"

definition frame_rest :: "AnyMessage \<Rightarrow> bytes" where
  "frame_rest m = le32 (word_of_nat (length (CmdType_encode (cmd_of m)))) @ CmdType_encode (cmd_of m) @ encode m"

definition frame :: "AnyMessage \<Rightarrow> bytes" where
  "frame m = head @ le32 (word_of_nat (frame_len m)) @ frame_rest m"

lemma sint_of_length:
  assumes "n < 2 ^ 31" shows "sint (word_of_nat n :: int32) = int n"
  using assms by (simp add: signed_of_nat signed_take_bit_int_eq_self)

lemma take_overwrite_0: "take (length xs) (overwrite mem 0 xs) = xs"
  by (simp add: overwrite_def)

lemma Receive_loop_spec:
  assumes "length buf < 2 ^ 31" and "length temp = TEMP_BUFFER_SIZE" and "cos_inv s"
  shows "\<exists>temp' s'. Receive_loop buf temp s = Some (temp', s') \<and> length temp' = TEMP_BUFFER_SIZE
     \<and> cos_inv s' \<and> contents s' = contents s @ buf"
  using assms
proof (induction buf temp s rule: Receive_loop.induct)
  case (1 buf temp s)
  show ?case
  proof (cases "buf = []")
    case True
    then show ?thesis using "1.prems" by (simp add: Receive_loop.simps)
  next
    case False
    let ?n = "min (sint (word_of_nat (length buf) :: int32)) (int TEMP_BUFFER_SIZE)"
    have n: "?n = int (min (length buf) TEMP_BUFFER_SIZE)" and pos: "\<not> ?n \<le> 0"
      using "1.prems"(1) False by (simp_all add: sint_of_length TEMP_BUFFER_SIZE_def min_le_iff_disj)
    let ?data = "take (nat ?n) buf"
    let ?temp = "overwrite temp 0 ?data"
    have d: "take (nat ?n) ?temp = ?data"
      using take_overwrite_0 [of ?data temp] by (simp add: n)
    obtain s1 where s1: "WriteRaw ?data s = Some s1" "cos_inv s1" "contents s1 = contents s @ ?data"
      using WriteRaw_spec [OF "1.prems"(3)] by blast
    have "length ?temp = TEMP_BUFFER_SIZE" using "1.prems"(2) by (simp add: n overwrite_def)
    moreover have "length (drop (nat ?n) buf) < 2 ^ 31" using "1.prems"(1) by simp
    ultimately obtain temp' s' where
      "Receive_loop (drop (nat ?n) buf) ?temp s1 = Some (temp', s')" "length temp' = TEMP_BUFFER_SIZE"
      "cos_inv s'" "contents s' = contents s1 @ drop (nat ?n) buf"
      using "1.IH" [OF False refl pos refl _ _ _ s1(2)] d s1(1) by metis
    then show ?thesis using False pos s1 d by (subst Receive_loop.simps) (simp add: Let_def)
  qed
qed

lemma Receive_appends:
  assumes "route_inv r" and "length buf < 2 ^ 31"
  shows "\<exists>temp. Receive buf r = Some (r\<lparr>mTempBuffer := temp, mDataStreamReceive := mDataStreamReceive r @ buf\<rparr>)
     \<and> length temp = TEMP_BUFFER_SIZE"
proof -
  let ?s = "CodedOutputStream (mDataStreamReceive r) (replicate kDefaultBlockSize 0)"
  have "cos_inv ?s" by (rule CodedOutputStream_inv) simp
  with Receive_loop_spec [OF assms(2), of "mTempBuffer r" ?s] assms(1) show ?thesis
    by (auto simp: route_inv_def Receive_def close_stream_contents)
qed


text \<open>The header of a frame.\<close>

lemma length_GetTypeName: "length (GetTypeName m) \<le> 30"
  by (cases m) simp_all

lemma string_ok_GetTypeName: "string_ok (GetTypeName m)"
  using length_GetTypeName [of m] by (cases m) (simp_all add: string_ok_def ascii_def)

lemma string_ok_Nil: "string_ok []"
  by (simp add: string_ok_def)

lemma cmd_of_valid: "CmdType_valid d (cmd_of m)"
  by (simp add: CmdType_valid_def cmd_of_def CmdType_new_def string_ok_GetTypeName string_ok_Nil)

lemma length_cmd_of: "length (CmdType_encode (cmd_of m)) \<le> 50"
  using length_GetTypeName [of m] length_varint32 [of "word_of_nat (length (GetTypeName m))"]
    length_varint64 [of "scast (word_of_nat (length (encode m)) :: int32)"]
  by (simp add: CmdType_encode_def cmd_of_def CmdType_new_def message_size_simps delimited_def)

lemma length_frame_rest: "length (frame_rest m) = frame_len m - 4"
  by (simp add: frame_rest_def frame_len_def)

lemma Send_appends:
  assumes "int (length (encode m)) \<le> INT_MAX"
  shows "Send m r = Some (r\<lparr>mDataStreamSend := mDataStreamSend r @ frame m,
     totalSend := totalSend r + scast (word_of_nat (frame_len m) + 4 :: int32)\<rparr>)"
proof -
  let ?h = "CmdType_encode (cmd_of m)"
  let ?s = "CodedOutputStream (mDataStreamSend r) (replicate kDefaultBlockSize 0)"
  have "cos_inv ?s" by (rule CodedOutputStream_inv) simp
  then obtain s1 where s1: "WriteRaw (take hlen head) ?s = Some s1" "cos_inv s1" "contents s1 = mDataStreamSend r @ take hlen head"
    using emitsE [OF emits_WriteRaw] by (metis contents_CodedOutputStream)
  obtain s2 where s2: "WriteLittleEndian32 (word_of_nat (frame_len m)) s1 = Some s2" "cos_inv s2"
      "contents s2 = contents s1 @ le32 (word_of_nat (frame_len m))"
    by (rule emitsE [OF emits_WriteLittleEndian32 s1(2)])
  obtain s3 where s3: "WriteLittleEndian32 (word_of_nat (length ?h)) s2 = Some s3" "cos_inv s3"
      "contents s3 = contents s2 @ le32 (word_of_nat (length ?h))"
    by (rule emitsE [OF emits_WriteLittleEndian32 s2(2)])
  obtain s4 where s4: "Message_SerializeToCodedStream (Msg_CmdType (cmd_of m)) s3 = Some (True, s4)" "cos_inv s4"
      "contents s4 = contents s3 @ ?h"
    using Message_SerializeToCodedStream_spec [OF _ s3(2), of "Msg_CmdType (cmd_of m)"] length_cmd_of [of m] by auto
  obtain s5 where s5: "Message_SerializeToCodedStream m s4 = Some (True, s5)" "contents s5 = contents s4 @ encode m"
    using Message_SerializeToCodedStream_spec [OF assms s4(2)] by blast
  have cmd: "CmdType_new\<lparr>CmdType_type := GetTypeName m, CmdType_size := word_of_nat (ByteSizeLong m)\<rparr> = cmd_of m"
    by (simp add: cmd_of_def ByteSizeLong_encode)
  have len: "8 + word_of_nat (length ?h) + word_of_nat (ByteSizeLong m) = (word_of_nat (frame_len m) :: int32)"
    by (simp add: frame_len_def ByteSizeLong_encode)
  have "close_stream s5 = mDataStreamSend r @ frame m"
    by (simp add: close_stream_contents s5 s4 s3 s2 s1 frame_def frame_rest_def hlen_def head_def)
  with s1 s2 s3 s4 s5 show ?thesis
    unfolding Send_def Let_def cmd CmdType_size len by simp
qed

text \<open>\<open>Send\<close> returns for every message, and touches the send side only.\<close>

definition send_only :: "MessageRoute \<Rightarrow> MessageRoute \<Rightarrow> bool" where
  "send_only r r' \<longleftrightarrow> mPreRecivesTotalLen r' = mPreRecivesTotalLen r \<and> mDataStreamReceive r' = mDataStreamReceive r \<and>
     mTempBuffer r' = mTempBuffer r \<and> mTempBufferProcess r' = mTempBufferProcess r \<and> totalSend2 r' = totalSend2 r \<and>
     m_spMessageDispatcher r' = m_spMessageDispatcher r"

lemma send_only_refl [simp]: "send_only r r"
  by (simp add: send_only_def)

lemma Send_total: "\<exists>r'. Send m r = Some r' \<and> send_only r r'"
proof -
  let ?bodylen = "word_of_nat (ByteSizeLong m) :: int32"
  let ?cmd = "CmdType_new\<lparr>CmdType_type := GetTypeName m, CmdType_size := ?bodylen\<rparr>"
  let ?headlen = "word_of_nat (CmdType_ByteSizeLong ?cmd) :: int32"
  have "cos_inv (CodedOutputStream (mDataStreamSend r) (replicate kDefaultBlockSize 0))"
    by (rule CodedOutputStream_inv) simp
  then obtain s1 where s1: "WriteRaw (take hlen head) (CodedOutputStream (mDataStreamSend r) (replicate kDefaultBlockSize 0)) = Some s1" "cos_inv s1"
    using emitsE [OF emits_WriteRaw] by metis
  obtain s2 where s2: "WriteLittleEndian32 (8 + ?headlen + ?bodylen) s1 = Some s2" "cos_inv s2"
    by (rule emitsE [OF emits_WriteLittleEndian32 s1(2)])
  obtain s3 where s3: "WriteLittleEndian32 ?headlen s2 = Some s3" "cos_inv s3"
    by (rule emitsE [OF emits_WriteLittleEndian32 s2(2)])
  obtain ok s4 where s4: "Message_SerializeToCodedStream (Msg_CmdType ?cmd) s3 = Some (ok, s4)" "cos_inv s4"
    using Message_SerializeToCodedStream_total [OF s3(2)] by blast
  obtain ok' s5 where s5: "Message_SerializeToCodedStream m s4 = Some (ok', s5)"
    using Message_SerializeToCodedStream_total [OF s4(2)] by blast
  show ?thesis unfolding Send_def Let_def using s1(1) s2(1) s3(1) s4(1) s5 by (simp add: send_only_def)
qed

end
