(* ===== verification/Dispatch.thy ===== *)
theory Dispatch
  imports Route
begin

text \<open>
  The message processors of the server and of the client (MoveProcessor.cpp, SigninProcessor.cpp in
  src/MiniProtobufServer and src/MiniProtobufClient), the dispatchers that register them
  (ServerMessageDispatcher.cpp, ClientMessageDispatcher.cpp), \<open>BaseMessageDispatcher::Dispatch\<close>, and the
  receiving half of \<open>MessageRoute\<close> (\<open>ProcessRecv\<close>, \<open>ProcessSend\<close>, \<open>Process\<close>), which calls it.
\<close>

section \<open>Processors\<close>

text \<open>
  A processor casts the message to the class it expects; \<open>None\<close> is undefined behaviour: a message
  of another class, or \<open>user(0)\<close> of a request without users.  Console output is left out.
\<close>

definition Server_SigninProcessor_Process :: "created \<Rightarrow> MessageRoute \<Rightarrow> MessageRoute option" where
  "Server_SigninProcessor_Process msg r = (case msg of
       Known (Msg_reqSignin req) \<Rightarrow> (case reqSignin_user req of
           [] \<Rightarrow> None
         | u # _ \<Rightarrow> Send (Msg_rspSignin (rspSignin_new\<lparr>rspSignin_name := sUser_name u, rspSignin_succ := True\<rparr>)) r)
     | _ \<Rightarrow> None)"

definition Server_MoveProcessor_Process :: "created \<Rightarrow> MessageRoute \<Rightarrow> MessageRoute option" where
  "Server_MoveProcessor_Process msg r = (case msg of
       Known (Msg_reqMove req) \<Rightarrow>
         Send (Msg_rspMove (rspMove_new\<lparr>rspMove_error := ascii ''Move Function Success with No Error''\<rparr>)) r
     | _ \<Rightarrow> None)"

definition Client_SigninProcessor_Process :: "created \<Rightarrow> MessageRoute \<Rightarrow> MessageRoute option" where
  "Client_SigninProcessor_Process msg r = (case msg of Known (Msg_rspSignin rsp) \<Rightarrow> Some r | _ \<Rightarrow> None)"

definition Client_MoveProcessor_Process :: "created \<Rightarrow> MessageRoute \<Rightarrow> MessageRoute option" where
  "Client_MoveProcessor_Process msg r = (case msg of Known (Msg_rspMove rsp) \<Rightarrow> Some r | _ \<Rightarrow> None)"

text \<open>The virtual call.\<close>

fun Processor_Process :: "Processor \<Rightarrow> created \<Rightarrow> MessageRoute \<Rightarrow> MessageRoute option" where
  "Processor_Process Server_SigninProcessor msg r = Server_SigninProcessor_Process msg r"
| "Processor_Process Server_MoveProcessor msg r = Server_MoveProcessor_Process msg r"
| "Processor_Process Client_SigninProcessor msg r = Client_SigninProcessor_Process msg r"
| "Processor_Process Client_MoveProcessor msg r = Client_MoveProcessor_Process msg r"

section \<open>Dispatchers\<close>

definition ServerMessageDispatcher :: ProcessorMap where
  "ServerMessageDispatcher =
     Map.empty(GetTypeName (Msg_reqSignin reqSignin_new) \<mapsto> Server_SigninProcessor,
       GetTypeName (Msg_reqMove reqMove_new) \<mapsto> Server_MoveProcessor,
       GetTypeName (Msg_reqMove reqMove_new) \<mapsto> Server_MoveProcessor)"

definition ClientMessageDispatcher :: ProcessorMap where
  "ClientMessageDispatcher =
     Map.empty(GetTypeName (Msg_rspSignin rspSignin_new) \<mapsto> Client_SigninProcessor,
       GetTypeName (Msg_rspMove rspMove_new) \<mapsto> Client_MoveProcessor)"

definition Dispatch :: "ProcessorMap \<Rightarrow> bytes \<Rightarrow> created \<Rightarrow> MessageRoute \<Rightarrow> MessageRoute option" where
  "Dispatch m_ProcessorMap typeName spMsg r =
     (case m_ProcessorMap typeName of
        Some p \<Rightarrow> Processor_Process p spMsg r
      | None \<Rightarrow> Some r)"

section \<open>ProcessRecv\<close>

text \<open>What an \<open>istream\<close> still holds behind a coded stream: the bytes in the block of the stream are gone.\<close>

definition left_in :: "cis \<Rightarrow> bytes" where
  "left_in s = (case input s of None \<Rightarrow> [] | Some i \<Rightarrow> source i)"

text \<open>
  \<open>mDataStreamReceive.size() < totalLen - sizeof(int)\<close>, computed in \<open>size_t\<close>.
\<close>

definition not_enough :: "bytes \<Rightarrow> uint32 \<Rightarrow> bool" where
  "not_enough data totalLen \<longleftrightarrow> (word_of_nat (length data) :: uint64) < ucast totalLen - 4"

definition parse_created :: "bytes \<Rightarrow> created \<Rightarrow> created option" where
  "parse_created data msg = (case msg of
       Known m \<Rightarrow> map_option (Known \<circ> snd) (Message_ParseFromArray data m)
     | Foreign name \<Rightarrow> Some (Foreign name))"

text \<open>
  The second half of \<open>ProcessRecv\<close>, from the stream \<open>iis\<close> on, for a frame of \<open>totalLen\<close>.  The
  results of the reads and of both parses are not used.
\<close>

definition ProcessFrame :: "(bytes \<Rightarrow> bool) \<Rightarrow> uint32 \<Rightarrow> MessageRoute \<Rightarrow> (bool \<times> MessageRoute) option" where
  "ProcessFrame linked totalLen r =
     (let cis = mk_CodedInputStream (mk_IstreamInputStream (mDataStreamReceive r) (sint (totalLen - 4)));
          (hl, cis) = ReadLittleEndian32 cis;
          headLen = (case hl of None \<Rightarrow> 0 | Some v \<Rightarrow> v)
      in if headLen > word_of_nat TEMP_BUFFER_SIZE
         then Some (False, r\<lparr>mPreRecivesTotalLen := 0, mDataStreamReceive := left_in cis\<rparr>)
         else let (ok, got, cis) = ReadRaw (unat headLen) cis;
                  temp = overwrite (mTempBufferProcess r) 0 got
              in do {
                (parsed, cmdType) \<leftarrow> ParseFromArray CmdType_MergePartialFromCodedStream CmdType_Clear
                    (take (unat headLen) temp) CmdType_new;
                let bodyLen = sint (totalLen - headLen - 8) in
                if bodyLen < 0 \<or> bodyLen > int TEMP_BUFFER_SIZE
                then Some (False, r\<lparr>mPreRecivesTotalLen := 0, mDataStreamReceive := left_in cis,
                                    mTempBufferProcess := temp\<rparr>)
                else let (ok, got, cis) = ReadRaw (nat bodyLen) cis;
                         temp = overwrite temp 0 got;
                         r = r\<lparr>mDataStreamReceive := left_in cis, mTempBufferProcess := temp\<rparr>
                     in do {
                       r \<leftarrow> (case createMessage linked (CmdType_type cmdType) of
                           None \<Rightarrow> Some r
                         | Some spmsg \<Rightarrow> do {
                             spmsg \<leftarrow> parse_created (take (nat bodyLen) temp) spmsg;
                             (case m_spMessageDispatcher r of
                                None \<Rightarrow> Some r
                              | Some d \<Rightarrow> Dispatch d (CmdType_type cmdType) spmsg r)
                           });
                       Some (True, r\<lparr>mPreRecivesTotalLen := 0\<rparr>)
                     }
              })"

definition ProcessRecv :: "(bytes \<Rightarrow> bool) \<Rightarrow> MessageRoute \<Rightarrow> (bool \<times> MessageRoute) option" where
  "ProcessRecv linked r =
     (if length (mDataStreamReceive r) < 8 then Some (False, r)
      else if sint (mPreRecivesTotalLen r) > 0
      then (let totalLen = mPreRecivesTotalLen r in
            if not_enough (mDataStreamReceive r) totalLen then Some (False, r)
            else ProcessFrame linked totalLen r)
      else (let cishead = mk_CodedInputStream (mk_IstreamInputStream (mDataStreamReceive r) 4);
                (ok, got, cishead) = ReadRaw 4 cishead;
                readhead = overwrite [0, 0, 0, 0] 0 got;
                r = r\<lparr>mDataStreamReceive := left_in cishead\<rparr>
            in if readhead \<noteq> head then Some (False, r\<lparr>mPreRecivesTotalLen := 0\<rparr>)
               else let cistotal = mk_CodedInputStream (mk_IstreamInputStream (mDataStreamReceive r) 4);
                        (tl, cistotal) = ReadLittleEndian32 cistotal;
                        totalLen = (case tl of None \<Rightarrow> 0 | Some v \<Rightarrow> v);
                        r = r\<lparr>mDataStreamReceive := left_in cistotal\<rparr>
                    in if not_enough (mDataStreamReceive r) totalLen
                       then Some (False, r\<lparr>mPreRecivesTotalLen := totalLen\<rparr>)
                       else ProcessFrame linked totalLen r))"

text \<open>
  \<open>ProcessSend\<close> calls \<open>m_fSendFunc\<close> with the send buffer; the result tells whether it does.
\<close>

definition ProcessSend :: "MessageRoute \<Rightarrow> bool" where
  "ProcessSend r \<longleftrightarrow> mDataStreamSend r \<noteq> []"

text \<open>\<open>Process\<close>: the route afterwards, and whether \<open>m_fSendFunc(mDataStreamSend)\<close> is called.\<close>

definition Route_Process :: "(bytes \<Rightarrow> bool) \<Rightarrow> MessageRoute \<Rightarrow> (bool \<times> MessageRoute) option" where
  "Route_Process linked r = do {
     (ok, r) \<leftarrow> ProcessRecv linked r;
     Some (ProcessSend r, r)
   }"

section \<open>Streams over the receive buffer\<close>

lemma Refresh_first:
  assumes "int (length data) \<le> INT_MAX" and "NextNonEmpty i = Some (data, j)"
  shows "Refresh_in \<lparr>buffer = [], after_limit = [], input = Some i, total_bytes_read = 0, overflow_bytes = 0,
       last_tag = 0, legitimate_message_end = False, current_limit = INT_MAX, total_bytes_limit = INT_MAX,
       recursion_budget = b, recursion_limit = b, ub = False\<rparr> =
     (True, \<lparr>buffer = data, after_limit = [], input = Some j, total_bytes_read = int (length data), overflow_bytes = 0,
       last_tag = 0, legitimate_message_end = False, current_limit = INT_MAX, total_bytes_limit = INT_MAX,
       recursion_budget = b, recursion_limit = b, ub = False\<rparr>)"
  using assms by (simp add: Refresh_in_def RecomputeBufferLimits_def Let_def)

lemma NextNonEmpty_block:
  "0 < bs \<Longrightarrow> data \<noteq> [] \<Longrightarrow> NextNonEmpty (mk_IstreamInputStream data bs) =
     Some (take (nat bs) data, \<lparr>source = drop (nat bs) data, block_size = nat bs\<rparr>)"
  by (simp add: NextNonEmpty_eq Next_def mk_IstreamInputStream_def)

lemma mk_stream:
  assumes "0 < bs" and "bs \<le> INT_MAX" and "data \<noteq> []"
  shows "buffer (mk_CodedInputStream (mk_IstreamInputStream data bs)) = take (nat bs) data"
    and "left_in (mk_CodedInputStream (mk_IstreamInputStream data bs)) = drop (nat bs) data"
proof -
  have "int (length (take (nat bs) data)) \<le> INT_MAX" using assms(1,2) by simp
  note f = Refresh_first [OF this NextNonEmpty_block [OF assms(1,3)]]
  show "buffer (mk_CodedInputStream (mk_IstreamInputStream data bs)) = take (nat bs) data"
    and "left_in (mk_CodedInputStream (mk_IstreamInputStream data bs)) = drop (nat bs) data"
    unfolding mk_CodedInputStream_def kDefaultTotalBytesLimit_def f by (simp_all add: left_in_def)
qed

lemma ReadRaw_buffer:
  "n \<le> length (buffer s) \<Longrightarrow> ReadRaw n s = (True, take n (buffer s), s\<lparr>buffer := drop n (buffer s)\<rparr>)"
  by (subst ReadRaw.simps) (simp add: BufferSize_def Advance_def)

lemma ReadLittleEndian32_buffer:
  "buffer s = le32 v @ p \<Longrightarrow> ReadLittleEndian32 s = (Some v, s\<lparr>buffer := p\<rparr>)"
  by (simp add: ReadLittleEndian32_def BufferSize_def Advance_def ReadLittleEndian32FromArray_le32)

lemma left_in_buffer [simp]: "left_in (s\<lparr>buffer := b\<rparr>) = left_in s"
  by (simp add: left_in_def)

lemma length_ReadRaw: "length (fst (snd (ReadRaw n s))) \<le> n"
proof (induction n s rule: ReadRaw.induct)
  case (1 n s)
  show ?case
    using "1.IH" [OF _ refl refl] by (subst ReadRaw.simps) (fastforce simp: Let_def BufferSize_def)
qed

lemma length_overwrite_0: "length xs \<le> length mem \<Longrightarrow> length (overwrite mem 0 xs) = length mem"
  by (simp add: overwrite_def)

lemma bind_Some_map: "(x \<bind> (\<lambda>r. Some (g r))) = map_option g x"
  by (cases x) simp_all

section \<open>A whole frame\<close>

text \<open>What the route does with a message it has read.\<close>

definition deliver :: "AnyMessage \<Rightarrow> MessageRoute \<Rightarrow> MessageRoute option" where
  "deliver m r = (case m_spMessageDispatcher r of
       None \<Rightarrow> Some r
     | Some d \<Rightarrow> Dispatch d (GetTypeName m) (Known m) r)"

text \<open>The messages whose frames fit the buffer of the receiver.\<close>

definition sendable :: "AnyMessage \<Rightarrow> bool" where
  "sendable m \<longleftrightarrow> valid 100 m \<and> length (encode m) \<le> TEMP_BUFFER_SIZE"

lemma unat_small: "n < 2 ^ 32 \<Longrightarrow> unat (word_of_nat n :: uint32) = n"
  by (simp add: unsigned_of_nat take_bit_nat_eq_self)

lemma frame_len_bounds: "sendable m \<Longrightarrow> 8 \<le> frame_len m \<and> frame_len m \<le> 1082"
  using length_cmd_of [of m] by (simp add: frame_len_def sendable_def TEMP_BUFFER_SIZE_def)

definition after_frame :: "AnyMessage \<Rightarrow> bytes \<Rightarrow> MessageRoute \<Rightarrow> MessageRoute" where
  "after_frame m rest r = r\<lparr>mDataStreamReceive := rest,
     mTempBufferProcess := overwrite (overwrite (mTempBufferProcess r) 0 (CmdType_encode (cmd_of m))) 0 (encode m)\<rparr>"

lemma CmdType_parse_cmd_of:
  "ParseFromArray CmdType_MergePartialFromCodedStream CmdType_Clear (CmdType_encode (cmd_of m)) CmdType_new = Some (True, cmd_of m)"
  using CmdType_msg.parse_encode [OF cmd_of_valid, of m CmdType_new] length_cmd_of [of m] by simp

lemma CmdType_type_cmd_of [simp]: "CmdType_type (cmd_of m) = GetTypeName m"
  by (simp add: cmd_of_def)

lemma ProcessFrame_body:
  assumes b: "length (encode m) < 2 ^ 30" and data: "mDataStreamReceive r = frame_rest m @ rest"
  shows "ProcessFrame linked (word_of_nat (frame_len m)) r =
     (if length (encode m) > TEMP_BUFFER_SIZE
      then Some (False, r\<lparr>mPreRecivesTotalLen := 0, mDataStreamReceive := rest,
             mTempBufferProcess := overwrite (mTempBufferProcess r) 0 (CmdType_encode (cmd_of m))\<rparr>)
      else do {
        spmsg \<leftarrow> parse_created (encode m) (Known (prototype m));
        r \<leftarrow> (case m_spMessageDispatcher r of
            None \<Rightarrow> Some (after_frame m rest r)
          | Some d \<Rightarrow> Dispatch d (GetTypeName m) spmsg (after_frame m rest r));
        Some (True, r\<lparr>mPreRecivesTotalLen := 0\<rparr>)
      })"
proof -
  let ?h = "CmdType_encode (cmd_of m)" and ?b = "encode m"
  let ?T = "word_of_nat (frame_len m) :: uint32"
  have h: "length ?h \<le> 50" by (rule length_cmd_of)
  have T4: "?T - 4 = word_of_nat (length (frame_rest m))" and T8: "?T - word_of_nat (length ?h) - 8 = word_of_nat (length ?b)"
    by (simp_all add: frame_len_def frame_rest_def)
  have rest: "0 < length (frame_rest m)" "int (length (frame_rest m)) \<le> INT_MAX"
    using h b by (simp_all add: frame_rest_def)
  have n: "sint (?T - 4) = int (length (frame_rest m))"
    unfolding T4 by (rule sint_of_length) (use rest in simp)
  let ?s = "mk_CodedInputStream (mk_IstreamInputStream (mDataStreamReceive r) (sint (?T - 4)))"
  have s: "buffer ?s = le32 (word_of_nat (length ?h)) @ ?h @ ?b" "left_in ?s = rest"
    unfolding n data using mk_stream [of "int (length (frame_rest m))" "frame_rest m @ rest"] rest
    by (simp_all add: frame_rest_def [symmetric])
  have bl: "sint (?T - word_of_nat (length ?h) - 8) = int (length ?b)"
    unfolding T8 by (rule sint_of_length) (use b in simp)
  have hl: "unat (word_of_nat (length ?h) :: uint32) = length ?h" "\<not> (word_of_nat (length ?h) :: uint32) > 1024"
    using h by (simp_all add: unat_small word_less_nat_alt)
  show ?thesis
    unfolding ProcessFrame_def Let_def ReadLittleEndian32_buffer [OF s(1)]
    by (simp add: hl bl ReadRaw_buffer s(2) take_overwrite_0 CmdType_parse_cmd_of createMessage_prototype
        TEMP_BUFFER_SIZE_def after_frame_def cong: option.case_cong)
qed

lemma ProcessFrame_frame:
  assumes m: "sendable m" and data: "mDataStreamReceive r = frame_rest m @ rest"
  shows "ProcessFrame linked (word_of_nat (frame_len m)) r =
     map_option (\<lambda>r. (True, r\<lparr>mPreRecivesTotalLen := 0\<rparr>)) (deliver m (after_frame m rest r))"
proof -
  have "parse_created (encode m) (Known (prototype m)) = Some (Known m)"
    using Message_ParseFromArray_encode [of m] m by (simp add: parse_created_def sendable_def TEMP_BUFFER_SIZE_def)
  then show ?thesis using ProcessFrame_body [OF _ data, of linked] m
    by (simp add: sendable_def TEMP_BUFFER_SIZE_def deliver_def bind_Some_map after_frame_def split: option.split)
qed

lemma le32_head: "length head = 4"
  by (simp add: head_def)

lemma not_enough_small:
  assumes "4 \<le> n" and "n < 2 ^ 31" and "length data < 2 ^ 63"
  shows "not_enough data (word_of_nat n) \<longleftrightarrow> length data < n - 4"
proof -
  obtain k where k: "n = k + 4" using assms(1) by (metis add.commute le_Suc_ex)
  have "ucast (word_of_nat n :: uint32) = (word_of_nat n :: uint64)"
    using assms(2) by (simp add: unsigned_of_nat take_bit_nat_eq_self)
  then have "ucast (word_of_nat n :: uint32) - 4 = (word_of_nat k :: uint64)" by (simp add: k)
  then show ?thesis using assms
    by (simp add: not_enough_def word_less_nat_alt unsigned_of_nat take_bit_nat_eq_self k)
qed

text \<open>The first half of \<open>ProcessRecv\<close> in front of a frame.\<close>

lemma ProcessRecv_head:
  assumes pre: "sint (mPreRecivesTotalLen r) \<le> 0" and data: "mDataStreamReceive r = head @ le32 T @ rest"
  shows "ProcessRecv linked r =
     (let r = r\<lparr>mDataStreamReceive := rest\<rparr> in
      if not_enough rest T then Some (False, r\<lparr>mPreRecivesTotalLen := T\<rparr>) else ProcessFrame linked T r)"
proof -
  let ?s = "mk_CodedInputStream (mk_IstreamInputStream (mDataStreamReceive r) 4)"
  let ?t = "mk_CodedInputStream (mk_IstreamInputStream (le32 T @ rest) 4)"
  have s: "buffer ?s = head" "left_in ?s = le32 T @ rest"
    using mk_stream [of 4 "mDataStreamReceive r"] by (simp_all add: data le32_head head_def)
  have t: "buffer ?t = le32 T @ []" "left_in ?t = rest"
    using mk_stream [of 4 "le32 T @ rest"] by (simp_all add: le32_def)
  have h: "overwrite [0, 0, 0, 0] 0 head = head" by (simp add: overwrite_def head_def)
  have "\<not> length (mDataStreamReceive r) < 8" by (simp add: data le32_head)
  then show ?thesis unfolding ProcessRecv_def Let_def
    using pre by (simp add: ReadRaw_buffer s le32_head h ReadLittleEndian32_buffer [OF t(1)] t(2))
qed

end
