(* ===== verification/RouteSpec.thy ===== *)
theory RouteSpec
  imports Dispatch "HOL-Library.Sublist"
begin

text \<open>
  What \<open>MessageRoute\<close> promises.  Bytes may arrive in any pieces and \<open>ProcessRecv\<close> may be called at
  any time: the server turns the frames into answers once each and in order (\<open>served\<close> is the
  invariant, \<open>run_events\<close> the interleaving).  The last sections treat frames that no sender
  produces, and arbitrary bytes.
\<close>

section \<open>One frame\<close>

lemma le32_inject [simp]: "le32 v = le32 w \<longleftrightarrow> v = w"
  by (metis ReadLittleEndian32FromArray_le32)

lemma ProcessRecv_frame:
  assumes "sendable m" and "sint (mPreRecivesTotalLen r) \<le> 0" and "mDataStreamReceive r = frame m @ rest"
    and "length (mDataStreamReceive r) < 2 ^ 62"
  shows "ProcessRecv linked r =
     map_option (\<lambda>r. (True, r\<lparr>mPreRecivesTotalLen := 0\<rparr>)) (deliver m (after_frame m rest r))"
proof -
  have "\<not> not_enough (frame_rest m @ rest) (word_of_nat (frame_len m))"
    using frame_len_bounds [OF assms(1)] assms(3,4) length_frame_rest [of m]
    by (subst not_enough_small) (simp_all add: frame_def)
  then show ?thesis
    using ProcessRecv_head [OF assms(2), of "word_of_nat (frame_len m)" "frame_rest m @ rest"] assms(3)
      ProcessFrame_frame [OF assms(1), of "r\<lparr>mDataStreamReceive := frame_rest m @ rest\<rparr>" rest]
    by (simp add: frame_def after_frame_def Let_def)
qed

text \<open>What has arrived and was not yet turned into a message.\<close>

definition unread :: "MessageRoute \<Rightarrow> bytes" where
  "unread r = (if sint (mPreRecivesTotalLen r) > 0 then head @ le32 (mPreRecivesTotalLen r) else []) @ mDataStreamReceive r"

lemma sint_frame_len: "sendable m \<Longrightarrow> sint (word_of_nat (frame_len m) :: int32) = int (frame_len m)"
  using frame_len_bounds [of m] by (intro sint_of_length) simp

lemma prefix_append_same: "length xs = length xs' \<Longrightarrow> prefix (xs @ ys) (xs' @ zs) \<longleftrightarrow> xs = xs' \<and> prefix ys zs"
  by (auto simp: prefix_def)

lemma prefix_longer: "prefix xs (ys @ zs) \<Longrightarrow> length ys \<le> length xs \<Longrightarrow> \<exists>us. xs = ys @ us \<and> prefix us zs"
  by (metis prefixE prefixI prefix_length_prefix same_prefix_prefix)

text \<open>One call of \<open>ProcessRecv\<close>: it takes the first frame when it is there, and waits otherwise.\<close>

lemma ProcessRecv_waits:
  assumes m: "sendable m" and p: "prefix (unread r) (frame m @ R)" and short: "length (unread r) < length (frame m)"
    and len: "length (mDataStreamReceive r) < 2 ^ 62"
  shows "\<exists>r'. ProcessRecv linked r = Some (False, r') \<and> unread r' = unread r \<and>
     r' = r\<lparr>mDataStreamReceive := mDataStreamReceive r', mPreRecivesTotalLen := mPreRecivesTotalLen r'\<rparr>"
proof (cases "length (mDataStreamReceive r) < 8")
  case True
  then show ?thesis by (simp add: ProcessRecv_def)
next
  case F8: False
  note T = frame_len_bounds [OF m]
  show ?thesis
  proof (cases "sint (mPreRecivesTotalLen r) > 0")
    case True
    then have "mPreRecivesTotalLen r = word_of_nat (frame_len m)"
      using p by (simp add: unread_def frame_def prefix_append_same)
    moreover have "length (mDataStreamReceive r) < frame_len m - 4"
      using short True le32_head length_frame_rest [of m] by (simp add: unread_def frame_def)
    ultimately have "not_enough (mDataStreamReceive r) (mPreRecivesTotalLen r)"
      using T len by (simp add: not_enough_small)
    with True F8 show ?thesis by (simp add: ProcessRecv_def)
  next
    case False
    then have "prefix (mDataStreamReceive r) ((head @ le32 (word_of_nat (frame_len m))) @ (frame_rest m @ R))"
      using p by (simp add: unread_def frame_def)
    then obtain q where q: "mDataStreamReceive r = head @ le32 (word_of_nat (frame_len m)) @ q"
      using prefix_longer F8 le32_head by fastforce
    have "length q < frame_len m - 4"
      using short False q le32_head length_frame_rest [of m] by (simp add: unread_def frame_def)
    then have "not_enough q (word_of_nat (frame_len m))" using T len q by (subst not_enough_small) simp_all
    then have "ProcessRecv linked r = Some (False, r\<lparr>mDataStreamReceive := q, mPreRecivesTotalLen := word_of_nat (frame_len m)\<rparr>)"
      using ProcessRecv_head [OF _ q, of linked] False by simp
    moreover have "unread (r\<lparr>mDataStreamReceive := q, mPreRecivesTotalLen := word_of_nat (frame_len m)\<rparr>) = unread r"
      using False q T sint_frame_len [OF m] by (simp add: unread_def)
    ultimately show ?thesis
      by (intro exI [of _ "r\<lparr>mDataStreamReceive := q, mPreRecivesTotalLen := word_of_nat (frame_len m)\<rparr>"]) auto
  qed
qed

lemma length_frame_rest_8: "8 \<le> length (frame_rest m)"
proof -
  have "4 \<le> length (GetTypeName m)" by (cases m) simp_all
  then show ?thesis
    by (cases "GetTypeName m") (simp_all add: frame_rest_def CmdType_encode_def cmd_of_def CmdType_new_def delimited_def)
qed

lemma ProcessRecv_takes:
  assumes m: "sendable m" and u: "unread r = frame m @ rest" and len: "length (unread r) < 2 ^ 62"
  shows "ProcessRecv linked r = map_option (\<lambda>r. (True, r\<lparr>mPreRecivesTotalLen := 0\<rparr>)) (deliver m (after_frame m rest r))"
proof (cases "sint (mPreRecivesTotalLen r) > 0")
  case True
  then have pre: "mPreRecivesTotalLen r = word_of_nat (frame_len m)" and d: "mDataStreamReceive r = frame_rest m @ rest"
    using u le32_head by (simp_all add: unread_def frame_def)
  have "\<not> not_enough (mDataStreamReceive r) (mPreRecivesTotalLen r)"
    using frame_len_bounds [OF m] len length_frame_rest [of m] u
    by (simp add: pre d not_enough_small unread_def)
  moreover have "\<not> length (mDataStreamReceive r) < 8" using length_frame_rest_8 [of m] by (simp add: d)
  ultimately show ?thesis using True ProcessFrame_frame [OF m d] by (simp add: ProcessRecv_def pre)
next
  case False
  then show ?thesis using ProcessRecv_frame [OF m] u len by (simp add: unread_def)
qed


section \<open>The server answers every request once, in order\<close>

text \<open>What the server sends for a message; \<open>None\<close> is the undefined \<open>user(0)\<close>.\<close>

definition answers :: "AnyMessage \<Rightarrow> AnyMessage list option" where
  "answers m = (case m of
       Msg_reqSignin q \<Rightarrow> (case reqSignin_user q of
           [] \<Rightarrow> None
         | u # _ \<Rightarrow> Some [Msg_rspSignin \<lparr>rspSignin_name = sUser_name u, rspSignin_succ = True, rspSignin_unknown = []\<rparr>])
     | Msg_reqMove q \<Rightarrow> Some [Msg_rspMove \<lparr>rspMove_error = ascii ''Move Function Success with No Error'', rspMove_unknown = []\<rparr>]
     | _ \<Rightarrow> Some [])"

lemma length_sUser_name: "length (sUser_name u) \<le> length (sUser_encode u)"
  by (simp add: sUser_encode_def delimited_def)

lemma length_reqSignin_user: "u \<in> set (reqSignin_user q) \<Longrightarrow> length (sUser_encode u) \<le> length (reqSignin_encode q)"
  by (auto simp: reqSignin_encode_def delimited_def length_concat comp_def dest!: split_list)

lemma length_answer:
  assumes "sendable m" and "answers m = Some as" and "a \<in> set as"
  shows "int (length (encode a)) \<le> INT_MAX"
proof (cases m)
  case (Msg_reqMove q)
  then show ?thesis using assms(2,3)
    by (auto simp: answers_def rspMove_encode_def ascii_def delimited_def message_size_simps varint_small)
next
  case (Msg_reqSignin q)
  then obtain u us where u: "reqSignin_user q = u # us"
      "a = Msg_rspSignin \<lparr>rspSignin_name = sUser_name u, rspSignin_succ = True, rspSignin_unknown = []\<rparr>"
    using assms(2,3) by (auto simp: answers_def split: list.splits)
  have "length (sUser_name u) \<le> 1024"
    using length_sUser_name [of u] length_reqSignin_user [of u q] assms(1) u(1)
    by (simp add: Msg_reqSignin sendable_def TEMP_BUFFER_SIZE_def)
  then show ?thesis using length_varint32 [of "word_of_nat (length (sUser_name u))"]
    by (simp add: u(2) rspSignin_encode_def delimited_def message_size_simps)
qed (use assms(2,3) in \<open>simp_all add: answers_def\<close>)

lemma Send_answer:
  "sendable m \<Longrightarrow> answers m = Some [a] \<Longrightarrow> \<exists>n. Send a r = Some (r\<lparr>mDataStreamSend := mDataStreamSend r @ frame a, totalSend := n\<rparr>)"
  using length_answer [of m "[a]" a] Send_appends [of a r] by auto

lemma ServerMessageDispatcher_values:
  "ServerMessageDispatcher (GetTypeName m) = (case m of
     Msg_reqSignin _ \<Rightarrow> Some Server_SigninProcessor | Msg_reqMove _ \<Rightarrow> Some Server_MoveProcessor | _ \<Rightarrow> None)"
  by (cases m) (simp_all add: ServerMessageDispatcher_def ascii_def)

lemma deliver_server:
  assumes "m_spMessageDispatcher r = Some ServerMessageDispatcher" and "sendable m" and "answers m = Some as"
  shows "\<exists>n. deliver m r = Some (r\<lparr>mDataStreamSend := mDataStreamSend r @ concat (map frame as), totalSend := n\<rparr>)"
proof -
  consider (signin) q where "m = Msg_reqSignin q" | (move) q where "m = Msg_reqMove q"
    | (other) "answers m = Some []" "ServerMessageDispatcher (GetTypeName m) = None"
    by (cases m) (simp_all add: ServerMessageDispatcher_values answers_def del: GetTypeName.simps)
  then show ?thesis
  proof cases
    case signin
    then obtain u us where "reqSignin_user q = u # us"
        "as = [Msg_rspSignin \<lparr>rspSignin_name = sUser_name u, rspSignin_succ = True, rspSignin_unknown = []\<rparr>]"
      using assms(3) by (auto simp: answers_def split: list.splits)
    then show ?thesis using assms Send_answer [OF assms(2), of _ r]
      by (simp add: deliver_def Dispatch_def signin ServerMessageDispatcher_values
          Server_SigninProcessor_Process_def rspSignin_new_def del: GetTypeName.simps)
  next
    case move
    then have "as = [Msg_rspMove \<lparr>rspMove_error = ascii ''Move Function Success with No Error'', rspMove_unknown = []\<rparr>]"
      using assms(3) by (simp add: answers_def)
    then show ?thesis using assms Send_answer [OF assms(2), of _ r]
      by (simp add: deliver_def Dispatch_def move ServerMessageDispatcher_values
          Server_MoveProcessor_Process_def rspMove_new_def del: GetTypeName.simps)
  next
    case other
    then show ?thesis using assms
      by (intro exI [of _ "totalSend r"]) (simp add: deliver_def Dispatch_def)
  qed
qed

text \<open>Bytes arrive and the event loop calls \<open>ProcessRecv\<close>, in any order.\<close>

datatype event = Arrive bytes | Tick

fun arrived :: "event list \<Rightarrow> bytes" where
  "arrived [] = []"
| "arrived (Arrive buf # es) = buf @ arrived es"
| "arrived (Tick # es) = arrived es"

fun handle_event :: "(bytes \<Rightarrow> bool) \<Rightarrow> event \<Rightarrow> MessageRoute \<Rightarrow> MessageRoute option" where
  "handle_event linked (Arrive buf) r = Receive buf r"
| "handle_event linked Tick r = map_option snd (ProcessRecv linked r)"

fun run_events :: "(bytes \<Rightarrow> bool) \<Rightarrow> event list \<Rightarrow> MessageRoute \<Rightarrow> MessageRoute option" where
  "run_events linked [] r = Some r"
| "run_events linked (e # es) r = handle_event linked e r \<bind> run_events linked es"

abbreviation frames :: "AnyMessage list \<Rightarrow> bytes" where
  "frames ms \<equiv> concat (map frame ms)"

definition all_answers :: "AnyMessage list \<Rightarrow> AnyMessage list" where
  "all_answers ms = concat (map (the \<circ> answers) ms)"

definition answerable :: "AnyMessage \<Rightarrow> bool" where
  "answerable m \<longleftrightarrow> sendable m \<and> answers m \<noteq> None"

text \<open>
  Of the bytes \<open>S\<close> received so far the frames of \<open>handled\<close> were turned into answers, of which the bytes
  \<open>gone\<close> have left the send buffer.
\<close>

definition served :: "bytes \<Rightarrow> AnyMessage list \<Rightarrow> bytes \<Rightarrow> MessageRoute \<Rightarrow> bool" where
  "served gone handled S r \<longleftrightarrow> route_inv r \<and> m_spMessageDispatcher r = Some ServerMessageDispatcher \<and>
     S = frames handled @ unread r \<and> gone @ mDataStreamSend r = frames (all_answers handled)"

lemma served_Arrive:
  assumes "served gone handled S r" and "length buf < 2 ^ 31"
  shows "\<exists>r'. Receive buf r = Some r' \<and> served gone handled (S @ buf) r'"
proof -
  obtain temp where "Receive buf r = Some (r\<lparr>mTempBuffer := temp, mDataStreamReceive := mDataStreamReceive r @ buf\<rparr>)"
      "length temp = TEMP_BUFFER_SIZE"
    using Receive_appends [of r buf] assms by (auto simp: served_def)
  then show ?thesis using assms by (auto simp: served_def unread_def route_inv_def)
qed

lemma served_take:
  assumes s: "served gone handled (frames handled @ frame m @ rest) r" and m: "answerable m"
    and len: "length (frame m @ rest) < 2 ^ 62"
  shows "\<exists>r'. ProcessRecv linked r = Some (True, r') \<and> served gone (handled @ [m]) (frames handled @ frame m @ rest) r'"
proof -
  obtain as where as: "answers m = Some as" "sendable m" using m by (auto simp: answerable_def)
  have u: "unread r = frame m @ rest" using s by (simp add: served_def)
  let ?r = "after_frame m rest r"
  obtain n where "deliver m ?r = Some (?r\<lparr>mDataStreamSend := mDataStreamSend ?r @ frames as, totalSend := n\<rparr>)"
    using deliver_server [OF _ as(2,1), of ?r] s by (auto simp: served_def after_frame_def)
  then have "ProcessRecv linked r =
      Some (True, ?r\<lparr>mDataStreamSend := mDataStreamSend ?r @ frames as, totalSend := n, mPreRecivesTotalLen := 0\<rparr>)"
    using ProcessRecv_takes [OF as(2) u, of linked] len u by simp
  moreover have "length (CmdType_encode (cmd_of m)) \<le> TEMP_BUFFER_SIZE" "length (encode m) \<le> TEMP_BUFFER_SIZE"
    using length_cmd_of [of m] as(2) by (simp_all add: TEMP_BUFFER_SIZE_def sendable_def)
  ultimately show ?thesis using s as(1)
    by (simp add: served_def after_frame_def unread_def all_answers_def route_inv_def length_overwrite_0)
qed

lemma served_wait:
  assumes s: "served gone handled S r" and m: "sendable m" and p: "prefix (unread r) (frame m @ R)"
    and short: "length (unread r) < length (frame m)" and len: "length (unread r) < 2 ^ 62"
  shows "\<exists>r'. ProcessRecv linked r = Some (False, r') \<and> served gone handled S r'"
proof -
  have "length (mDataStreamReceive r) < 2 ^ 62" using len by (simp add: unread_def)
  then obtain r' where "ProcessRecv linked r = Some (False, r')" "unread r' = unread r"
      "r' = r\<lparr>mDataStreamReceive := mDataStreamReceive r', mPreRecivesTotalLen := mPreRecivesTotalLen r'\<rparr>"
    using ProcessRecv_waits [OF m p short, of linked] by auto
  moreover have "served gone handled S r'"
  proof -
    have "mDataStreamSend r' = mDataStreamSend r" "route_inv r' = route_inv r" "m_spMessageDispatcher r' = m_spMessageDispatcher r"
      by (subst calculation(3), simp add: route_inv_def)+
    then show ?thesis using s calculation(2) by (simp add: served_def)
  qed
  ultimately show ?thesis by blast
qed

lemma served_Tick:
  assumes s: "served gone handled S r" and h: "prefix handled ms" and S: "prefix S (frames ms)"
    and ms: "list_all answerable ms" and len: "length S < 2 ^ 62"
  shows "\<exists>ok r' h'. ProcessRecv linked r = Some (ok, r') \<and> served gone h' S r' \<and> prefix handled h' \<and> prefix h' ms"
proof -
  have S_eq: "S = frames handled @ unread r" using s by (simp add: served_def)
  from h obtain todo where todo: "ms = handled @ todo" by (auto simp: prefix_def)
  have p: "prefix (unread r) (frames todo)" using S by (simp add: S_eq todo)
  show ?thesis
  proof (cases todo)
    case Nil
    then have "mDataStreamReceive r = []" using p by (simp add: unread_def)
    then show ?thesis using s h by (auto simp: ProcessRecv_def)
  next
    case (Cons m rest)
    then have m: "answerable m" "sendable m" using ms todo by (simp_all add: answerable_def)
    show ?thesis
    proof (cases "length (unread r) < length (frame m)")
      case True
      then obtain r' where "ProcessRecv linked r = Some (False, r')" "served gone handled S r'"
        using served_wait [OF s m(2), of "frames rest" linked] p len by (auto simp: Cons S_eq)
      then show ?thesis using h by blast
    next
      case False
      then obtain us where us: "unread r = frame m @ us" using prefix_longer [of "unread r" "frame m"] p by (auto simp: Cons)
      then obtain r' where "ProcessRecv linked r = Some (True, r')" "served gone (handled @ [m]) S r'"
        using served_take [of gone handled m us r linked] s m(1) len by (auto simp: S_eq)
      moreover have "prefix handled (handled @ [m])" "prefix (handled @ [m]) ms" by (simp_all add: todo Cons)
      ultimately show ?thesis by blast
    qed
  qed
qed

lemma served_run:
  assumes "served gone handled S r" and "prefix handled ms" and "prefix (S @ arrived es) (frames ms)"
    and "list_all answerable ms" and "length (frames ms) < 2 ^ 62" and "\<And>buf. Arrive buf \<in> set es \<Longrightarrow> length buf < 2 ^ 31"
  shows "\<exists>r' h'. run_events linked es r = Some r' \<and> served gone h' (S @ arrived es) r' \<and> prefix h' ms"
  using assms
proof (induction es arbitrary: handled S r)
  case Nil
  then show ?case by auto
next
  case (Cons e es)
  have pS: "prefix S (frames ms)" using Cons.prems(3) by (meson append_prefixD)
  then have len: "length S < 2 ^ 62" using Cons.prems(5) prefix_length_le by fastforce
  show ?case
  proof (cases e)
    case (Arrive buf)
    then obtain r1 where "Receive buf r = Some r1" "served gone handled (S @ buf) r1"
      using served_Arrive [OF Cons.prems(1), of buf] Cons.prems(6) by auto
    then show ?thesis using Cons.IH [of handled "S @ buf" r1] Cons.prems by (simp add: Arrive)
  next
    case Tick
    obtain ok r1 h where "ProcessRecv linked r = Some (ok, r1)" "served gone h S r1" "prefix h ms"
      using served_Tick [OF Cons.prems(1,2) pS Cons.prems(4) len] by blast
    then show ?thesis using Cons.IH [of h S r1] Cons.prems by (simp add: Tick)
  qed
qed

lemma served_ticks:
  assumes "served gone handled (frames (handled @ todo)) r" and "list_all answerable todo"
    and "length (frames (handled @ todo)) < 2 ^ 62"
  shows "\<exists>r'. run_events linked (replicate (length todo) Tick) r = Some r' \<and> served gone (handled @ todo) (frames (handled @ todo)) r'"
  using assms
proof (induction todo arbitrary: handled r)
  case Nil
  then show ?case by auto
next
  case (Cons m todo)
  obtain r1 where r1: "ProcessRecv linked r = Some (True, r1)" "served gone (handled @ [m]) (frames ((handled @ [m]) @ todo)) r1"
    using served_take [of gone handled m "frames todo" r linked] Cons.prems by auto
  then show ?case using Cons.IH [OF r1(2)] Cons.prems by simp
qed

lemma served_idle:
  assumes "served gone ms (frames ms) r"
  shows "\<exists>r'. run_events linked (replicate n Tick) r = Some r' \<and> served gone ms (frames ms) r'"
proof -
  have "mDataStreamReceive r = []" using assms by (auto simp: served_def unread_def)
  then have "ProcessRecv linked r = Some (False, r)" by (simp add: ProcessRecv_def)
  then have "run_events linked (replicate n Tick) r = Some r" by (induction n) simp_all
  then show ?thesis using assms by blast
qed

lemma run_events_append: "run_events linked (es @ es') r = run_events linked es r \<bind> run_events linked es'"
proof (induction es arbitrary: r)
  case (Cons e es)
  then show ?case by (cases "handle_event linked e r") simp_all
qed simp

section \<open>Frames that the receiver mishandles\<close>

text \<open>A total length of 1, 2 or 3: the remaining length wraps around and never arrives.\<close>

lemma not_enough_wrap:
  assumes "T = 1 \<or> T = 2 \<or> T = 3" and "length data < 2 ^ 63"
  shows "not_enough data (T :: uint32)"
  using assms by (auto simp: not_enough_def word_less_nat_alt unsigned_of_nat take_bit_nat_eq_self
      unsigned_minus_1_eq_mask mask_eq_exp_minus_1)

definition wedged :: "MessageRoute \<Rightarrow> bool" where
  "wedged r \<longleftrightarrow> route_inv r \<and> (mPreRecivesTotalLen r = 1 \<or> mPreRecivesTotalLen r = 2 \<or> mPreRecivesTotalLen r = 3)"

lemma wedged_ProcessRecv:
  assumes "wedged r" and "length (mDataStreamReceive r) < 2 ^ 63"
  shows "ProcessRecv linked r = Some (False, r)"
proof -
  have "sint (mPreRecivesTotalLen r) > 0" using assms(1) by (auto simp: wedged_def)
  then show ?thesis using assms not_enough_wrap [of "mPreRecivesTotalLen r"] by (auto simp: ProcessRecv_def wedged_def)
qed

lemma wedged_run:
  assumes "wedged r" and "length (mDataStreamReceive r @ arrived es) < 2 ^ 63"
    and "\<And>buf. Arrive buf \<in> set es \<Longrightarrow> length buf < 2 ^ 31"
  shows "\<exists>r'. run_events linked es r = Some r' \<and> wedged r' \<and> mDataStreamReceive r' = mDataStreamReceive r @ arrived es
     \<and> mDataStreamSend r' = mDataStreamSend r"
  using assms
proof (induction es arbitrary: r)
  case Nil
  then show ?case by auto
next
  case (Cons e es)
  show ?case
  proof (cases e)
    case (Arrive buf)
    obtain temp where t: "Receive buf r = Some (r\<lparr>mTempBuffer := temp, mDataStreamReceive := mDataStreamReceive r @ buf\<rparr>)"
        "length temp = TEMP_BUFFER_SIZE"
      using Receive_appends [of r buf] Cons.prems by (auto simp: wedged_def Arrive)
    then have w: "wedged (r\<lparr>mTempBuffer := temp, mDataStreamReceive := mDataStreamReceive r @ buf\<rparr>)"
      using Cons.prems(1) by (auto simp: wedged_def route_inv_def)
    then show ?thesis using Cons.IH [OF w] Cons.prems t(1) by (auto simp: Arrive)
  next
    case Tick
    then show ?thesis using wedged_ProcessRecv [OF Cons.prems(1), of linked] Cons.IH [OF Cons.prems(1)] Cons.prems by auto
  qed
qed

lemma short_frame_wedges:
  assumes "route_inv r" and "sint (mPreRecivesTotalLen r) \<le> 0" and "T = 1 \<or> T = 2 \<or> T = 3"
    and "mDataStreamReceive r = head @ le32 T @ rest" and "length rest < 2 ^ 63"
  shows "\<exists>r'. ProcessRecv linked r = Some (False, r') \<and> wedged r' \<and> mDataStreamReceive r' = rest
     \<and> mDataStreamSend r' = mDataStreamSend r"
  using ProcessRecv_head [OF assms(2,4)] not_enough_wrap [OF assms(3,5)] assms(1,3)
  by (auto simp: wedged_def route_inv_def)

text \<open>A total length of 4: the block size \<open>0\<close> makes the reader take 8192 bytes.\<close>

lemma mk_stream_default:
  assumes "data \<noteq> []"
  shows "buffer (mk_CodedInputStream (mk_IstreamInputStream data 0)) = take 8192 data"
    and "left_in (mk_CodedInputStream (mk_IstreamInputStream data 0)) = drop 8192 data"
  using mk_stream [of 8192 data] assms by (simp_all add: mk_IstreamInputStream_def)

lemma ProcessFrame_4:
  assumes "mDataStreamReceive r = le32 H @ rest" and "H > 1024"
  shows "ProcessFrame linked 4 r =
     Some (False, r\<lparr>mPreRecivesTotalLen := 0, mDataStreamReceive := drop 8192 (le32 H @ rest)\<rparr>)"
proof -
  have s: "buffer (mk_CodedInputStream (mk_IstreamInputStream (le32 H @ rest) 0)) = le32 H @ take 8188 rest"
    and l: "left_in (mk_CodedInputStream (mk_IstreamInputStream (le32 H @ rest) 0)) = drop 8192 (le32 H @ rest)"
    using mk_stream_default [of "le32 H @ rest"] by (simp_all add: le32_def)
  show ?thesis using assms
    by (simp add: ProcessFrame_def ReadLittleEndian32_buffer [OF s] l TEMP_BUFFER_SIZE_def)
qed

section \<open>Arbitrary input\<close>

text \<open>What the receive path changes before it dispatches.\<close>

definition recv_only :: "MessageRoute \<Rightarrow> MessageRoute \<Rightarrow> bool" where
  "recv_only r r' \<longleftrightarrow> length (mTempBufferProcess r') = TEMP_BUFFER_SIZE \<and> mTempBuffer r' = mTempBuffer r \<and>
     mDataStreamSend r' = mDataStreamSend r \<and> totalSend r' = totalSend r \<and> totalSend2 r' = totalSend2 r \<and>
     m_spMessageDispatcher r' = m_spMessageDispatcher r"

lemma recv_only_inv: "recv_only r r' \<Longrightarrow> route_inv r \<Longrightarrow> route_inv r'"
  by (simp add: recv_only_def route_inv_def)

text \<open>The class of a created message is the one its name says.\<close>

definition created_as :: "bytes \<Rightarrow> created \<Rightarrow> bool" where
  "created_as n c \<longleftrightarrow> (case c of
     Known m \<Rightarrow> GetTypeName m = n | Foreign n' \<Rightarrow> n' = n \<and> n \<notin> GetTypeName ` set prototypes)"

lemma GetTypeName_ParseFromArray: "Message_ParseFromArray data m = Some (ok, m') \<Longrightarrow> GetTypeName m' = GetTypeName m"
  by (cases m) auto

lemma created_as_createMessage: "createMessage linked n = Some c \<Longrightarrow> created_as n c"
  by (auto simp: createMessage_def created_as_def find_Some_iff find_None_iff split: option.splits if_splits)

lemma parse_created_as:
  assumes "created_as n c" and "int (length data) \<le> INT_MAX"
  shows "\<exists>c'. parse_created data c = Some c' \<and> created_as n c'"
  using assms Message_ParseFromArray_returns [OF assms(2)] GetTypeName_ParseFromArray
  by (cases c) (fastforce simp: parse_created_def created_as_def)+

text \<open>A call ends without a message, or hands one to the dispatcher.\<close>

definition outcome :: "MessageRoute \<Rightarrow> (bool \<times> MessageRoute) option \<Rightarrow> bool" where
  "outcome r x \<longleftrightarrow> (\<exists>ok r1. recv_only r r1 \<and> x = Some (ok, r1)) \<or>
     (\<exists>d n c r1. recv_only r r1 \<and> m_spMessageDispatcher r = Some d \<and> created_as n c \<and>
        x = map_option (\<lambda>r. (True, r\<lparr>mPreRecivesTotalLen := 0\<rparr>)) (Dispatch d n c r1))"

lemma outcomeI: "recv_only r r1 \<Longrightarrow> outcome r (Some (ok, r1))"
  by (auto simp: outcome_def)

lemma outcome_trans: "recv_only r r' \<Longrightarrow> outcome r' x \<Longrightarrow> outcome r x"
  by (simp add: outcome_def recv_only_def)

lemma outcome_Dispatch:
  "recv_only r r1 \<Longrightarrow> m_spMessageDispatcher r = Some d \<Longrightarrow> created_as n c \<Longrightarrow>
     outcome r (map_option (\<lambda>r. (True, r\<lparr>mPreRecivesTotalLen := 0\<rparr>)) (Dispatch d n c r1))"
  unfolding outcome_def by blast

lemma ProcessFrame_outcome:
  assumes inv: "route_inv r"
  shows "outcome r (ProcessFrame linked T r)"
proof -
  let ?cis = "mk_CodedInputStream (mk_IstreamInputStream (mDataStreamReceive r) (sint (T - 4)))"
  obtain hl s1 where 1: "ReadLittleEndian32 ?cis = (hl, s1)" by fastforce
  let ?H = "case hl of None \<Rightarrow> 0 | Some v \<Rightarrow> v"
  show ?thesis
  proof (cases "?H > word_of_nat TEMP_BUFFER_SIZE")
    case True
    then show ?thesis using inv by (simp add: ProcessFrame_def 1 outcomeI recv_only_def route_inv_def)
  next
    case False
    then have H: "unat ?H \<le> TEMP_BUFFER_SIZE" by (simp add: TEMP_BUFFER_SIZE_def word_less_nat_alt not_less)
    obtain ok got s2 where 2: "ReadRaw (unat ?H) s1 = (ok, got, s2)" by (metis surj_pair)
    let ?temp = "overwrite (mTempBufferProcess r) 0 got"
    have temp: "length ?temp = TEMP_BUFFER_SIZE"
      using length_ReadRaw [of "unat ?H" s1] inv H by (simp add: 2 length_overwrite_0 route_inv_def)
    obtain ok' cmd where 3: "ParseFromArray CmdType_MergePartialFromCodedStream CmdType_Clear (take (unat ?H) ?temp) CmdType_new = Some (ok', cmd)"
      using CmdType_msg.parse_returns [of "take (unat ?H) ?temp" CmdType_new] H by (auto simp: TEMP_BUFFER_SIZE_def min_le_iff_disj)
    let ?B = "sint (T - ?H - 8)"
    show ?thesis
    proof (cases "?B < 0 \<or> ?B > int TEMP_BUFFER_SIZE")
      case True
      then show ?thesis using False temp by (simp add: ProcessFrame_def 1 2 3 outcomeI recv_only_def)
    next
      case B: False
      obtain ok got' s3 where 4: "ReadRaw (nat ?B) s2 = (ok, got', s3)" by (metis surj_pair)
      let ?temp' = "overwrite ?temp 0 got'" and ?n = "CmdType_type cmd"
      have "length got' \<le> TEMP_BUFFER_SIZE" using length_ReadRaw [of "nat ?B" s2] B unfolding 4 by simp linarith
      then have temp': "length ?temp' = TEMP_BUFFER_SIZE" using temp by (subst length_overwrite_0) simp_all
      let ?r = "r\<lparr>mDataStreamReceive := left_in s3, mTempBufferProcess := ?temp'\<rparr>"
      have r: "recv_only r ?r" "recv_only r (?r\<lparr>mPreRecivesTotalLen := 0\<rparr>)"
        using temp' by (simp_all add: recv_only_def)
      show ?thesis
      proof (cases "createMessage linked ?n")
        case None
        then show ?thesis using False B r by (simp add: ProcessFrame_def 1 2 3 4 outcomeI)
      next
        case (Some c)
        obtain c' where c': "parse_created (take (nat ?B) ?temp') c = Some c'" "created_as ?n c'"
          using parse_created_as [OF created_as_createMessage [OF Some], of "take (nat ?B) ?temp'"] temp'
          by (auto simp: TEMP_BUFFER_SIZE_def min_le_iff_disj)
        then show ?thesis using False B r Some
          by (cases "m_spMessageDispatcher r") (simp_all add: ProcessFrame_def 1 2 3 4 bind_Some_map outcomeI outcome_Dispatch)
      qed
    qed
  qed
qed


lemma ProcessRecv_outcome:
  assumes "route_inv r"
  shows "outcome r (ProcessRecv linked r)"
proof -
  have same: "recv_only r (r\<lparr>mDataStreamReceive := data\<rparr>)" "recv_only r r"
      "recv_only r (r\<lparr>mDataStreamReceive := data, mPreRecivesTotalLen := pre\<rparr>)" for pre data
    using assms by (simp_all add: recv_only_def route_inv_def)
  have frame: "outcome r (ProcessFrame linked T r')" if "recv_only r r'" for T r'
    using outcome_trans [OF that ProcessFrame_outcome [OF recv_only_inv [OF that assms]]] .
  let ?s = "mk_CodedInputStream (mk_IstreamInputStream (mDataStreamReceive r) 4)"
  obtain ok got t where 1: "ReadRaw 4 ?s = (ok, got, t)" by (metis surj_pair)
  obtain tl t' where 2: "ReadLittleEndian32 (mk_CodedInputStream (mk_IstreamInputStream (left_in t) 4)) = (tl, t')"
    by (metis surj_pair)
  let ?T = "case tl of None \<Rightarrow> 0 | Some v \<Rightarrow> v"
  consider "length (mDataStreamReceive r) < 8"
    | "\<not> length (mDataStreamReceive r) < 8" "sint (mPreRecivesTotalLen r) > 0"
    | "\<not> length (mDataStreamReceive r) < 8" "\<not> sint (mPreRecivesTotalLen r) > 0" by blast
  then show ?thesis
  proof cases
    case 1
    then show ?thesis by (simp add: ProcessRecv_def outcomeI same)
  next
    case 2
    then show ?thesis
      by (cases "not_enough (mDataStreamReceive r) (mPreRecivesTotalLen r)")
        (simp_all add: ProcessRecv_def outcomeI same frame)
  next
    case 3
    note eq = 3 \<open>ReadRaw 4 ?s = (ok, got, t)\<close> 2
    show ?thesis
    proof (cases "overwrite [0, 0, 0, 0] 0 got = head")
      case True
      then show ?thesis using eq frame [OF same(1)] outcomeI [OF same(3)]
        by (cases "not_enough (left_in t') ?T") (simp_all add: ProcessRecv_def)
    next
      case False
      then show ?thesis using eq outcomeI [OF same(3)] by (simp add: ProcessRecv_def)
    qed
  qed
qed

text \<open>The processors get the class they expect.\<close>

lemma ClientMessageDispatcher_values:
  "ClientMessageDispatcher (GetTypeName m) = (case m of
     Msg_rspSignin _ \<Rightarrow> Some Client_SigninProcessor | Msg_rspMove _ \<Rightarrow> Some Client_MoveProcessor | _ \<Rightarrow> None)"
  by (cases m) (simp_all add: ClientMessageDispatcher_def ascii_def)

lemma prototype_names: "GetTypeName m \<in> GetTypeName ` set prototypes"
  by (cases m) (simp_all add: prototypes_def)

lemma dispatchers_known:
  "n \<notin> GetTypeName ` set prototypes \<Longrightarrow> ServerMessageDispatcher n = None \<and> ClientMessageDispatcher n = None"
  by (auto simp: ServerMessageDispatcher_def ClientMessageDispatcher_def prototypes_def)

lemma client_Dispatch: "created_as n c \<Longrightarrow> Dispatch ClientMessageDispatcher n c r = Some r"
proof (cases c)
  case (Known m)
  then show "created_as n c \<Longrightarrow> ?thesis"
    by (cases m) (auto simp: created_as_def Dispatch_def ClientMessageDispatcher_values
        Client_SigninProcessor_Process_def Client_MoveProcessor_Process_def simp del: GetTypeName.simps)
qed (simp add: created_as_def Dispatch_def dispatchers_known)

lemma client_ProcessRecv:
  assumes "route_inv r" and "m_spMessageDispatcher r = Some ClientMessageDispatcher"
  shows "\<exists>ok r'. ProcessRecv linked r = Some (ok, r') \<and> route_inv r' \<and> mDataStreamSend r' = mDataStreamSend r
     \<and> m_spMessageDispatcher r' = Some ClientMessageDispatcher"
proof -
  have inv: "route_inv r1 \<and> mDataStreamSend r1 = mDataStreamSend r \<and> m_spMessageDispatcher r1 = Some ClientMessageDispatcher"
    if "recv_only r r1" for r1
    using recv_only_inv [OF that assms(1)] that assms(2) by (simp add: recv_only_def)
  from ProcessRecv_outcome [OF assms(1), of linked] consider
    (quiet) ok r1 where "recv_only r r1" "ProcessRecv linked r = Some (ok, r1)"
  | (message) n c r1 where "recv_only r r1" "created_as n c" "ProcessRecv linked r =
        map_option (\<lambda>r. (True, r\<lparr>mPreRecivesTotalLen := 0\<rparr>)) (Dispatch ClientMessageDispatcher n c r1)"
    using assms(2) unfolding outcome_def by auto
  then show ?thesis
  proof cases
    case quiet
    then show ?thesis using inv by blast
  next
    case message
    then show ?thesis using inv [OF message(1)] by (auto simp: client_Dispatch route_inv_def)
  qed
qed

lemma server_Dispatch:
  assumes "created_as n c"
  shows "(\<exists>q. c = Known (Msg_reqSignin q) \<and> reqSignin_user q = [] \<and> Dispatch ServerMessageDispatcher n c r = None) \<or>
     (\<exists>r'. Dispatch ServerMessageDispatcher n c r = Some r' \<and> send_only r r')"
proof (cases c)
  case (Known m)
  have n: "n = GetTypeName m" using assms Known by (simp add: created_as_def)
  consider (signin) q where "m = Msg_reqSignin q" | (move) q where "m = Msg_reqMove q"
    | (other) "ServerMessageDispatcher (GetTypeName m) = None"
    by (cases m) (simp_all add: ServerMessageDispatcher_values del: GetTypeName.simps)
  then show ?thesis
  proof cases
    case signin
    then show ?thesis using Known Send_total
      by (cases "reqSignin_user q") (simp_all add: n Dispatch_def ServerMessageDispatcher_values
          Server_SigninProcessor_Process_def del: GetTypeName.simps)
  next
    case move
    then show ?thesis using Known Send_total
      by (simp add: n Dispatch_def ServerMessageDispatcher_values Server_MoveProcessor_Process_def
          del: GetTypeName.simps)
  qed (simp add: n Dispatch_def)
qed (use assms in \<open>simp add: created_as_def Dispatch_def dispatchers_known\<close>)

text \<open>All bytes are there: the remaining calls answer everything.\<close>

lemma run_answers_all:
  assumes "list_all answerable ms" and "arrived es = frames ms" and "length (frames ms) < 2 ^ 62"
    and "\<And>buf. Arrive buf \<in> set es \<Longrightarrow> length buf < 2 ^ 31"
    and "length temp = TEMP_BUFFER_SIZE" and "length temp' = TEMP_BUFFER_SIZE"
  shows "\<exists>r. run_events linked (es @ replicate (length ms) Tick)
       (SetMessageDispatcher ServerMessageDispatcher (MessageRoute_new 0 temp temp')) = Some r
     \<and> mDataStreamSend r = frames (all_answers ms) \<and> mDataStreamReceive r = []"
proof -
  let ?r = "SetMessageDispatcher ServerMessageDispatcher (MessageRoute_new 0 temp temp')"
  have "served [] [] [] ?r" using assms(5,6)
    by (simp add: served_def SetMessageDispatcher_def MessageRoute_new_def route_inv_def unread_def all_answers_def)
  then obtain r h where r: "run_events linked es ?r = Some r" "served [] h (frames ms) r" "prefix h ms"
    using served_run [of "[]" "[]" "[]" ?r ms es linked] assms by auto
  then obtain todo where ms: "ms = h @ todo" by (auto simp: prefix_def)
  then obtain r1 where r1: "run_events linked (replicate (length todo) Tick) r = Some r1" "served [] ms (frames ms) r1"
    using served_ticks [of "[]" h todo r linked] r(2) assms(1,3) by auto
  obtain r2 where r2: "run_events linked (replicate (length h) Tick) r1 = Some r2" "served [] ms (frames ms) r2"
    using served_idle [OF r1(2)] by blast
  have "run_events linked (es @ replicate (length ms) Tick) ?r = Some r2"
    using r(1) r1(1) r2(1) by (simp add: ms run_events_append replicate_add add.commute [of "length h"])
  then show ?thesis using r2(2) by (auto simp: served_def unread_def)
qed

section \<open>Properties\<close>

text \<open>A request and a route for the concrete instances.\<close>

definition sample_move :: AnyMessage where
  "sample_move = Msg_reqMove \<lparr>reqMove_forward = 0x42C80000, reqMove_angle = 0x43480000, reqMove_unknown = []\<rparr>"

definition sample_route :: "ProcessorMap \<Rightarrow> MessageRoute" where
  "sample_route d = SetMessageDispatcher d
     (MessageRoute_new 0 (replicate TEMP_BUFFER_SIZE 0) (replicate TEMP_BUFFER_SIZE 0))"

lemma sample_move_answerable: "answerable sample_move" and length_frame_sample: "length (frame sample_move) < 2000"
proof -
  have "length (encode sample_move) \<le> 20"
    by (simp add: sample_move_def reqMove_encode_def message_size_simps)
  then show "answerable sample_move" and "length (frame sample_move) < 2000"
    using length_cmd_of [of sample_move]
    by (simp_all add: answerable_def sendable_def TEMP_BUFFER_SIZE_def answers_def sample_move_def
        reqMove_valid_def float_ok_def float_nonzero_def frame_def frame_rest_def head_def)
qed

text \<open>C1: the server's receive path.  For every way the bytes of the frames of \<open>ms\<close> can arrive, with
  \<open>ProcessRecv\<close> called at any moments in between, the send buffer holds exactly the frames of the
  answers to the first \<open>k\<close> messages, and the bytes behind those \<open>k\<close> frames are kept.
  The length the constructor leaves uninitialised is 0 here.\<close>

theorem server_answers_in_order:
  assumes "list_all answerable ms" and "prefix (arrived es) (frames ms)" and "length (frames ms) < 2 ^ 62"
    and "\<And>buf. Arrive buf \<in> set es \<Longrightarrow> length buf < 2 ^ 31"
    and "length temp = TEMP_BUFFER_SIZE" and "length temp' = TEMP_BUFFER_SIZE"
  shows "\<exists>r k. run_events linked es (SetMessageDispatcher ServerMessageDispatcher (MessageRoute_new 0 temp temp')) = Some r
     \<and> mDataStreamSend r = frames (all_answers (take k ms))
     \<and> unread r = drop (length (frames (take k ms))) (arrived es)"
proof -
  let ?r = "SetMessageDispatcher ServerMessageDispatcher (MessageRoute_new 0 temp temp')"
  have "served [] [] [] ?r" using assms(5,6)
    by (simp add: served_def SetMessageDispatcher_def MessageRoute_new_def route_inv_def unread_def all_answers_def)
  then obtain r h where r: "run_events linked es ?r = Some r" "served [] h (arrived es) r" "prefix h ms"
    using served_run [of "[]" "[]" "[]" ?r ms es linked] assms by auto
  then have "take (length h) ms = h" by (auto simp: prefix_def)
  with r show ?thesis by (intro exI [of _ r] exI [of _ "length h"]) (simp add: served_def)
qed

theorem server_answers_in_order_witness:
  "\<exists>r k. run_events (\<lambda>_. False) [Arrive (take 5 (frame sample_move)), Tick, Arrive (drop 5 (frame sample_move)), Tick]
       (sample_route ServerMessageDispatcher) = Some r
     \<and> mDataStreamSend r = frames (all_answers (take k [sample_move]))"
proof -
  let ?es = "[Arrive (take 5 (frame sample_move)), Tick, Arrive (drop 5 (frame sample_move)), Tick]"
  have "\<exists>r k. run_events (\<lambda>_. False) ?es (sample_route ServerMessageDispatcher) = Some r
      \<and> mDataStreamSend r = frames (all_answers (take k [sample_move]))
      \<and> unread r = drop (length (frames (take k [sample_move]))) (arrived ?es)"
    unfolding sample_route_def
    by (rule server_answers_in_order) (use sample_move_answerable length_frame_sample in auto)
  then show ?thesis by blast
qed

text \<open>C7: once all bytes of the frames of \<open>ms\<close> have arrived, as many further calls of \<open>ProcessRecv\<close> as
  there are messages answer all of them and empty the receive buffer.
  The length the constructor leaves uninitialised is 0 here.\<close>

theorem server_answers_all:
  assumes "list_all answerable ms" and "arrived es = frames ms" and "length (frames ms) < 2 ^ 62"
    and "\<And>buf. Arrive buf \<in> set es \<Longrightarrow> length buf < 2 ^ 31"
    and "length temp = TEMP_BUFFER_SIZE" and "length temp' = TEMP_BUFFER_SIZE"
  shows "\<exists>r. run_events linked (es @ replicate (length ms) Tick)
       (SetMessageDispatcher ServerMessageDispatcher (MessageRoute_new 0 temp temp')) = Some r
     \<and> mDataStreamSend r = frames (all_answers ms) \<and> mDataStreamReceive r = []"
  by (rule run_answers_all [OF assms])

theorem server_answers_all_witness:
  "\<exists>r. run_events (\<lambda>_. False) ([Arrive (frame sample_move), Arrive (frame sample_move)] @ replicate 2 Tick)
       (sample_route ServerMessageDispatcher) = Some r
     \<and> mDataStreamSend r = frames (all_answers [sample_move, sample_move]) \<and> mDataStreamReceive r = []"
proof -
  let ?es = "[Arrive (frame sample_move), Arrive (frame sample_move)]"
  have "\<exists>r. run_events (\<lambda>_. False) (?es @ replicate (length [sample_move, sample_move]) Tick)
       (sample_route ServerMessageDispatcher) = Some r
     \<and> mDataStreamSend r = frames (all_answers [sample_move, sample_move]) \<and> mDataStreamReceive r = []"
    unfolding sample_route_def
    by (rule server_answers_all) (use sample_move_answerable length_frame_sample in auto)
  then show ?thesis by (simp add: numeral_2_eq_2)
qed

text \<open>C34: a frame whose total length is 1, 2 or 3 silences the connection.  The number of bytes to
  wait for wraps around, so whatever arrives afterwards is stored and never looked at.\<close>

theorem short_frame_silences:
  assumes "route_inv r" and "sint (mPreRecivesTotalLen r) \<le> 0" and "T = 1 \<or> T = 2 \<or> T = 3"
    and "mDataStreamReceive r = head @ le32 T @ rest" and "length (rest @ arrived es) < 2 ^ 63"
    and "\<And>buf. Arrive buf \<in> set es \<Longrightarrow> length buf < 2 ^ 31"
  shows "\<exists>r'. run_events linked (Tick # es) r = Some r' \<and> mDataStreamReceive r' = rest @ arrived es
     \<and> mDataStreamSend r' = mDataStreamSend r"
proof -
  obtain r1 where "ProcessRecv linked r = Some (False, r1)" "wedged r1" "mDataStreamReceive r1 = rest"
      "mDataStreamSend r1 = mDataStreamSend r"
    using short_frame_wedges [OF assms(1-4), of linked] assms(5) by auto
  then show ?thesis using wedged_run [of r1 es linked] assms(5,6) by auto
qed

theorem short_frame_silences_witness:
  "\<exists>r'. run_events (\<lambda>_. False) [Tick, Arrive (frame sample_move), Tick]
      ((sample_route ServerMessageDispatcher)\<lparr>mDataStreamReceive := head @ le32 3\<rparr>) = Some r'
    \<and> mDataStreamReceive r' = frame sample_move \<and> mDataStreamSend r' = []"
proof -
  let ?r = "(sample_route ServerMessageDispatcher)\<lparr>mDataStreamReceive := head @ le32 3\<rparr>"
  have r: "route_inv ?r" "sint (mPreRecivesTotalLen ?r) \<le> 0" "mDataStreamReceive ?r = head @ le32 3 @ []" "mDataStreamSend ?r = []"
    by (simp_all add: sample_route_def SetMessageDispatcher_def MessageRoute_new_def route_inv_def)
  have "\<exists>r'. run_events (\<lambda>_. False) (Tick # [Arrive (frame sample_move), Tick]) ?r = Some r'
      \<and> mDataStreamReceive r' = [] @ arrived [Arrive (frame sample_move), Tick] \<and> mDataStreamSend r' = mDataStreamSend ?r"
    by (rule short_frame_silences [OF r(1,2) _ r(3)]) (use length_frame_sample in auto)
  then show ?thesis by (simp add: r(4))
qed

text \<open>C35: a frame whose total length is 4 swallows what follows it: the reader takes a block of the
  default 8192 bytes, and a complete frame behind the short one is lost.\<close>

theorem four_byte_frame_swallows:
  assumes "sint (mPreRecivesTotalLen r) \<le> 0" and "mDataStreamReceive r = head @ le32 4 @ frame m @ rest"
  shows "ProcessRecv linked r =
     Some (False, r\<lparr>mPreRecivesTotalLen := 0, mDataStreamReceive := drop 8192 (frame m @ rest)\<rparr>)"
proof -
  have h: "head = le32 0x686270" by (simp add: head_def ascii_def le32_def drop_bit_eq_div)
  have "\<not> not_enough (frame m @ rest) 4" by (simp add: not_enough_def)
  then show ?thesis using ProcessRecv_head [OF assms(1,2), where linked = linked]
      ProcessFrame_4 [where r = "r\<lparr>mDataStreamReceive := frame m @ rest\<rparr>" and H = "0x686270" and linked = linked]
    by (simp add: frame_def h)
qed

theorem four_byte_frame_swallows_witness:
  "ProcessRecv (\<lambda>_. False) ((sample_route ServerMessageDispatcher)\<lparr>mDataStreamReceive := head @ le32 4 @ frame sample_move\<rparr>) =
     Some (False, sample_route ServerMessageDispatcher)"
proof -
  let ?r = "(sample_route ServerMessageDispatcher)\<lparr>mDataStreamReceive := head @ le32 4 @ frame sample_move\<rparr>"
  have "ProcessRecv (\<lambda>_. False) ?r =
      Some (False, ?r\<lparr>mPreRecivesTotalLen := 0, mDataStreamReceive := drop 8192 (frame sample_move @ [])\<rparr>)"
    by (rule four_byte_frame_swallows) (simp_all add: sample_route_def SetMessageDispatcher_def MessageRoute_new_def)
  then show ?thesis using length_frame_sample
    by (simp add: sample_route_def SetMessageDispatcher_def MessageRoute_new_def)
qed

text \<open>C36: a message whose body is longer than \<open>TEMP_BUFFER_SIZE\<close> can be sent, but the receiver drops
  it: the frame is consumed and nothing is dispatched.\<close>

theorem large_body_dropped:
  assumes "sint (mPreRecivesTotalLen r) \<le> 0" and "TEMP_BUFFER_SIZE < length (encode m)" and "length (encode m) < 2 ^ 30"
    and "mDataStreamReceive r = frame m @ rest" and "length rest < 2 ^ 62"
  shows "\<exists>temp. ProcessRecv linked r =
     Some (False, r\<lparr>mPreRecivesTotalLen := 0, mDataStreamReceive := rest, mTempBufferProcess := temp\<rparr>)"
proof -
  have len: "8 \<le> frame_len m" "frame_len m < 2 ^ 31" "length (frame_rest m) = frame_len m - 4"
    using assms(3) length_cmd_of [of m] length_frame_rest [of m] by (simp_all add: frame_len_def)
  have "\<not> not_enough (frame_rest m @ rest) (word_of_nat (frame_len m))"
    using len assms(5) by (subst not_enough_small) simp_all
  moreover have "mDataStreamReceive r = head @ le32 (word_of_nat (frame_len m)) @ frame_rest m @ rest"
    using assms(4) by (simp add: frame_def)
  ultimately show ?thesis
    using ProcessRecv_head [OF assms(1), where linked = linked] assms(2)
      ProcessFrame_body [OF assms(3), where r = "r\<lparr>mDataStreamReceive := frame_rest m @ rest\<rparr>" and linked = linked]
    by auto
qed

definition sample_alarm :: AnyMessage where
  "sample_alarm = Msg_reqAlarm \<lparr>reqAlarm_infomessage = replicate 2000 0x61, reqAlarm_unknown = []\<rparr>"

lemma length_sample_alarm: "TEMP_BUFFER_SIZE < length (encode sample_alarm)" "length (encode sample_alarm) < 2 ^ 30"
  using length_varint32 [of "word_of_nat 2000"]
  by (simp_all add: sample_alarm_def reqAlarm_encode_def delimited_def message_size_simps TEMP_BUFFER_SIZE_def)

theorem large_body_dropped_witness:
  "\<exists>temp. ProcessRecv (\<lambda>_. False) ((sample_route ServerMessageDispatcher)\<lparr>mDataStreamReceive := frame sample_alarm\<rparr>) =
     Some (False, (sample_route ServerMessageDispatcher)\<lparr>mTempBufferProcess := temp\<rparr>)"
proof -
  let ?r = "(sample_route ServerMessageDispatcher)\<lparr>mDataStreamReceive := frame sample_alarm\<rparr>"
  have "\<exists>temp. ProcessRecv (\<lambda>_. False) ?r =
      Some (False, ?r\<lparr>mPreRecivesTotalLen := 0, mDataStreamReceive := [], mTempBufferProcess := temp\<rparr>)"
    by (rule large_body_dropped [where m = sample_alarm]) (use length_sample_alarm in \<open>simp_all add: sample_route_def SetMessageDispatcher_def MessageRoute_new_def\<close>)
  then show ?thesis by (simp add: sample_route_def SetMessageDispatcher_def MessageRoute_new_def)
qed

text \<open>C10: no bytes from the network can make the client fail: \<open>ProcessRecv\<close> returns on every receive
  buffer, never writes outside \<open>mTempBufferProcess\<close>, and sends nothing.\<close>

theorem client_receive_safe:
  assumes "route_inv r" and "m_spMessageDispatcher r = Some ClientMessageDispatcher"
  shows "\<exists>ok r'. ProcessRecv linked r = Some (ok, r') \<and> route_inv r' \<and> mDataStreamSend r' = mDataStreamSend r"
  using client_ProcessRecv [OF assms, of linked] by blast

theorem client_receive_safe_witness:
  "\<exists>ok r'. ProcessRecv (\<lambda>_. False) ((sample_route ClientMessageDispatcher)\<lparr>mDataStreamReceive := replicate 100 0xFF\<rparr>) = Some (ok, r')
     \<and> route_inv r' \<and> mDataStreamSend r' = []"
  using client_receive_safe [of "(sample_route ClientMessageDispatcher)\<lparr>mDataStreamReceive := replicate 100 0xFF\<rparr>" "\<lambda>_. False"]
  by (simp add: sample_route_def SetMessageDispatcher_def MessageRoute_new_def route_inv_def)



text \<open>C33: such a request does take the server down: its frame is the shortest sign-in request.\<close>

theorem empty_signin_crashes:
  assumes "m_spMessageDispatcher r = Some ServerMessageDispatcher" and "sint (mPreRecivesTotalLen r) \<le> 0"
    and "mDataStreamReceive r = frame (Msg_reqSignin reqSignin_new) @ rest" and "length (mDataStreamReceive r) < 2 ^ 62"
  shows "ProcessRecv linked r = None"
proof -
  have "sendable (Msg_reqSignin reqSignin_new)"
    by (simp add: sendable_def reqSignin_valid_def reqSignin_new_def reqSignin_encode_def)
  then show ?thesis using ProcessRecv_frame [OF _ assms(2-4), of linked] assms(1)
    by (simp add: deliver_def after_frame_def Dispatch_def ServerMessageDispatcher_values
        Server_SigninProcessor_Process_def reqSignin_new_def del: GetTypeName.simps)
qed

theorem empty_signin_crashes_witness:
  "ProcessRecv (\<lambda>_. False) ((sample_route ServerMessageDispatcher)\<lparr>mDataStreamReceive := frame (Msg_reqSignin reqSignin_new)\<rparr>) = None"
proof (rule empty_signin_crashes [where rest = "[]"])
  have "length (frame (Msg_reqSignin reqSignin_new)) \<le> 70"
    using length_cmd_of [of "Msg_reqSignin reqSignin_new"]
    by (simp add: frame_def frame_rest_def head_def reqSignin_encode_def reqSignin_new_def)
  then show "length (mDataStreamReceive ((sample_route ServerMessageDispatcher)\<lparr>mDataStreamReceive := frame (Msg_reqSignin reqSignin_new)\<rparr>)) < 2 ^ 62"
    by simp
qed (simp_all add: sample_route_def SetMessageDispatcher_def MessageRoute_new_def)

text \<open>The class a processor casts its message to.\<close>

fun expects :: "Processor \<Rightarrow> created \<Rightarrow> bool" where
  "expects Server_SigninProcessor (Known (Msg_reqSignin m)) \<longleftrightarrow> True"
| "expects Server_MoveProcessor (Known (Msg_reqMove m)) \<longleftrightarrow> True"
| "expects Client_SigninProcessor (Known (Msg_rspSignin m)) \<longleftrightarrow> True"
| "expects Client_MoveProcessor (Known (Msg_rspMove m)) \<longleftrightarrow> True"
| "expects p c \<longleftrightarrow> False"

lemma registered_expects:
  assumes "created_as n c" and "d = ServerMessageDispatcher \<or> d = ClientMessageDispatcher" and "d n = Some p"
  shows "expects p c"
proof (cases c)
  case (Known m)
  then show ?thesis using assms
    by (cases m) (auto simp: created_as_def ClientMessageDispatcher_values ServerMessageDispatcher_values simp del: GetTypeName.simps)
qed (use assms dispatchers_known in \<open>auto simp: created_as_def\<close>)



end
