(* ===== verification/TcpServer.thy ===== *)
theory TcpServer
  imports RouteSpec
begin

text \<open>
  The protobuf server: \<open>TcpConnection\<close> and \<open>TcpServer\<close> (TcpServer.cpp, TcpServer.h in
  src/MiniProtobufServer) with \<open>BaseSocketConnection\<close> (src/Shared/code/utility).  One thread runs the
  handlers that are posted to the \<open>io_context\<close>, first in, first out; asio posts the completion of a
  read, write or accept.
\<close>

section \<open>Connections\<close>

text \<open>What the \<open>io_context\<close> can run for a connection; \<open>Run_handle_read\<close> carries the error flag and the
  bytes the read appends to \<open>input_buffer\<close>, \<open>Run_handle_write\<close> the number of bytes transferred.\<close>

datatype Handler =
    Run_start_read | Run_Process | Run_Send | Run_handle_read bool bytes | Run_handle_write nat

text \<open>
  \<open>reading\<close>: a read is outstanding.  \<open>writing\<close>: the writes that are outstanding, each with the bytes it
  has yet to transmit and the number of all its bytes.  \<open>received\<close> and \<open>wire\<close> are all bytes the socket has
  delivered and has taken.
\<close>

record TcpConnection =
  m_spMessageRoute :: MessageRoute
  input_buffer :: bytes
  totalrec :: uint64
  error_flag :: bool
  reading :: bool
  writing :: "(bytes \<times> nat) list"
  received :: bytes
  wire :: bytes

definition TcpConnection_new :: "int32 \<Rightarrow> bytes \<Rightarrow> bytes \<Rightarrow> TcpConnection" where
  "TcpConnection_new pre temp temp' =
     \<lparr>m_spMessageRoute = SetMessageDispatcher ServerMessageDispatcher (MessageRoute_new pre temp temp'),
      input_buffer = [], totalrec = 0, error_flag = False, reading = False, writing = [], received = [], wire = []\<rparr>"

text \<open>A handler gives the connection afterwards and the handlers it posts.\<close>

type_synonym run_result = "(TcpConnection \<times> Handler list) option"

definition start :: "TcpConnection \<Rightarrow> run_result" where
  "start c = Some (c\<lparr>totalrec := 0\<rparr>, [Run_start_read, Run_Process])"

definition SendData :: "TcpConnection \<Rightarrow> Handler list" where
  "SendData c = (if \<not> error_flag c then [Run_Send] else [])"

text \<open>
  \<open>Process\<close>.  A write that is not finished refers to memory of the send buffer, which an append may
  move: that is undefined.
\<close>

definition TcpConnection_Process :: "(bytes \<Rightarrow> bool) \<Rightarrow> TcpConnection \<Rightarrow> run_result" where
  "TcpConnection_Process linked c = do {
     (call_send, r) \<leftarrow> Route_Process linked (m_spMessageRoute c);
     if writing c \<noteq> [] \<and> mDataStreamSend r \<noteq> mDataStreamSend (m_spMessageRoute c) then None
     else Some (c\<lparr>m_spMessageRoute := r\<rparr>,
       (if call_send then SendData c else []) @ (if \<not> error_flag c then [Run_Process] else []))
   }"

definition start_read :: "TcpConnection \<Rightarrow> run_result" where
  "start_read c = Some (c\<lparr>reading := True\<rparr>, [])"

definition ReadData :: "TcpConnection \<Rightarrow> TcpConnection option" where
  "ReadData c = do {
     r \<leftarrow> Receive (input_buffer c) (m_spMessageRoute c);
     Some (c\<lparr>m_spMessageRoute := r, input_buffer := []\<rparr>)
   }"

definition handle_read :: "bool \<Rightarrow> TcpConnection \<Rightarrow> run_result" where
  "handle_read ec c =
     (if \<not> ec then do {
        let c = c\<lparr>totalrec := totalrec c + word_of_nat (length (input_buffer c))\<rparr>;
        c \<leftarrow> ReadData c;
        Some (c, if \<not> error_flag c then [Run_start_read] else [])
      }
      else Some (c\<lparr>error_flag := True\<rparr>, []))"

definition handle_write :: "TcpConnection \<Rightarrow> run_result" where
  "handle_write c = Some (c, [])"

text \<open>
  \<open>Send\<close>: \<open>async_write\<close> of the whole send buffer, of which the socket takes \<open>k\<close> bytes at once.  A write
  that is finished posts its completion.
\<close>

definition Connection_Send :: "nat \<Rightarrow> TcpConnection \<Rightarrow> TcpConnection \<times> Handler list" where
  "Connection_Send k c =
     (let data = mDataStreamSend (m_spMessageRoute c); c = c\<lparr>wire := wire c @ take k data\<rparr> in
      if length data \<le> k then (c, [Run_handle_write (length data)])
      else (c\<lparr>writing := writing c @ [(drop k data, length data)]\<rparr>, []))"

text \<open>The socket takes \<open>k\<close> more bytes of the write \<open>j\<close>.\<close>

definition write_some :: "nat \<Rightarrow> nat \<Rightarrow> TcpConnection \<Rightarrow> TcpConnection \<times> Handler list" where
  "write_some j k c =
     (let (data, n) = writing c ! j; c = c\<lparr>wire := wire c @ take k data\<rparr> in
      if length data \<le> k then (c\<lparr>writing := take j (writing c) @ drop (Suc j) (writing c)\<rparr>, [Run_handle_write n])
      else (c\<lparr>writing := (writing c)[j := (drop k data, n)]\<rparr>, []))"

text \<open>The completion of a write removes what it transmitted from the send buffer.\<close>

definition consume_send :: "nat \<Rightarrow> TcpConnection \<Rightarrow> TcpConnection" where
  "consume_send n c = c\<lparr>m_spMessageRoute := (m_spMessageRoute c)
     \<lparr>mDataStreamSend := drop n (mDataStreamSend (m_spMessageRoute c))\<rparr>\<rparr>"

text \<open>What the thread does for a handler; \<open>k\<close> is what the socket takes at once.\<close>

fun run_handler :: "(bytes \<Rightarrow> bool) \<Rightarrow> nat \<Rightarrow> Handler \<Rightarrow> TcpConnection \<Rightarrow> run_result" where
  "run_handler linked k Run_start_read c = start_read c"
| "run_handler linked k Run_Process c = TcpConnection_Process linked c"
| "run_handler linked k Run_Send c = Some (Connection_Send k c)"
| "run_handler linked k (Run_handle_read ec bs) c = handle_read ec (c\<lparr>input_buffer := input_buffer c @ bs\<rparr>)"
| "run_handler linked k (Run_handle_write n) c = handle_write (consume_send n c)"

section \<open>The server\<close>

datatype Item = Server_Process | Server_handle_accept bool nat | For nat Handler

text \<open>Connections are named by numbers; \<open>accepting\<close> is the one that waits for a client.\<close>

record TcpServer =
  conns :: "nat \<rightharpoonup> TcpConnection"
  queue :: "Item list"
  accepting :: "nat option"

definition post :: "Item list \<Rightarrow> TcpServer \<Rightarrow> TcpServer" where
  "post items s = s\<lparr>queue := queue s @ items\<rparr>"

definition start_accept :: "nat \<Rightarrow> TcpConnection \<Rightarrow> TcpServer \<Rightarrow> TcpServer" where
  "start_accept i c s = s\<lparr>conns := (conns s)(i \<mapsto> c), accepting := Some i\<rparr>"

definition TcpServer_start :: "nat \<Rightarrow> TcpConnection \<Rightarrow> TcpServer \<Rightarrow> TcpServer" where
  "TcpServer_start i c s = start_accept i c (post [Server_Process] s)"

definition TcpServer_new :: TcpServer where
  "TcpServer_new = \<lparr>conns = Map.empty, queue = [], accepting = None\<rparr>"

definition TcpServer_Process :: "TcpServer \<Rightarrow> TcpServer" where
  "TcpServer_Process s = post [Server_Process] s"

text \<open>The thread stores the connection and posts what the handler posts.\<close>

definition store :: "nat \<Rightarrow> TcpConnection \<times> Handler list \<Rightarrow> TcpServer \<Rightarrow> TcpServer" where
  "store i res s = post (map (For i) (snd res)) (s\<lparr>conns := (conns s)(i \<mapsto> fst res)\<rparr>)"

text \<open>\<open>handle_accept\<close> of the connection \<open>i\<close>; the loop over \<open>use_count\<close> ends at once, since
  \<open>sp_new_connection\<close> was reset.  The next connection to wait is \<open>c\<close>, with the name \<open>j\<close>.\<close>

definition handle_accept :: "bool \<Rightarrow> nat \<Rightarrow> nat \<Rightarrow> TcpConnection \<Rightarrow> TcpServer \<Rightarrow> TcpServer option" where
  "handle_accept ec i j c s =
     (if \<not> ec then do {
        ci \<leftarrow> conns s i;
        res \<leftarrow> start ci;
        Some (start_accept j c (store i res s))
      }
      else Some (start_accept j c s))"


section \<open>Any order of completions\<close>

text \<open>
  \<open>eager\<close>: every write is taken by the socket at once.  A read delivers up to 65536 bytes.
  \<open>pre\<close> is what a new route finds in \<open>mPreRecivesTotalLen\<close>, which its constructor does not set.
\<close>

inductive tcp_step :: "(bytes \<Rightarrow> bool) \<Rightarrow> int32 \<Rightarrow> bool \<Rightarrow> TcpServer \<Rightarrow> TcpServer option \<Rightarrow> bool"
  for linked pre eager where
  run_server: "queue s = Server_Process # q \<Longrightarrow> tcp_step linked pre eager s (Some (TcpServer_Process (s\<lparr>queue := q\<rparr>)))"
| run_accept: "queue s = Server_handle_accept ec i # q \<Longrightarrow> conns s j = None \<Longrightarrow>
     length temp = TEMP_BUFFER_SIZE \<Longrightarrow> length temp' = TEMP_BUFFER_SIZE \<Longrightarrow>
     tcp_step linked pre eager s (handle_accept ec i j (TcpConnection_new pre temp temp') (s\<lparr>queue := q\<rparr>))"
| run_conn: "queue s = For i h # q \<Longrightarrow> conns s i = Some c \<Longrightarrow>
     (eager \<longrightarrow> length (mDataStreamSend (m_spMessageRoute c)) \<le> k) \<Longrightarrow>
     tcp_step linked pre eager s (map_option (\<lambda>res. store i res (s\<lparr>queue := q\<rparr>)) (run_handler linked k h c))"
| accepted: "accepting s = Some i \<Longrightarrow>
     tcp_step linked pre eager s (Some (post [Server_handle_accept ec i] (s\<lparr>accepting := None\<rparr>)))"
| data: "conns s i = Some c \<Longrightarrow> reading c \<Longrightarrow> bs \<noteq> [] \<Longrightarrow> length bs \<le> 65536 \<Longrightarrow>
     tcp_step linked pre eager s
       (Some (store i (c\<lparr>reading := False, received := received c @ bs\<rparr>, [Run_handle_read False bs]) s))"
| read_failed: "conns s i = Some c \<Longrightarrow> reading c \<Longrightarrow>
     tcp_step linked pre eager s (Some (store i (c\<lparr>reading := False\<rparr>, [Run_handle_read True []]) s))"
| written: "\<not> eager \<Longrightarrow> conns s i = Some c \<Longrightarrow> j < length (writing c) \<Longrightarrow> 0 < k \<Longrightarrow>
     tcp_step linked pre eager s (Some (store i (write_some j k c) s))"
| send_failed: "\<not> eager \<Longrightarrow> queue s = For i Run_Send # q \<Longrightarrow> conns s i = Some c \<Longrightarrow>
     tcp_step linked pre eager s (Some (store i (c, [Run_handle_write 0]) (s\<lparr>queue := q\<rparr>)))"
| write_failed: "\<not> eager \<Longrightarrow> conns s i = Some c \<Longrightarrow> j < length (writing c) \<Longrightarrow>
     tcp_step linked pre eager s (Some (store i (c\<lparr>writing := take j (writing c) @ drop (Suc j) (writing c)\<rparr>,
       [Run_handle_write (snd (writing c ! j) - length (fst (writing c ! j)))]) s))"

inductive tcp_reachable :: "(bytes \<Rightarrow> bool) \<Rightarrow> int32 \<Rightarrow> bool \<Rightarrow> TcpServer \<Rightarrow> bool" for linked pre eager where
  start: "length temp = TEMP_BUFFER_SIZE \<Longrightarrow> length temp' = TEMP_BUFFER_SIZE \<Longrightarrow>
     tcp_reachable linked pre eager (TcpServer_start i (TcpConnection_new pre temp temp') TcpServer_new)"
| step: "tcp_reachable linked pre eager s \<Longrightarrow> tcp_step linked pre eager s (Some s') \<Longrightarrow> tcp_reachable linked pre eager s'"

end
