(* ===== verification/SendLoop.thy ===== *)
theory SendLoop
  imports Main "HOL-Library.Sublist"
begin

text \<open>
  The sending half of a socket connection, as the server and the client have it: \<open>Process\<close> posts
  \<open>Send\<close> when the send buffer is not empty and posts itself again, \<open>Send\<close> starts a write of the whole
  buffer, and the completion of the write removes what was written.  The lemmas hold for the handlers
  of one connection in the order they are posted, whatever else the queue holds, when the socket takes
  each write at once.
\<close>

section \<open>The loop\<close>

datatype loop_step = Loop_Process | Loop_Send | Loop_Written nat | Loop_Other

fun moving :: "loop_step \<Rightarrow> bool" where
  "moving Loop_Other \<longleftrightarrow> False"
| "moving _ \<longleftrightarrow> True"

text \<open>Bytes of the send buffer that were transmitted and not yet removed.\<close>

fun transmitted :: "loop_step list \<Rightarrow> nat" where
  "transmitted [] = 0"
| "transmitted (Loop_Written n # q) = n + transmitted q"
| "transmitted (h # q) = transmitted q"

text \<open>No \<open>Send\<close> waits in front of the completion of a write.\<close>

definition sends_ok :: "loop_step list \<Rightarrow> bool" where
  "sends_ok q \<longleftrightarrow> (\<exists>n. filter moving q \<in> {[], [Loop_Process], [Loop_Send], [Loop_Send, Loop_Process],
     [Loop_Process, Loop_Written n], [Loop_Written n], [Loop_Written n, Loop_Process], [Loop_Written n, Loop_Send],
     [Loop_Written n, Loop_Send, Loop_Process]})"

text \<open>Of the bytes put into the send buffer, \<open>gone\<close> have left it, \<open>buf\<close> are in it, and \<open>wire\<close> were transmitted.\<close>

definition pump :: "'a list \<Rightarrow> 'a list \<Rightarrow> 'a list \<Rightarrow> loop_step list \<Rightarrow> bool" where
  "pump gone buf wire q \<longleftrightarrow> sends_ok q \<and> transmitted q \<le> length buf \<and> wire = gone @ take (transmitted q) buf"

section \<open>Steps of the loop\<close>

lemma transmitted_append [simp]: "transmitted (p @ q) = transmitted p + transmitted q"
  by (induction p rule: transmitted.induct) simp_all

lemma transmitted_filter: "transmitted q = transmitted (filter moving q)"
  by (induction q rule: transmitted.induct) simp_all

lemma pump_filter: "filter moving p = filter moving q \<Longrightarrow> pump gone buf wire p = pump gone buf wire q"
  using transmitted_filter [of p] transmitted_filter [of q] by (simp add: pump_def sends_ok_def)

lemma pump_Other [simp]:
  "pump gone buf wire (Loop_Other # q) = pump gone buf wire q" "pump gone buf wire (q @ [Loop_Other]) = pump gone buf wire q"
  by (rule pump_filter, simp)+

lemma sends_ok_Written: "sends_ok (Loop_Written n # q) \<Longrightarrow> sends_ok q \<and> transmitted q = 0"
  using transmitted_filter [of q] by (auto simp: sends_ok_def)

lemma sends_ok_Send: "sends_ok (Loop_Send # q) \<Longrightarrow> sends_ok (q @ [Loop_Written n]) \<and> transmitted q = 0"
  using transmitted_filter [of q] by (auto simp: sends_ok_def)

lemma sends_ok_Process:
  "sends_ok (Loop_Process # q) \<Longrightarrow> hs \<in> {[], [Loop_Process], [Loop_Send], [Loop_Send, Loop_Process]} \<Longrightarrow>
     sends_ok (q @ hs) \<and> transmitted hs = 0"
  by (auto simp: sends_ok_def)

lemma pump_new: "pump [] [] [] []" "pump [] [] [] [Loop_Process]"
  by (auto simp: pump_def sends_ok_def)

lemma pump_more: "pump gone buf wire q \<Longrightarrow> pump gone (buf @ more) wire q"
  by (simp add: pump_def)

lemma pump_Process:
  assumes "pump gone buf wire (Loop_Process # q)" and "hs \<in> {[], [Loop_Process], [Loop_Send], [Loop_Send, Loop_Process]}"
  shows "pump gone buf wire (q @ hs)"
  using assms(1) sends_ok_Process [OF _ assms(2), of q] by (simp add: pump_def)

lemma pump_Send:
  assumes "pump gone buf wire (Loop_Send # q)"
  shows "pump gone buf (wire @ buf) (q @ [Loop_Written (length buf)])" and "wire = gone"
  using assms sends_ok_Send [of q] by (simp_all add: pump_def)

lemma pump_Written:
  assumes "pump gone buf wire (Loop_Written n # q)"
  shows "pump (gone @ take n buf) (drop n buf) wire q"
  using assms sends_ok_Written [of n q] by (simp add: pump_def)

lemma pump_prefix: "pump gone buf wire q \<Longrightarrow> prefix wire (gone @ buf)"
  by (simp add: pump_def take_is_prefix)

section \<open>Progress of the loop\<close>

text \<open>
  How far the loop is from a state in which everything is transmitted; \<open>left\<close> says that there is more
  to put into the send buffer.
\<close>

fun phase :: "bool \<Rightarrow> loop_step list \<Rightarrow> nat" where
  "phase left [Loop_Process] = (if left then 0 else 2)"
| "phase left [Loop_Send, Loop_Process] = 1"
| "phase left [Loop_Process, Loop_Written n] = (if left then 0 else 3)"
| "phase left [Loop_Written n, Loop_Process] = (if left then 1 else 3)"
| "phase left _ = 2"

definition distance :: "bool \<Rightarrow> loop_step list \<Rightarrow> nat" where
  "distance left q = phase left (filter moving q)"

lemma running_shapes:
  assumes "sends_ok q" and "Loop_Process \<in> set q"
  obtains n where "filter moving q \<in> {[Loop_Process], [Loop_Send, Loop_Process], [Loop_Process, Loop_Written n],
     [Loop_Written n, Loop_Process], [Loop_Written n, Loop_Send, Loop_Process]}"
proof -
  have P: "Loop_Process \<in> set (filter moving q)" using assms(2) by simp
  obtain n where "filter moving q \<in> {[], [Loop_Process], [Loop_Send], [Loop_Send, Loop_Process],
     [Loop_Process, Loop_Written n], [Loop_Written n], [Loop_Written n, Loop_Process], [Loop_Written n, Loop_Send],
     [Loop_Written n, Loop_Send, Loop_Process]}"
    using assms(1) unfolding sends_ok_def by blast
  then show thesis using P by (elim insertE emptyE) (simp_all add: that [of n])
qed

lemma distance_Written:
  assumes "sends_ok (Loop_Written n # q)" and "Loop_Process \<in> set q"
  shows "distance left q < distance left (Loop_Written n # q)"
  by (rule running_shapes [OF assms(1)]) (use assms(2) in \<open>auto simp: distance_def\<close>)

lemma distance_Send:
  assumes "sends_ok (Loop_Send # q)" and "Loop_Process \<in> set q"
  shows "distance True (q @ [Loop_Written n]) < distance True (Loop_Send # q)"
  by (rule running_shapes [OF assms(1)]) (use assms(2) in \<open>auto simp: distance_def\<close>)

lemma distance_Process:
  assumes "sends_ok (Loop_Process # q)"
  shows "distance False (q @ [Loop_Send, Loop_Process]) < distance False (Loop_Process # q)"
  by (rule running_shapes [OF assms]) (auto simp: distance_def)

lemma distance_Other [simp]: "distance left (Loop_Other # q) = distance left q"
  by (simp add: distance_def)

end
