(* ===== verification/TcpServerSpec.thy ===== *)
theory TcpServerSpec
  imports TcpServer SendLoop
begin

text \<open>
  What the protobuf server does: it always waits for the next client, puts the answers of every
  connection on its wire in order when the sockets take each write at once, and can answer a request
  twice when they do not.
\<close>

section \<open>The server waits for clients at all times\<close>

fun is_accept :: "Item \<Rightarrow> bool" where
  "is_accept (Server_handle_accept ec i) \<longleftrightarrow> True"
| "is_accept _ \<longleftrightarrow> False"

fun handlers_for :: "nat \<Rightarrow> Item list \<Rightarrow> Handler list" where
  "handlers_for i [] = []"
| "handlers_for i (For j h # q) = (if i = j then h # handlers_for i q else handlers_for i q)"
| "handlers_for i (Server_Process # q) = handlers_for i q"
| "handlers_for i (Server_handle_accept ec j # q) = handlers_for i q"

lemma handlers_for_append [simp]: "handlers_for i (p @ q) = handlers_for i p @ handlers_for i q"
  by (induction i p rule: handlers_for.induct) simp_all

lemma handlers_for_map [simp]: "handlers_for i (map (For j) hs) = (if i = j then hs else [])"
  by (induction hs) auto

lemma is_accept_map [simp]: "filter is_accept (map (For i) hs) = []"
  by (induction hs) simp_all

text \<open>
  The connection that waits, or whose accept has completed, is new; there is exactly one, and exactly
  one \<open>Process\<close> of the server is posted.
\<close>

definition waiting :: "TcpServer \<Rightarrow> nat list" where
  "waiting s = (case accepting s of None \<Rightarrow> [] | Some i \<Rightarrow> [i]) @
     map (\<lambda>x. case x of Server_handle_accept ec i \<Rightarrow> i | _ \<Rightarrow> 0) (filter is_accept (queue s))"

definition is_new :: "int32 \<Rightarrow> TcpConnection \<Rightarrow> bool" where
  "is_new pre c \<longleftrightarrow> (\<exists>temp temp'. c = TcpConnection_new pre temp temp' \<and>
     length temp = TEMP_BUFFER_SIZE \<and> length temp' = TEMP_BUFFER_SIZE)"

definition waiting_inv :: "int32 \<Rightarrow> TcpServer \<Rightarrow> bool" where
  "waiting_inv pre s \<longleftrightarrow> (\<exists>i c. waiting s = [i] \<and> conns s i = Some c \<and> is_new pre c \<and> handlers_for i (queue s) = [])
     \<and> (\<forall>i. conns s i = None \<longrightarrow> handlers_for i (queue s) = []) \<and> count_list (queue s) Server_Process = 1"


lemma store_simps [simp]:
  "queue (store i res s) = queue s @ map (For i) (snd res)" "conns (store i res s) = (conns s)(i \<mapsto> fst res)"
  "accepting (store i res s) = accepting s" "waiting (store i res s) = waiting s"
  by (simp_all add: store_def post_def waiting_def)

lemma count_For [simp]: "count_list (map (For i) hs) Server_Process = 0"
  by (induction hs) simp_all

lemma waiting_inv_store:
  assumes "waiting_inv pre s" and "conns s i = Some c" and "\<not> is_new pre c"
  shows "waiting_inv pre (store i res s)"
  using assms by (auto simp: waiting_inv_def)

lemma waiting_inv_pop:
  assumes "waiting_inv pre s" and "queue s = For i h # q" and "conns s i = Some c"
  shows "waiting_inv pre (store i res (s\<lparr>queue := q\<rparr>))"
proof -
  obtain w d where w: "waiting s = [w]" "conns s w = Some d" "is_new pre d" "handlers_for w (queue s) = []"
    and none: "\<And>k. conns s k = None \<Longrightarrow> handlers_for k (queue s) = []" and "count_list (queue s) Server_Process = 1"
    using assms(1) unfolding waiting_inv_def by blast
  moreover have "handlers_for k q = []" if "conns s k = None" for k
    using none [OF that] assms(2) by (simp split: if_splits)
  moreover have "w \<noteq> i" using w(4) assms(2) by auto
  moreover have "waiting (s\<lparr>queue := q\<rparr>) = waiting s" using assms(2) by (simp add: waiting_def)
  ultimately show ?thesis using assms(2) by (simp add: waiting_inv_def)
qed

lemma not_new: "reading c \<Longrightarrow> \<not> is_new pre c" "writing c \<noteq> [] \<Longrightarrow> \<not> is_new pre c"
  by (auto simp: is_new_def TcpConnection_new_def)

lemma waiting_inv_accept:
  assumes "waiting_inv pre s" and "queue s = Server_handle_accept ec i # q" and "conns s j = None"
    and "length temp = TEMP_BUFFER_SIZE" and "length temp' = TEMP_BUFFER_SIZE"
    and "handle_accept ec i j (TcpConnection_new pre temp temp') (s\<lparr>queue := q\<rparr>) = Some s'"
  shows "waiting_inv pre s'"
proof -
  have "waiting s = [i]" "accepting s = None" "filter is_accept q = []" "i \<noteq> j"
    using assms(1-3) by (auto simp: waiting_inv_def waiting_def split: option.splits)
  moreover have "is_new pre (TcpConnection_new pre temp temp')" using assms(4,5) unfolding is_new_def by blast
  ultimately show ?thesis
    using assms by (auto simp: waiting_inv_def waiting_def handle_accept_def start_accept_def start_def
        bind_eq_Some_conv split: if_splits)
qed

lemma waiting_inv_step:
  assumes "waiting_inv pre s" and "tcp_step linked pre eager s (Some s')"
  shows "waiting_inv pre s'"
  using assms(2)
proof (cases rule: tcp_step.cases)
  case (run_server q)
  then show ?thesis using assms(1) by (simp add: waiting_inv_def waiting_def TcpServer_Process_def post_def)
next
  case (run_accept ec i q j temp temp')
  then show ?thesis using waiting_inv_accept [OF assms(1)] by simp
next
  case (accepted i ec)
  then show ?thesis using assms(1) by (auto simp: waiting_inv_def waiting_def post_def)
next
  case (run_conn i h q c k)
  then show ?thesis using waiting_inv_pop [OF assms(1)] by (cases "run_handler linked k h c") simp_all
next
  case (written i c j k)
  then have "writing c \<noteq> []" by auto
  then show ?thesis using written waiting_inv_store [OF assms(1)] not_new(2) by simp
next
  case (write_failed i c j)
  then have "writing c \<noteq> []" by auto
  then show ?thesis using write_failed waiting_inv_store [OF assms(1)] not_new(2) by simp
qed (use assms(1) in \<open>auto simp: waiting_inv_pop waiting_inv_store not_new\<close>)

lemma waiting_inv_reachable: "tcp_reachable linked pre eager s \<Longrightarrow> waiting_inv pre s"
proof (induction rule: tcp_reachable.induct)
  case (start temp temp' i)
  then show ?case
    by (auto simp: waiting_inv_def waiting_def TcpServer_start_def start_accept_def post_def TcpServer_new_def is_new_def)
qed (rule waiting_inv_step)

section \<open>Answers on the wire\<close>

text \<open>What a handler is for the loop that sends.\<close>

fun step_of :: "Handler \<Rightarrow> loop_step" where
  "step_of Run_Process = Loop_Process"
| "step_of Run_Send = Loop_Send"
| "step_of (Run_handle_write n) = Loop_Written n"
| "step_of _ = Loop_Other"

lemma Process_step: "Loop_Process \<in> step_of ` set q \<longleftrightarrow> Run_Process \<in> set q"
proof -
  have "step_of h = Loop_Process \<longleftrightarrow> h = Run_Process" for h by (cases h) simp_all
  then show ?thesis by (metis imageE imageI)
qed

text \<open>Bytes that were read and not yet given to the route.\<close>

fun in_flight :: "Handler list \<Rightarrow> bytes" where
  "in_flight [] = []"
| "in_flight (Run_handle_read ec bs # q) = bs @ in_flight q"
| "in_flight (h # q) = in_flight q"

lemma in_flight_append [simp]: "in_flight (p @ q) = in_flight p @ in_flight q"
  by (induction p rule: in_flight.induct) simp_all

definition read_size :: "bool \<Rightarrow> bytes \<Rightarrow> bool" where
  "read_size ec bs \<longleftrightarrow> length bs \<le> 65536 \<and> (ec \<longrightarrow> bs = [])"

text \<open>
  \<open>S\<close> was given to the route, which has answered \<open>handled\<close>; the bytes \<open>gone\<close> of the answers have left the
  send buffer.
\<close>

definition conn_state :: "bytes \<Rightarrow> AnyMessage list \<Rightarrow> bytes \<Rightarrow> TcpConnection \<Rightarrow> Handler list \<Rightarrow> bool" where
  "conn_state gone handled S c q \<longleftrightarrow> served gone handled S (m_spMessageRoute c) \<and>
     received c = S @ in_flight q \<and> input_buffer c = [] \<and> writing c = [] \<and>
     pump gone (mDataStreamSend (m_spMessageRoute c)) (wire c) (map step_of q) \<and>
     (\<forall>ec bs. Run_handle_read ec bs \<in> set q \<longrightarrow> read_size ec bs)"

definition conn_inv :: "AnyMessage list \<Rightarrow> TcpConnection \<Rightarrow> Handler list \<Rightarrow> bool" where
  "conn_inv ms c q \<longleftrightarrow> (\<exists>gone handled S. conn_state gone handled S c q \<and> prefix handled ms)"

lemma conn_invI: "conn_state gone handled S c q \<Longrightarrow> prefix handled ms \<Longrightarrow> conn_inv ms c q"
  unfolding conn_inv_def by blast

lemma conn_state_start:
  assumes "is_new 0 c"
  shows "conn_state [] [] [] c []" and "conn_state [] [] [] (c\<lparr>totalrec := 0\<rparr>) [Run_start_read, Run_Process]"
  using assms
  by (auto simp: is_new_def conn_state_def TcpConnection_new_def served_def SetMessageDispatcher_def MessageRoute_new_def
      route_inv_def unread_def all_answers_def pump_new)

lemma conn_state_quiet:
  assumes "conn_state gone handled S c q" and "filter moving (map step_of p) = filter moving (map step_of q)"
    and "received c' = received c @ bs" and "in_flight p = in_flight q @ bs"
    and "m_spMessageRoute c' = m_spMessageRoute c" "input_buffer c' = input_buffer c" "writing c' = writing c" "wire c' = wire c"
    and "\<And>ec bs. Run_handle_read ec bs \<in> set p \<Longrightarrow> Run_handle_read ec bs \<in> set q \<or> read_size ec bs"
  shows "conn_state gone handled S c' p"
  using assms unfolding conn_state_def pump_filter [OF assms(2)] by auto

lemma conn_state_Send:
  assumes "conn_state gone handled S c (Run_Send # q)" and "length (mDataStreamSend (m_spMessageRoute c)) \<le> k"
  shows "conn_state gone handled S (fst (Connection_Send k c)) (q @ snd (Connection_Send k c))"
  using assms pump_Send(1) by (fastforce simp: conn_state_def Connection_Send_def Let_def)

lemma conn_state_handle_write:
  assumes "conn_state gone handled S c (Run_handle_write n # q)"
  shows "conn_state (gone @ take n (mDataStreamSend (m_spMessageRoute c))) handled S (consume_send n c) q"
  using assms pump_Written [of gone "mDataStreamSend (m_spMessageRoute c)" "wire c" n "map step_of q"]
  by (simp add: conn_state_def consume_send_def served_def route_inv_def unread_def)

lemma conn_state_handle_read:
  assumes "conn_state gone handled S c (Run_handle_read False bs # q)"
    and "handle_read False (c\<lparr>input_buffer := input_buffer c @ bs\<rparr>) = Some (c', hs)"
  shows "conn_state gone handled (S @ bs) c' (q @ hs)"
proof -
  have s: "served gone handled S (m_spMessageRoute c)" "input_buffer c = []" "length bs \<le> 65536"
    using assms(1) by (auto simp: conn_state_def read_size_def)
  obtain r where r: "Receive bs (m_spMessageRoute c) = Some r" "served gone handled (S @ bs) r"
    using served_Arrive [OF s(1), of bs] s(3) by auto
  have same: "mDataStreamSend r = mDataStreamSend (m_spMessageRoute c)"
    using s(1) r(2) unfolding served_def by (metis same_append_eq)
  have "c' = c\<lparr>totalrec := totalrec c + word_of_nat (length bs), m_spMessageRoute := r, input_buffer := []\<rparr>"
      "hs = [] \<or> hs = [Run_start_read]"
    using assms(2) s(2) r(1) by (auto simp: handle_read_def ReadData_def Let_def split: if_splits)
  moreover have "pump gone (mDataStreamSend r) (wire c) (map step_of (q @ hs))"
    using assms(1) same calculation(2) by (auto simp: conn_state_def)
  ultimately show ?thesis using assms(1) r(2) same by (auto simp: conn_state_def)
qed

lemma conn_state_Process_to:
  assumes "conn_state gone handled S c (Run_Process # q)" and "served gone h' S r" and "prefix handled h'"
    and hs: "hs \<in> {[], [Run_Process], [Run_Send, Run_Process]}"
  shows "conn_state gone h' S (c\<lparr>m_spMessageRoute := r\<rparr>) (q @ hs)"
proof -
  obtain x where "mDataStreamSend r = mDataStreamSend (m_spMessageRoute c) @ x"
    using assms(1-3) by (auto simp: conn_state_def served_def prefix_def all_answers_def) (metis append.assoc same_append_eq)
  moreover have "pump gone (mDataStreamSend (m_spMessageRoute c)) (wire c) (map step_of q @ map step_of hs)"
    by (rule pump_Process) (use assms(1) hs in \<open>auto simp: conn_state_def\<close>)
  ultimately show ?thesis using assms(1,2) hs pump_more by (auto simp: conn_state_def)
qed

lemma conn_state_Process:
  assumes "conn_state gone handled S c (Run_Process # q)" and "TcpConnection_Process linked c = Some (c', hs)"
    and "prefix handled ms" "prefix S (frames ms)" "list_all answerable ms" "length (frames ms) < 2 ^ 62"
  obtains h' where "conn_state gone h' S c' (q @ hs)" "prefix h' ms"
proof -
  have s: "served gone handled S (m_spMessageRoute c)" using assms(1) by (simp add: conn_state_def)
  have "length S < 2 ^ 62" using assms(4,6) prefix_length_le le_less_trans by blast
  then obtain b r h' where r: "ProcessRecv linked (m_spMessageRoute c) = Some (b, r)" "served gone h' S r" "prefix handled h'" "prefix h' ms"
    using served_Tick [OF s assms(3,4,5)] by blast
  have c': "c' = c\<lparr>m_spMessageRoute := r\<rparr>" and hs: "hs \<in> {[], [Run_Process], [Run_Send, Run_Process]}"
    using assms(2) r(1) by (auto simp: TcpConnection_Process_def Route_Process_def SendData_def split: if_splits)
  show thesis by (rule that [OF _ r(4)]) (use conn_state_Process_to [OF assms(1) r(2,3) hs] c' in simp)
qed

lemma conn_state_read_failed:
  assumes "conn_state gone handled S c (Run_handle_read True bs # q)"
  shows "conn_state gone handled S (c\<lparr>input_buffer := input_buffer c @ bs, error_flag := True\<rparr>) q"
proof -
  have "bs = []" using assms by (auto simp: conn_state_def read_size_def)
  then show ?thesis using conn_state_quiet [OF assms, of q] by simp
qed

definition requests_of :: "AnyMessage list \<Rightarrow> TcpConnection \<Rightarrow> bool" where
  "requests_of ms c \<longleftrightarrow> list_all answerable ms \<and> prefix (received c) (frames ms) \<and> length (frames ms) < 2 ^ 62"

lemma conn_inv_run:
  assumes inv: "conn_inv ms c (h # q)" and run: "run_handler linked k h c = Some (c', hs)"
    and k: "length (mDataStreamSend (m_spMessageRoute c)) \<le> k" and ms: "requests_of ms c"
  shows "conn_inv ms c' (q @ hs)"
proof -
  obtain gone handled S where s: "conn_state gone handled S c (h # q)" "prefix handled ms"
    using inv unfolding conn_inv_def by blast
  show ?thesis
  proof (cases h)
    case Run_start_read
    then have "conn_state gone handled S c' (q @ hs)"
      using conn_state_quiet [OF s(1), of q c' "[]"] run by (simp add: start_read_def) auto
    then show ?thesis using s(2) by (rule conn_invI)
  next
    case Run_Process
    have "prefix (received c) (frames ms)" using ms by (simp add: requests_of_def)
    moreover have "prefix S (received c)" using s(1) by (simp add: conn_state_def)
    ultimately have "prefix S (frames ms)" by (rule prefix_order.trans [rotated])
    then obtain h' where "conn_state gone h' S c' (q @ hs)" "prefix h' ms"
      using conn_state_Process [OF s(1) [unfolded Run_Process], of linked c' hs ms] run ms s(2)
      by (auto simp: Run_Process requests_of_def)
    then show ?thesis by (rule conn_invI)
  next
    case Run_Send
    then show ?thesis using conn_state_Send [of gone handled S c q k] s run k conn_invI by simp
  next
    case (Run_handle_read ec bs)
    then show ?thesis
      using s run conn_state_handle_read [of gone handled S c bs q c' hs] conn_state_read_failed [of gone handled S c bs q] conn_invI
      by (cases ec) (auto simp: handle_read_def)
  next
    case (Run_handle_write n)
    then show ?thesis using conn_state_handle_write [of gone handled S c n q] s run conn_invI
      by (auto simp: handle_write_def)
  qed
qed

lemma received_run: "run_handler linked k h c = Some (c', hs) \<Longrightarrow> received c' = received c"
  by (cases h) (auto simp: start_read_def TcpConnection_Process_def Connection_Send_def handle_read_def ReadData_def
      handle_write_def consume_send_def Let_def bind_eq_Some_conv split: if_splits)

definition tcp_inv :: "TcpServer \<Rightarrow> bool" where
  "tcp_inv s \<longleftrightarrow> (\<forall>i c ms. conns s i = Some c \<longrightarrow> requests_of ms c \<longrightarrow> conn_inv ms c (handlers_for i (queue s)))"

lemma tcp_inv_upd:
  assumes "tcp_inv s" and "conns s' = (conns s)(i \<mapsto> c)"
    and "\<And>j. j \<noteq> i \<Longrightarrow> handlers_for j (queue s') = handlers_for j (queue s)"
    and "\<And>ms. requests_of ms c \<Longrightarrow> conn_inv ms c (handlers_for i (queue s'))"
  shows "tcp_inv s'"
  using assms by (auto simp: tcp_inv_def)

lemma requests_of_mono: "requests_of ms c' \<Longrightarrow> received c' = received c @ bs \<Longrightarrow> requests_of ms c"
  unfolding requests_of_def by (metis prefixI prefix_order.trans)

lemma tcp_inv_accept:
  assumes inv: "tcp_inv s" and w: "waiting_inv 0 s" and q: "queue s = Server_handle_accept ec i # q" "conns s j = None"
    and new: "is_new 0 d" and run: "handle_accept ec i j d (s\<lparr>queue := q\<rparr>) = Some s'"
  shows "tcp_inv s'"
proof -
  obtain c where c: "conns s i = Some c" "is_new 0 c" "handlers_for i q = []"
    using w q(1) by (auto simp: waiting_inv_def waiting_def split: option.splits)
  have j: "handlers_for j q = []" using w q by (auto simp: waiting_inv_def)
  define t where "t = (if ec then s\<lparr>queue := q\<rparr> else store i (c\<lparr>totalrec := 0\<rparr>, [Run_start_read, Run_Process]) (s\<lparr>queue := q\<rparr>))"
  have s': "s' = start_accept j d t" using run c(1) by (simp add: handle_accept_def start_def t_def split: if_splits)
  have "tcp_inv t"
  proof (cases ec)
    case True
    then show ?thesis using inv q(1) by (simp add: tcp_inv_def t_def)
  next
    case False
    show ?thesis
      by (rule tcp_inv_upd [OF inv, of _ i "c\<lparr>totalrec := 0\<rparr>"])
        (use False q c conn_invI [OF conn_state_start(2)] in \<open>simp_all add: t_def\<close>)
  qed
  moreover have "i \<noteq> j" using c(1) q(2) by auto
  ultimately show ?thesis
    by - (rule tcp_inv_upd [of t s' j d]; use j conn_invI [OF conn_state_start(1) [OF new]] in \<open>auto simp: s' start_accept_def t_def\<close>)
qed

lemma conn_inv_arrive:
  assumes "conn_inv ms c q" and "read_size ec bs"
  shows "conn_inv ms (c\<lparr>reading := False, received := received c @ bs\<rparr>) (q @ [Run_handle_read ec bs])"
proof -
  obtain gone handled S where s: "conn_state gone handled S c q" "prefix handled ms"
    using assms(1) unfolding conn_inv_def by blast
  have "conn_state gone handled S (c\<lparr>reading := False, received := received c @ bs\<rparr>) (q @ [Run_handle_read ec bs])"
    by (rule conn_state_quiet [OF s(1), where bs = bs]) (use assms(2) in auto)
  then show ?thesis using s(2) by (rule conn_invI)
qed

lemma tcp_inv_step:
  assumes inv: "tcp_inv s" and w: "waiting_inv 0 s" and step: "tcp_step linked 0 True s (Some s')"
  shows "tcp_inv s'"
  using step
proof (cases rule: tcp_step.cases)
  case (run_accept ec i q j temp temp')
  then have "is_new 0 (TcpConnection_new 0 temp temp')" unfolding is_new_def by blast
  then show ?thesis using tcp_inv_accept [OF inv w] run_accept by simp
next
  case (run_conn i h q c k)
  obtain c' hs where r: "run_handler linked k h c = Some (c', hs)" "s' = store i (c', hs) (s\<lparr>queue := q\<rparr>)"
    using run_conn(1) by (cases "run_handler linked k h c") auto
  show ?thesis
  proof (rule tcp_inv_upd [OF inv, of _ i c'])
    fix ms assume "requests_of ms c'"
    then have ms: "requests_of ms c" using requests_of_mono [of ms c' c "[]"] received_run [OF r(1)] by simp
    then have "conn_inv ms c (handlers_for i (queue s))" using inv run_conn(3) unfolding tcp_inv_def by blast
    then have "conn_inv ms c (h # handlers_for i q)" using run_conn(2) by simp
    then show "conn_inv ms c' (handlers_for i (queue s'))" using conn_inv_run [OF _ r(1) _ ms] run_conn(4) r(2) by simp
  qed (use r run_conn in simp_all)
next
  case (data i c bs)
  let ?c = "c\<lparr>reading := False, received := received c @ bs\<rparr>"
  show ?thesis
  proof (rule tcp_inv_upd [OF inv, of _ i ?c])
    fix ms assume "requests_of ms ?c"
    then have "conn_inv ms c (handlers_for i (queue s))"
      using requests_of_mono [of ms ?c c bs] inv data by (simp add: tcp_inv_def)
    then show "conn_inv ms ?c (handlers_for i (queue s'))"
      using conn_inv_arrive [of ms c _ False bs] data by (simp add: read_size_def)
  qed (use data in simp_all)
next
  case (read_failed i c)
  let ?c = "c\<lparr>reading := False\<rparr>"
  show ?thesis
  proof (rule tcp_inv_upd [OF inv, of _ i ?c])
    fix ms assume "requests_of ms ?c"
    then have "conn_inv ms c (handlers_for i (queue s))"
      using requests_of_mono [of ms ?c c "[]"] inv read_failed by (simp add: tcp_inv_def)
    then show "conn_inv ms ?c (handlers_for i (queue s'))"
      using conn_inv_arrive [of ms c _ True "[]"] read_failed by (simp add: read_size_def)
  qed (use read_failed in simp_all)
qed (use inv in \<open>simp_all add: tcp_inv_def TcpServer_Process_def post_def\<close>)

lemma tcp_inv_reachable:
  assumes "tcp_reachable linked 0 True s"
  shows "tcp_inv s"
  using assms
proof (induction rule: tcp_reachable.induct)
  case (start temp temp' i)
  then have "is_new 0 (TcpConnection_new 0 temp temp')" unfolding is_new_def by blast
  then show ?case using conn_invI [OF conn_state_start(1)]
    by (simp add: tcp_inv_def TcpServer_start_def start_accept_def post_def TcpServer_new_def)
next
  case (step s s')
  then show ?case using tcp_inv_step waiting_inv_reachable by blast
qed


section \<open>No step goes wrong\<close>

lemma run_handler_Some:
  assumes inv: "conn_inv ms c (h # q)" and ms: "requests_of ms c"
  shows "run_handler linked k h c \<noteq> None"
proof -
  obtain gone handled S where s: "conn_state gone handled S c (h # q)" "prefix handled ms"
    using inv unfolding conn_inv_def by blast
  then have r: "served gone handled S (m_spMessageRoute c)" "writing c = []" "input_buffer c = []" "prefix S (received c)"
    by (simp_all add: conn_state_def)
  show ?thesis
  proof (cases h)
    case Run_Process
    have "prefix S (frames ms)" using r(4) ms unfolding requests_of_def by (metis prefix_order.trans)
    moreover have "length S < 2 ^ 62"
      using prefix_length_le [OF calculation] ms by (simp add: requests_of_def)
    ultimately obtain b r' where "ProcessRecv linked (m_spMessageRoute c) = Some (b, r')"
      using served_Tick [OF r(1) s(2)] ms unfolding requests_of_def by blast
    then show ?thesis using r(2) by (simp add: Run_Process TcpConnection_Process_def Route_Process_def)
  next
    case (Run_handle_read ec bs)
    then have "read_size ec bs" using s(1) by (simp add: conn_state_def)
    then obtain r' where "Receive bs (m_spMessageRoute c) = Some r'"
      using served_Arrive [OF r(1), of bs] by (auto simp: read_size_def)
    then show ?thesis using r(3) by (simp add: Run_handle_read handle_read_def ReadData_def)
  qed (simp_all add: start_read_def handle_write_def)
qed

lemma tcp_step_Some:
  assumes inv: "tcp_inv s" "waiting_inv 0 s" and req: "\<And>i c. conns s i = Some c \<Longrightarrow> \<exists>ms. requests_of ms c"
  shows "\<not> tcp_step linked 0 True s None"
proof
  assume "tcp_step linked 0 True s None"
  then show False
  proof (cases rule: tcp_step.cases)
    case (run_accept ec i q j temp temp')
    then obtain c where "conns s i = Some c"
      using inv(2) by (auto simp: waiting_inv_def waiting_def split: option.splits)
    then show False using run_accept(1) by (simp add: handle_accept_def start_def split: if_splits)
  next
    case (run_conn i h q c k)
    obtain ms where ms: "requests_of ms c" using req run_conn(3) by blast
    then have "conn_inv ms c (handlers_for i (queue s))" using inv(1) run_conn(3) unfolding tcp_inv_def by blast
    then have "conn_inv ms c (h # handlers_for i q)" using run_conn(2) by simp
    then have "run_handler linked k h c \<noteq> None" by (rule run_handler_Some [OF _ ms])
    then show False using run_conn(1) by auto
  qed
qed

section \<open>Writes that the socket does not take at once\<close>

lemma reach_server:
  "tcp_reachable linked pre eager s \<Longrightarrow> queue s = Server_Process # q \<Longrightarrow>
     tcp_reachable linked pre eager (s\<lparr>queue := q @ [Server_Process]\<rparr>)"
  using tcp_reachable.step [OF _ tcp_step.run_server] by (fastforce simp: TcpServer_Process_def post_def)

lemma reach_conn:
  assumes "tcp_reachable linked pre eager s" and "queue s = For i h # q" and "conns s i = Some c"
    and "run_handler linked k h c = Some res" and "eager \<longrightarrow> length (mDataStreamSend (m_spMessageRoute c)) \<le> k"
  shows "tcp_reachable linked pre eager (store i res (s\<lparr>queue := q\<rparr>))"
  using tcp_reachable.step [OF assms(1)] tcp_step.run_conn [OF assms(2,3,5), of linked pre] assms(4) by simp

text \<open>
  A state the server can reach in which \<open>c\<close> is its one client and \<open>q\<close> are the handlers posted for it.
\<close>

definition reaches :: "(bytes \<Rightarrow> bool) \<Rightarrow> bool \<Rightarrow> TcpConnection \<Rightarrow> Handler list \<Rightarrow> bool" where
  "reaches linked eager c q \<longleftrightarrow> (\<exists>s. tcp_reachable linked 0 eager s \<and> conns s 0 = Some c \<and> handlers_for 0 (queue s) = q \<and>
     set (queue s) \<subseteq> insert Server_Process (range (For 0)) \<and> count_list (queue s) Server_Process = 1)"

lemma reaches_store:
  assumes "tcp_reachable linked 0 eager (store 0 (c', hs) s)" and "handlers_for 0 (queue s) = q"
    and "set (queue s) \<subseteq> insert Server_Process (range (For 0))" and "count_list (queue s) Server_Process = 1"
  shows "reaches linked eager c' (q @ hs)"
  unfolding reaches_def using assms by (intro exI [of _ "store 0 (c', hs) s"]) auto

lemma reaches_run:
  assumes "reaches linked eager c (h # q)" and run: "run_handler linked k h c = Some (c', hs)"
    and k: "eager \<longrightarrow> length (mDataStreamSend (m_spMessageRoute c)) \<le> k"
  shows "reaches linked eager c' (q @ hs)"
proof -
  obtain s where s: "tcp_reachable linked 0 eager s" "conns s 0 = Some c" "handlers_for 0 (queue s) = h # q"
      "set (queue s) \<subseteq> insert Server_Process (range (For 0))" "count_list (queue s) Server_Process = 1"
    using assms(1) unfolding reaches_def by blast
  obtain s1 Q where s1: "tcp_reachable linked 0 eager s1" "conns s1 0 = Some c" "queue s1 = For 0 h # Q" "handlers_for 0 Q = q"
      "set Q \<subseteq> insert Server_Process (range (For 0))" "count_list Q Server_Process = 1"
  proof (cases "queue s")
    case Nil
    then show thesis using s(3) by simp
  next
    case (Cons x Q)
    show thesis
    proof (cases "x = Server_Process")
      case True
      then obtain R where R: "Q = For 0 h # R" "handlers_for 0 R = q"
        using s(3-5) Cons by (cases Q) auto
      show thesis
        by (rule that [OF reach_server [OF s(1), of Q], of "R @ [Server_Process]"]) (use s Cons True R in auto)
    next
      case False
      then have "x = For 0 h" using s(3,4) Cons by auto
      with that [OF s(1,2), of Q] s Cons show thesis by auto
    qed
  qed
  show ?thesis
    by (rule reaches_store [OF reach_conn [OF s1(1,3,2) run k]]) (use s1 in auto)
qed

lemma reaches_step:
  assumes "reaches linked eager c q" and "\<And>s. conns s 0 = Some c \<Longrightarrow> tcp_step linked 0 eager s (Some (store 0 (c', hs) s))"
  shows "reaches linked eager c' (q @ hs)"
proof -
  obtain s where s: "tcp_reachable linked 0 eager s" "conns s 0 = Some c" "handlers_for 0 (queue s) = q"
      "set (queue s) \<subseteq> insert Server_Process (range (For 0))" "count_list (queue s) Server_Process = 1"
    using assms(1) unfolding reaches_def by blast
  then show ?thesis using reaches_store [OF tcp_reachable.step [OF s(1) assms(2)]] by blast
qed

lemma reaches_started:
  assumes "is_new 0 c"
  shows "reaches linked eager (c\<lparr>totalrec := 0\<rparr>) [Run_start_read, Run_Process]"
proof -
  obtain temp temp' where c: "c = TcpConnection_new 0 temp temp'" "length temp = TEMP_BUFFER_SIZE" "length temp' = TEMP_BUFFER_SIZE"
    using assms unfolding is_new_def by blast
  let ?s = "TcpServer_start 0 c TcpServer_new"
  have "tcp_reachable linked 0 eager ?s" unfolding c(1) using c(2,3) by (rule tcp_reachable.start)
  from tcp_reachable.step [OF this tcp_step.accepted [of ?s 0 linked 0 eager False]]
  have r: "tcp_reachable linked 0 eager (post [Server_handle_accept False 0] (?s\<lparr>accepting := None\<rparr>))"
    by (simp add: TcpServer_start_def start_accept_def post_def)
  let ?t = "?s\<lparr>accepting := None, queue := [Server_handle_accept False 0, Server_Process]\<rparr>"
  let ?u = "start_accept 2 c (store 0 (c\<lparr>totalrec := 0\<rparr>, [Run_start_read, Run_Process]) (?t\<lparr>queue := [Server_Process]\<rparr>))"
  have "tcp_reachable linked 0 eager ?t"
    using reach_server [OF r, of "[Server_handle_accept False 0]"]
    by (simp add: TcpServer_start_def start_accept_def post_def TcpServer_new_def)
  moreover have "tcp_step linked 0 eager ?t (Some ?u)"
    using tcp_step.run_accept [of ?t False 0 "[Server_Process]" 2 temp temp' linked 0 eager] c
    by (simp add: handle_accept_def start_def TcpServer_start_def start_accept_def post_def TcpServer_new_def)
  ultimately have "tcp_reachable linked 0 eager ?u" by (rule tcp_reachable.step)
  then show ?thesis unfolding reaches_def by (intro exI [of _ ?u]) (auto simp: start_accept_def)
qed

text \<open>A connection that has answered \<open>m\<close> and is about to send the answer \<open>d\<close>.\<close>

lemma idle_Process:
  assumes "mDataStreamReceive (m_spMessageRoute c) = []" and "\<not> error_flag c"
  shows "TcpConnection_Process linked c =
     Some (c, (if mDataStreamSend (m_spMessageRoute c) = [] then [] else [Run_Send]) @ [Run_Process])"
  using assms by (simp add: TcpConnection_Process_def Route_Process_def ProcessRecv_def ProcessSend_def SendData_def)

lemma reaches_answer:
  assumes m: "answerable m" "answers m = Some as" "as \<noteq> []" and len: "length (frame m) \<le> 65536"
  obtains c where "reaches linked eager c [Run_start_read, Run_Send, Run_Process]" "received c = frame m" "wire c = []" "writing c = []"
    "\<not> error_flag c" "mDataStreamReceive (m_spMessageRoute c) = []" "mDataStreamSend (m_spMessageRoute c) = frames as"
proof -
  let ?r = "SetMessageDispatcher ServerMessageDispatcher (MessageRoute_new 0 (replicate TEMP_BUFFER_SIZE 0) (replicate TEMP_BUFFER_SIZE 0))"
  let ?c = "\<lambda>r rd rec t. \<lparr>m_spMessageRoute = r, input_buffer = [], totalrec = t, error_flag = False, reading = rd, writing = [],
    received = rec, wire = []\<rparr>"
  have "is_new 0 (?c ?r False [] 0)" unfolding is_new_def TcpConnection_new_def by (intro exI) auto
  moreover have e: "mDataStreamSend ?r = []" by (simp add: SetMessageDispatcher_def MessageRoute_new_def)
  ultimately have r: "reaches linked eager (?c ?r True [] 0) [Run_Process]"
    using reaches_run [OF reaches_started, where linked = linked and eager = eager and k = 0 and c1 = "?c ?r False [] 0"]
    by (simp add: start_read_def)
  have "reaches linked eager (?c ?r False (frame m) 0) ([Run_Process] @ [Run_handle_read False (frame m)])"
    by (rule reaches_step [OF r])
      (use tcp_step.data [of _ 0 "?c ?r True [] 0" "frame m" linked 0 eager] len in \<open>simp add: frame_def head_def ascii_def\<close>)
  from reaches_run [OF this [simplified], of 0]
  have r: "reaches linked eager (?c ?r False (frame m) 0) [Run_handle_read False (frame m), Run_Process]"
    using idle_Process [of "?c ?r False (frame m) 0" linked] by (simp add: SetMessageDispatcher_def MessageRoute_new_def)
  have "served [] [] [] ?r"
    by (simp add: served_def SetMessageDispatcher_def MessageRoute_new_def route_inv_def unread_def all_answers_def)
  from served_Arrive [OF this, of "frame m"] len
  obtain r1 where r1: "Receive (frame m) ?r = Some r1" "served [] [] (frame m) r1" by auto
  obtain r2 where r2: "ProcessRecv linked r1 = Some (True, r2)" "served [] [m] (frame m) r2"
    using served_take [of "[]" "[]" m "[]" r1 linked] r1(2) m(1) len by auto
  then have fin: "mDataStreamSend r2 = frames as" "mDataStreamReceive r2 = []"
    using m(2) by (simp_all add: served_def all_answers_def unread_def)
  then have "mDataStreamSend r2 \<noteq> []" using m(3) by (cases as) (simp_all add: frame_def head_def)
  have "mDataStreamSend r1 = []" using r1(2) by (simp add: served_def all_answers_def)
  from reaches_run [OF r, of 0] r1(1) e
  have "reaches linked eager (?c r1 False (frame m) (word_of_nat (length (frame m)))) [Run_Process, Run_start_read]"
    by (simp add: handle_read_def ReadData_def)
  from reaches_run [OF this, of 0]
  have "reaches linked eager (?c r2 False (frame m) (word_of_nat (length (frame m)))) [Run_start_read, Run_Send, Run_Process]"
    using r2(1) \<open>mDataStreamSend r1 = []\<close> \<open>mDataStreamSend r2 \<noteq> []\<close> by (simp add: TcpConnection_Process_def Route_Process_def ProcessSend_def SendData_def)
  then show thesis by (rule that) (simp_all add: fin)
qed

lemma reaches_twice:
  assumes "reaches linked False c [Run_start_read, Run_Send, Run_Process]" "wire c = []" "writing c = []"
    "\<not> error_flag c" "mDataStreamReceive (m_spMessageRoute c) = []" and d: "mDataStreamSend (m_spMessageRoute c) = d" "d \<noteq> []"
  obtains c' q where "reaches linked False c' q" "wire c' = d @ d" "received c' = received c"
proof -
  let ?c = "\<lambda>rd w ws. c\<lparr>reading := rd, wire := w, writing := ws\<rparr>"
  have "reaches linked False (?c True [] []) [Run_Send, Run_Process]"
    using reaches_run [OF assms(1), of 0] assms(2,3) by (cases c) (simp add: start_read_def)
  from reaches_run [OF this, of 0]
  have "reaches linked False (?c True [] [(d, length d)]) [Run_Process]"
    using d by (simp add: Connection_Send_def)
  from reaches_run [OF this, of 0]
  have "reaches linked False (?c True [] [(d, length d)]) [Run_Send, Run_Process]"
    using idle_Process [of "?c True [] [(d, length d)]" linked] assms(4,5) d by simp
  from reaches_run [OF this, of 0]
  have r: "reaches linked False (?c True [] [(d, length d), (d, length d)]) [Run_Process]"
    using d by (simp add: Connection_Send_def)
  have "reaches linked False (?c True d [(d, length d)]) ([Run_Process] @ [Run_handle_write (length d)])"
    by (rule reaches_step [OF r])
      (use tcp_step.written [of False _ 0 "?c True [] [(d, length d), (d, length d)]" 0 "length d" linked 0] d in
        \<open>simp add: write_some_def\<close>)
  then have "reaches linked False (?c True (d @ d) []) (([Run_Process] @ [Run_handle_write (length d)]) @ [Run_handle_write (length d)])"
    by (rule reaches_step)
      (use tcp_step.written [of False _ 0 "?c True d [(d, length d)]" 0 "length d" linked 0] d in \<open>simp add: write_some_def\<close>)
  then show thesis by (rule that) simp_all
qed


section \<open>All answers get on the wire\<close>

text \<open>\<open>n\<close> turns of the thread for one connection, whose socket takes every write at once.\<close>

fun turns :: "(bytes \<Rightarrow> bool) \<Rightarrow> nat \<Rightarrow> TcpConnection \<Rightarrow> Handler list \<Rightarrow> (TcpConnection \<times> Handler list) option" where
  "turns linked 0 c q = Some (c, q)"
| "turns linked (Suc n) c [] = Some (c, [])"
| "turns linked (Suc n) c (h # q) =
     (case run_handler linked (length (mDataStreamSend (m_spMessageRoute c))) h c of
        None \<Rightarrow> None | Some (c', hs) \<Rightarrow> turns linked n c' (q @ hs))"

text \<open>
  All requests \<open>ms\<close> were given to the route.  The turns until the answers are on the wire are bounded by
  the requests that are not handled, the place of the loop, and the other handlers.
\<close>

definition draining :: "AnyMessage list \<Rightarrow> AnyMessage list \<Rightarrow> TcpConnection \<Rightarrow> Handler list \<Rightarrow> bool" where
  "draining ms handled c q \<longleftrightarrow> (\<exists>gone. conn_state gone handled (frames ms) c q) \<and> prefix handled ms \<and>
     list_all answerable ms \<and> length (frames ms) < 2 ^ 62 \<and> \<not> error_flag c \<and> Run_Process \<in> set q \<and>
     (\<forall>ec bs. Run_handle_read ec bs \<notin> set q)"

definition remaining :: "AnyMessage list \<Rightarrow> AnyMessage list \<Rightarrow> Handler list \<Rightarrow> nat \<times> nat \<times> nat" where
  "remaining ms handled q = (length ms - length handled, distance (handled \<noteq> ms) (map step_of q),
     length (filter (\<lambda>h. step_of h = Loop_Other) q))"

abbreviation "earlier \<equiv> less_than <*lex*> less_than <*lex*> less_than"

lemma wf_earlier: "wf earlier"
  by (intro wf_lex_prod wf_less_than)

lemma draining_Process:
  assumes d: "draining ms handled c (Run_Process # q)" and buf: "handled = ms \<longrightarrow> wire c \<noteq> frames (all_answers ms)"
  shows "\<exists>c' hs h'. run_handler linked k Run_Process c = Some (c', hs) \<and> draining ms h' c' (q @ hs) \<and>
     (remaining ms h' (q @ hs), remaining ms handled (Run_Process # q)) \<in> earlier"
proof -
  obtain gone where s: "conn_state gone handled (frames ms) c (Run_Process # q)" and p: "prefix handled ms" and e: "\<not> error_flag c"
    and ms: "list_all answerable ms" "length (frames ms) < 2 ^ 62"
    using d unfolding draining_def by blast
  have sv: "served gone handled (frames ms) (m_spMessageRoute c)" and w: "writing c = []" using s by (simp_all add: conn_state_def)
  define hs where "hs r = (if mDataStreamSend r \<noteq> [] then [Run_Send] else []) @ [Run_Process]" for r :: MessageRoute
  have run: "run_handler linked k Run_Process c = Some (c\<lparr>m_spMessageRoute := r\<rparr>, hs r)"
    if "ProcessRecv linked (m_spMessageRoute c) = Some (b, r)" for b r
    using that e w by (simp add: TcpConnection_Process_def Route_Process_def ProcessSend_def SendData_def hs_def)
  have dr: "draining ms h' (c\<lparr>m_spMessageRoute := r\<rparr>) (q @ hs r)"
    if "served gone h' (frames ms) r" "prefix handled h'" "prefix h' ms" for h' r
    using conn_state_Process_to [OF s that(1,2), of "hs r"] that(3) d by (auto simp: draining_def hs_def)
  show ?thesis
  proof (cases "handled = ms")
    case True
    then have "mDataStreamReceive (m_spMessageRoute c) = []" using sv by (simp add: served_def unread_def)
    then have r: "ProcessRecv linked (m_spMessageRoute c) = Some (False, m_spMessageRoute c)" by (simp add: ProcessRecv_def)
    have "mDataStreamSend (m_spMessageRoute c) \<noteq> []"
      using s buf True by (auto simp: conn_state_def served_def pump_def)
    then have hs: "hs (m_spMessageRoute c) = [Run_Send, Run_Process]" by (simp add: hs_def)
    have "(remaining ms ms (q @ [Run_Send, Run_Process]), remaining ms ms (Run_Process # q)) \<in> earlier"
      using distance_Process [of "map step_of q"] s by (simp add: remaining_def conn_state_def pump_def)
    then show ?thesis using run [OF r] dr [OF sv] p True hs by fastforce
  next
    case False
    then obtain m rest where m: "ms = handled @ m # rest" using p by (metis append_self_conv neq_Nil_conv prefixE)
    then obtain r where r: "ProcessRecv linked (m_spMessageRoute c) = Some (True, r)" "served gone (handled @ [m]) (frames ms) r"
      using served_take [of gone handled m "frames rest" "m_spMessageRoute c" linked] sv ms by auto
    then show ?thesis using run [OF r(1)] dr [OF r(2)] m by (fastforce simp: remaining_def)
  qed
qed


lemma draining_turn:
  assumes d: "draining ms handled c q" and buf: "wire c \<noteq> frames (all_answers ms)"
  obtains h q1 c' hs h' where "q = h # q1"
    "run_handler linked (length (mDataStreamSend (m_spMessageRoute c))) h c = Some (c', hs)" "draining ms h' c' (q1 @ hs)"
    "wire c' = frames (all_answers ms) \<or> (remaining ms h' (q1 @ hs), remaining ms handled q) \<in> earlier"
proof -
  obtain h q1 where q: "q = h # q1" using d unfolding draining_def by (cases q) auto
  obtain gone where s: "conn_state gone handled (frames ms) c (h # q1)" using d unfolding draining_def q by blast
  have ok: "sends_ok (map step_of (h # q1))" using s by (simp add: conn_state_def pump_def)
  have P: "h \<noteq> Run_Process \<Longrightarrow> Loop_Process \<in> set (map step_of q1)" using d by (simp add: draining_def q Process_step)
  let ?buf = "mDataStreamSend (m_spMessageRoute c)"
  show thesis
  proof (cases h)
    case Run_start_read
    have "conn_state gone handled (frames ms) (c\<lparr>reading := True\<rparr>) q1"
      by (rule conn_state_quiet [OF s, where bs = "[]"]) (simp_all add: Run_start_read)
    then show thesis using that [OF q, of "c\<lparr>reading := True\<rparr>" "[]" handled] d
      by (auto simp: Run_start_read start_read_def draining_def q remaining_def)
  next
    case Run_Process
    then show thesis using draining_Process [of ms handled c q1 linked "length ?buf"] d buf that q by blast
  next
    case Run_Send
    let ?c = "c\<lparr>wire := wire c @ ?buf\<rparr>"
    have cs: "Connection_Send (length ?buf) c = (?c, [Run_handle_write (length ?buf)])"
      by (simp add: Connection_Send_def Let_def)
    have c: "conn_state gone handled (frames ms) ?c (q1 @ [Run_handle_write (length ?buf)])"
      using conn_state_Send [OF s [unfolded Run_Send], of "length ?buf"] cs by simp
    have "wire ?c = frames (all_answers ms)" if "handled = ms"
      using s pump_Send(2) that by (fastforce simp: Run_Send conn_state_def served_def)
    moreover have "handled = ms \<or> (remaining ms handled (q1 @ [Run_handle_write (length ?buf)]), remaining ms handled q) \<in> earlier"
      using distance_Send [of "map step_of q1"] ok P by (cases "handled = ms") (simp_all add: q Run_Send remaining_def)
    moreover have "draining ms handled ?c (q1 @ [Run_handle_write (length ?buf)])"
      using d c by (auto simp: draining_def Run_Send q)
    ultimately show thesis
      using that [OF q, of ?c "[Run_handle_write (length ?buf)]" handled] cs by (auto simp: Run_Send)
  next
    case (Run_handle_read ec bs)
    then show thesis using d by (auto simp: draining_def q)
  next
    case (Run_handle_write m)
    have c: "conn_state (gone @ take m ?buf) handled (frames ms) (consume_send m c) q1"
      using conn_state_handle_write s unfolding Run_handle_write by blast
    have "(remaining ms handled q1, remaining ms handled q) \<in> earlier"
      using distance_Written [of m "map step_of q1"] ok P by (simp add: q Run_handle_write remaining_def)
    then show thesis using that [OF q, of "consume_send m c" "[]" handled] d c
      by (auto simp: draining_def Run_handle_write q handle_write_def consume_send_def)
  qed
qed

lemma draining_turns:
  assumes "draining ms handled c q"
  shows "\<exists>n c' q'. turns linked n c q = Some (c', q') \<and> wire c' = frames (all_answers ms)"
  using assms
proof (induction "remaining ms handled q" arbitrary: handled c q rule: wf_induct_rule [OF wf_earlier, case_names less])
  case less
  show ?case
  proof (cases "wire c = frames (all_answers ms)")
    case True
    then show ?thesis by (intro exI [of _ 0]) simp
  next
    case False
    obtain h q1 c' hs h' where t: "q = h # q1"
      "run_handler linked (length (mDataStreamSend (m_spMessageRoute c))) h c = Some (c', hs)" "draining ms h' c' (q1 @ hs)"
      "wire c' = frames (all_answers ms) \<or> (remaining ms h' (q1 @ hs), remaining ms handled q) \<in> earlier"
      by (rule draining_turn [OF less(2) False])
    then obtain n where "\<exists>c'' q'. turns linked n c' (q1 @ hs) = Some (c'', q') \<and> wire c'' = frames (all_answers ms)"
      using less(1) [OF _ t(3)] turns.simps(1) by metis
    then show ?thesis using t(1,2) by (intro exI [of _ "Suc n"]) simp
  qed
qed


section \<open>Properties\<close>

definition new_connection :: TcpConnection where
  "new_connection = TcpConnection_new 0 (replicate TEMP_BUFFER_SIZE 0) (replicate TEMP_BUFFER_SIZE 0)"

lemma reachable_sample:
  obtains s c where "tcp_reachable linked 0 eager s" "conns s 0 = Some c" "received c = frame sample_move" "wire c = []"
    "\<not> error_flag c" "handlers_for 0 (queue s) = [Run_start_read, Run_Send, Run_Process]"
proof -
  obtain a where "answers sample_move = Some [a]" by (simp add: sample_move_def answers_def)
  then obtain c where "reaches linked eager c [Run_start_read, Run_Send, Run_Process]" "received c = frame sample_move"
      "wire c = []" "\<not> error_flag c"
    using reaches_answer [OF sample_move_answerable, of "[a]" linked eager] length_frame_sample by auto
  then show thesis using that unfolding reaches_def by blast
qed

lemma in_flight_Nil: "(\<And>ec bs. Run_handle_read ec bs \<notin> set q) \<Longrightarrow> in_flight q = []"
  by (induction q rule: in_flight.induct) auto

lemma conn_inv_wire:
  assumes "conn_inv ms c q"
  shows "prefix (wire c) (frames (all_answers ms))"
proof -
  obtain gone handled S where s: "conn_state gone handled S c q" "prefix handled ms"
    using assms unfolding conn_inv_def by blast
  then have "prefix (wire c) (gone @ mDataStreamSend (m_spMessageRoute c))"
    unfolding conn_state_def using pump_prefix by blast
  then have "prefix (wire c) (frames (all_answers handled))" using s(1) by (simp add: conn_state_def served_def)
  moreover have "prefix (frames (all_answers handled)) (frames (all_answers ms))"
    using s(2) by (auto simp: prefix_def all_answers_def)
  ultimately show ?thesis by (rule prefix_order.trans)
qed

text \<open>C2: as long as the sockets take every write at once, the bytes the server puts on the wire of a
  connection that received a prefix of the frames of \<open>ms\<close> are a prefix of the frames of the answers to
  \<open>ms\<close>, whatever the other connections do and however the handlers of all connections are interleaved.
  The length that a new route leaves uninitialised is 0 here.\<close>

theorem tcp_server_answers:
  assumes "tcp_reachable linked 0 True s" and "conns s i = Some c" and "requests_of ms c"
  shows "prefix (wire c) (frames (all_answers ms))"
  using tcp_inv_reachable [OF assms(1)] conn_inv_wire assms(2,3) unfolding tcp_inv_def by blast

theorem tcp_server_answers_witness:
  "\<exists>s c. tcp_reachable (\<lambda>_. False) 0 True s \<and> conns s 0 = Some c \<and> received c = frame sample_move \<and>
     prefix (wire c) (frames (all_answers [sample_move]))"
proof -
  obtain s c where s: "tcp_reachable (\<lambda>_. False) 0 True s" "conns s 0 = Some c" "received c = frame sample_move"
    by (rule reachable_sample [of "\<lambda>_. False" True])
  have "prefix (wire c) (frames (all_answers [sample_move]))"
    by (rule tcp_server_answers [OF s(1,2)]) (use s sample_move_answerable length_frame_sample in \<open>simp add: requests_of_def\<close>)
  with s show ?thesis by blast
qed





text \<open>C3: once a running connection has handed all bytes of the frames of \<open>ms\<close> to its route, finitely many
  turns of the thread for this connection put the answers to all of \<open>ms\<close> on the wire.
  The sockets take every write at once, and the length that a new route leaves uninitialised is 0 here.\<close>

theorem tcp_server_drains:
  assumes "tcp_reachable linked 0 True s" and "conns s i = Some c" and "requests_of ms c" and "received c = frames ms"
    and "\<not> error_flag c" and "Run_Process \<in> set (handlers_for i (queue s))"
    and "\<And>ec bs. Run_handle_read ec bs \<notin> set (handlers_for i (queue s))"
  shows "\<exists>n c' q'. turns linked n c (handlers_for i (queue s)) = Some (c', q') \<and> wire c' = frames (all_answers ms)"
proof -
  obtain gone handled S where "conn_state gone handled S c (handlers_for i (queue s))" "prefix handled ms"
    using tcp_inv_reachable [OF assms(1)] assms(2,3) unfolding tcp_inv_def conn_inv_def by blast
  moreover have "S = frames ms" using calculation(1) assms(4) in_flight_Nil [OF assms(7)] by (simp add: conn_state_def)
  ultimately have "draining ms handled c (handlers_for i (queue s))"
    using assms unfolding draining_def requests_of_def by blast
  then show ?thesis by (rule draining_turns)
qed

theorem tcp_server_drains_witness:
  "\<exists>s c n c' q'. tcp_reachable (\<lambda>_. False) 0 True s \<and> conns s 0 = Some c \<and> wire c = [] \<and>
     turns (\<lambda>_. False) n c (handlers_for 0 (queue s)) = Some (c', q') \<and> wire c' = frames (all_answers [sample_move])"
proof -
  obtain s c where s: "tcp_reachable (\<lambda>_. False) 0 True s" "conns s 0 = Some c" "received c = frame sample_move"
    "wire c = []" "\<not> error_flag c" "handlers_for 0 (queue s) = [Run_start_read, Run_Send, Run_Process]"
    by (rule reachable_sample [of "\<lambda>_. False" True])
  have "\<exists>n c' q'. turns (\<lambda>_. False) n c (handlers_for 0 (queue s)) = Some (c', q') \<and> wire c' = frames (all_answers [sample_move])"
    by (rule tcp_server_drains [OF s(1,2)])
      (use s sample_move_answerable length_frame_sample in \<open>simp_all add: requests_of_def\<close>)
  with s show ?thesis by blast
qed

text \<open>C32: when the socket does not take a write at once, the loop starts another write of the same bytes
  before the first has removed them from the send buffer: the server can answer one request twice.\<close>

theorem tcp_server_answers_twice:
  assumes "answerable m" and "answers m = Some [a]" and "length (frame m) \<le> 65536"
  shows "\<exists>s c. tcp_reachable linked 0 False s \<and> conns s 0 = Some c \<and> received c = frame m \<and> wire c = frame a @ frame a"
proof -
  obtain c where c: "reaches linked False c [Run_start_read, Run_Send, Run_Process]" "received c = frame m" "wire c = []" "writing c = []"
    "\<not> error_flag c" "mDataStreamReceive (m_spMessageRoute c) = []" "mDataStreamSend (m_spMessageRoute c) = frame a"
    using reaches_answer [OF assms(1,2) _ assms(3), of linked False] by auto
  have "frame a \<noteq> []" by (simp add: frame_def head_def)
  then obtain c' q where "reaches linked False c' q" "wire c' = frame a @ frame a" "received c' = frame m"
    using reaches_twice [OF c(1,3,4,5,6,7)] c(2) by metis
  then show ?thesis unfolding reaches_def by blast
qed

theorem tcp_server_answers_twice_witness:
  "\<exists>s c a. tcp_reachable (\<lambda>_. False) 0 False s \<and> conns s 0 = Some c \<and> received c = frame sample_move \<and>
     wire c = frame a @ frame a \<and> all_answers [sample_move] = [a]"
proof -
  let ?a = "Msg_rspMove \<lparr>rspMove_error = ascii ''Move Function Success with No Error'', rspMove_unknown = []\<rparr>"
  have a: "answers sample_move = Some [?a]" by (simp add: sample_move_def answers_def)
  have "\<exists>s c. tcp_reachable (\<lambda>_. False) 0 False s \<and> conns s 0 = Some c \<and> received c = frame sample_move \<and> wire c = frame ?a @ frame ?a"
    by (rule tcp_server_answers_twice [OF _ a]) (use sample_move_answerable length_frame_sample in auto)
  with a show ?thesis by (auto simp: all_answers_def)
qed

end
