(* ===== verification/TcpClient.thy ===== *)
theory TcpClient
  imports RouteSpec SendLoop
begin

text \<open>
  The client, \<open>TcpClient\<close> (TcpClient.cpp, TcpClient.h in src/MiniProtobufClient).  One thread runs the
  handlers posted to the \<open>io_context\<close>, first in, first out; the main thread calls \<open>Connect\<close>,
  \<open>MessageRoute::Send\<close> and \<open>Close\<close>.  The calls of the two threads are atomic in the model: both take
  \<open>gSocketSendMutex\<close> where they add to the send buffer and where they start a write.
\<close>

section \<open>Handlers\<close>

datatype ClientHandler =
    Do_resolve_handler bool | Do_connect_handler bool | Do_Receive | Do_Process | Do_Send
  | Do_read_handler bool bytes | Do_write_handler bool nat

text \<open>
  \<open>resolving\<close>, \<open>connecting\<close>, \<open>client_reading\<close> and \<open>client_writing\<close> are the operations that are outstanding;
  \<open>posted\<close> are the handlers in the queue; \<open>io_stopped\<close> says that the \<open>io_context\<close> was stopped.
  \<open>submitted\<close> are the messages the main thread has sent, \<open>client_wire\<close> the bytes the socket has taken.
\<close>

record TcpClient =
  client_route :: MessageRoute
  receivebuf :: bytes
  totlasendwill :: uint64
  totlasend :: uint64
  closed :: bool
  connected :: bool
  io_stopped :: bool
  resolving :: bool
  connecting :: bool
  client_reading :: bool
  client_writing :: "(bytes \<times> nat) list"
  posted :: "ClientHandler list"
  submitted :: "AnyMessage list"
  client_wire :: bytes

text \<open>The constructor leaves \<open>closed\<close> and \<open>connected\<close> as it finds them, and the route its \<open>mPreRecivesTotalLen\<close>.\<close>

definition TcpClient_new :: "bool \<Rightarrow> bool \<Rightarrow> MessageRoute \<Rightarrow> TcpClient" where
  "TcpClient_new mem1 mem2 r =
     \<lparr>client_route = SetMessageDispatcher ClientMessageDispatcher r, receivebuf = [], totlasendwill = 0, totlasend = 0,
      closed = mem1, connected = mem2, io_stopped = False, resolving = False, connecting = False, client_reading = False,
      client_writing = [], posted = [], submitted = [], client_wire = []\<rparr>"

definition client_post :: "ClientHandler list \<Rightarrow> TcpClient \<Rightarrow> TcpClient" where
  "client_post hs c = c\<lparr>posted := posted c @ hs\<rparr>"

definition Connect :: "TcpClient \<Rightarrow> TcpClient" where
  "Connect c = c\<lparr>closed := False, resolving := True\<rparr>"

definition resolve_handler :: "bool \<Rightarrow> TcpClient \<Rightarrow> TcpClient" where
  "resolve_handler ec c = (if \<not> ec then c\<lparr>connecting := True\<rparr> else c)"

definition connect_handler :: "bool \<Rightarrow> TcpClient \<Rightarrow> TcpClient" where
  "connect_handler ec c = client_post [Do_Receive, Do_Process] (c\<lparr>connected := True\<rparr>)"

definition Close :: "TcpClient \<Rightarrow> TcpClient" where
  "Close c = c\<lparr>closed := True, io_stopped := True\<rparr>"

definition Client_SendData :: "TcpClient \<Rightarrow> TcpClient" where
  "Client_SendData c = client_post [Do_Send] c"

text \<open>The route of \<open>c\<close> becomes \<open>r\<close>; moving bytes that a write still needs is undefined.\<close>

definition set_route :: "MessageRoute \<Rightarrow> TcpClient \<Rightarrow> TcpClient option" where
  "set_route r c =
     (if client_writing c \<noteq> [] \<and> mDataStreamSend r \<noteq> mDataStreamSend (client_route c) then None
      else Some (c\<lparr>client_route := r\<rparr>))"

definition TcpClient_Process :: "(bytes \<Rightarrow> bool) \<Rightarrow> TcpClient \<Rightarrow> TcpClient option" where
  "TcpClient_Process linked c = do {
     (call_send, r) \<leftarrow> Route_Process linked (client_route c);
     c \<leftarrow> set_route r c;
     let c = (if call_send then Client_SendData c else c);
     Some (if closed c \<and> connected c then c else client_post [Do_Process] c)
   }"

text \<open>\<open>Send\<close>: the socket takes \<open>k\<close> bytes at once, as in the server.\<close>

definition TcpClient_Send :: "nat \<Rightarrow> TcpClient \<Rightarrow> TcpClient" where
  "TcpClient_Send k c =
     (let data = mDataStreamSend (client_route c);
          c = c\<lparr>totlasendwill := totlasendwill c + word_of_nat (length data), client_wire := client_wire c @ take k data\<rparr>
      in if length data \<le> k then client_post [Do_write_handler False (length data)] c
         else c\<lparr>client_writing := client_writing c @ [(drop k data, length data)]\<rparr>)"

definition TcpClient_Receive :: "TcpClient \<Rightarrow> TcpClient" where
  "TcpClient_Receive c = c\<lparr>client_reading := True\<rparr>"

definition read_handler :: "bool \<Rightarrow> TcpClient \<Rightarrow> TcpClient option" where
  "read_handler ec c = do {
     r \<leftarrow> Receive (receivebuf c) (client_route c);
     let c = c\<lparr>client_route := r, receivebuf := []\<rparr>;
     Some (if closed c \<and> connected c then c else client_post [Do_Receive] c)
   }"

definition write_handler :: "bool \<Rightarrow> nat \<Rightarrow> TcpClient \<Rightarrow> TcpClient" where
  "write_handler ec bytes_transferred c =
     (if \<not> ec then c\<lparr>totlasend := totlasend c + word_of_nat bytes_transferred\<rparr> else c)"

text \<open>The completion of a write removes what it transmitted from the send buffer.\<close>

definition client_consume :: "nat \<Rightarrow> TcpClient \<Rightarrow> TcpClient" where
  "client_consume n c = c\<lparr>client_route := (client_route c)\<lparr>mDataStreamSend := drop n (mDataStreamSend (client_route c))\<rparr>\<rparr>"

fun client_run :: "(bytes \<Rightarrow> bool) \<Rightarrow> nat \<Rightarrow> ClientHandler \<Rightarrow> TcpClient \<Rightarrow> TcpClient option" where
  "client_run linked k (Do_resolve_handler ec) c = Some (resolve_handler ec c)"
| "client_run linked k (Do_connect_handler ec) c = Some (connect_handler ec c)"
| "client_run linked k Do_Receive c = Some (TcpClient_Receive c)"
| "client_run linked k Do_Process c = TcpClient_Process linked c"
| "client_run linked k Do_Send c = Some (TcpClient_Send k c)"
| "client_run linked k (Do_read_handler ec bs) c = read_handler ec (c\<lparr>receivebuf := receivebuf c @ bs\<rparr>)"
| "client_run linked k (Do_write_handler ec n) c = Some (write_handler ec n (client_consume n c))"

text \<open>The main thread sends a message.\<close>

definition submit :: "AnyMessage \<Rightarrow> TcpClient \<Rightarrow> TcpClient option" where
  "submit m c = do {
     r \<leftarrow> Send m (client_route c);
     c \<leftarrow> set_route r c;
     Some (c\<lparr>submitted := submitted c @ [m]\<rparr>)
   }"

section \<open>Any order of completions and calls\<close>

text \<open>\<open>eager\<close>: every write is taken by the socket at once.\<close>

inductive client_step :: "(bytes \<Rightarrow> bool) \<Rightarrow> bool \<Rightarrow> TcpClient \<Rightarrow> TcpClient option \<Rightarrow> bool" for linked eager where
  run: "\<not> io_stopped c \<Longrightarrow> posted c = h # q \<Longrightarrow> (eager \<longrightarrow> length (mDataStreamSend (client_route c)) \<le> k) \<Longrightarrow>
     client_step linked eager c (client_run linked k h (c\<lparr>posted := q\<rparr>))"
| resolved: "resolving c \<Longrightarrow>
     client_step linked eager c (Some (client_post [Do_resolve_handler ec] (c\<lparr>resolving := False\<rparr>)))"
| connect_done: "connecting c \<Longrightarrow>
     client_step linked eager c (Some (client_post [Do_connect_handler ec] (c\<lparr>connecting := False\<rparr>)))"
| data: "client_reading c \<Longrightarrow> bs \<noteq> [] \<Longrightarrow> length bs \<le> 65536 \<Longrightarrow>
     client_step linked eager c (Some (client_post [Do_read_handler False bs] (c\<lparr>client_reading := False\<rparr>)))"
| read_failed: "client_reading c \<Longrightarrow>
     client_step linked eager c (Some (client_post [Do_read_handler True []] (c\<lparr>client_reading := False\<rparr>)))"
| send_failed: "\<not> eager \<Longrightarrow> \<not> io_stopped c \<Longrightarrow> posted c = Do_Send # q \<Longrightarrow>
     client_step linked eager c (Some (client_post [Do_write_handler True 0]
       (c\<lparr>posted := q, totlasendwill := totlasendwill c + word_of_nat (length (mDataStreamSend (client_route c)))\<rparr>)))"
| written: "\<not> eager \<Longrightarrow> j < length (client_writing c) \<Longrightarrow> client_writing c ! j = (data, n) \<Longrightarrow>
     client_step linked eager c (Some (client_post [Do_write_handler False n]
       (c\<lparr>client_wire := client_wire c @ data,
          client_writing := take j (client_writing c) @ drop (Suc j) (client_writing c)\<rparr>)))"
| partly_written: "\<not> eager \<Longrightarrow> j < length (client_writing c) \<Longrightarrow> client_writing c ! j = (data, n) \<Longrightarrow> k < length data \<Longrightarrow>
     client_step linked eager c (Some (c\<lparr>client_wire := client_wire c @ take k data,
          client_writing := (client_writing c)[j := (drop k data, n)]\<rparr>))"
| write_failed: "\<not> eager \<Longrightarrow> j < length (client_writing c) \<Longrightarrow> client_writing c ! j = (data, n) \<Longrightarrow>
     client_step linked eager c (Some (client_post [Do_write_handler True (n - length data)]
       (c\<lparr>client_writing := take j (client_writing c) @ drop (Suc j) (client_writing c)\<rparr>)))"
| main_send: "int (length (encode m)) \<le> INT_MAX \<Longrightarrow> client_step linked eager c (submit m c)"
| main_close: "client_step linked eager c (Some (Close c))"

inductive client_reachable :: "(bytes \<Rightarrow> bool) \<Rightarrow> bool \<Rightarrow> TcpClient \<Rightarrow> bool" for linked eager where
  start: "length temp = TEMP_BUFFER_SIZE \<Longrightarrow> length temp' = TEMP_BUFFER_SIZE \<Longrightarrow>
     client_reachable linked eager (Connect (TcpClient_new mem1 mem2 (MessageRoute_new pre temp temp')))"
| step: "client_reachable linked eager c \<Longrightarrow> client_step linked eager c (Some c') \<Longrightarrow> client_reachable linked eager c'"


section \<open>The client does not stop by itself\<close>

fun is_read :: "ClientHandler \<Rightarrow> bool" where
  "is_read Do_Receive \<longleftrightarrow> True"
| "is_read (Do_read_handler ec bs) \<longleftrightarrow> True"
| "is_read _ \<longleftrightarrow> False"

fun is_setup :: "ClientHandler \<Rightarrow> bool" where
  "is_setup (Do_resolve_handler ec) \<longleftrightarrow> True"
| "is_setup (Do_connect_handler ec) \<longleftrightarrow> True"
| "is_setup _ \<longleftrightarrow> False"

text \<open>Before the connect is complete, at most one operation is under way; \<open>True\<close> in the second place: none is.\<close>

definition starting :: "TcpClient \<Rightarrow> bool" where
  "starting c \<longleftrightarrow> \<not> client_reading c \<and> client_writing c = [] \<and>
     (if resolving c \<or> connecting c then posted c = [] \<and> resolving c \<noteq> connecting c
      else posted c = [] \<or> (\<exists>h. posted c = [h] \<and> is_setup h))"

text \<open>Afterwards \<open>Process\<close> is posted once, and exactly one read is posted, under way or complete.\<close>

definition running :: "TcpClient \<Rightarrow> bool" where
  "running c \<longleftrightarrow> \<not> resolving c \<and> \<not> connecting c \<and> list_all (Not \<circ> is_setup) (posted c) \<and>
     count_list (posted c) Do_Process = 1 \<and> length (filter is_read (posted c)) + of_bool (client_reading c) = 1"

definition stopped_when_closed :: "TcpClient \<Rightarrow> bool" where
  "stopped_when_closed c \<longleftrightarrow> (closed c \<longrightarrow> io_stopped c)"

lemma TcpClient_Process_cases:
  assumes "TcpClient_Process linked c = Some c'"
  obtains b r where "ProcessRecv linked (client_route c) = Some (b, r)"
    "c' = client_post ((if mDataStreamSend r \<noteq> [] then [Do_Send] else []) @
       (if closed c \<and> connected c then [] else [Do_Process])) (c\<lparr>client_route := r\<rparr>)"
proof -
  obtain b r where p: "ProcessRecv linked (client_route c) = Some (b, r)"
    using assms unfolding TcpClient_Process_def Route_Process_def by (cases "ProcessRecv linked (client_route c)") auto
  show thesis
    by (rule that [OF p]) (use assms p in \<open>auto simp: TcpClient_Process_def Route_Process_def set_route_def ProcessSend_def
        Client_SendData_def client_post_def split: if_splits\<close>)
qed

lemma read_handler_cases:
  assumes "read_handler ec c = Some c'"
  obtains r where "Receive (receivebuf c) (client_route c) = Some r"
    "c' = client_post (if closed c \<and> connected c then [] else [Do_Receive]) (c\<lparr>client_route := r, receivebuf := []\<rparr>)"
proof -
  obtain r where r: "Receive (receivebuf c) (client_route c) = Some r"
    using assms unfolding read_handler_def by (cases "Receive (receivebuf c) (client_route c)") simp_all
  show thesis by (rule that [OF r]) (use assms r in \<open>auto simp: read_handler_def client_post_def\<close>)
qed

lemma submit_cases:
  assumes "submit m c = Some c'"
  obtains r where "Send m (client_route c) = Some r" "c' = c\<lparr>client_route := r, submitted := submitted c @ [m]\<rparr>"
proof -
  obtain r where r: "Send m (client_route c) = Some r"
    using assms unfolding submit_def by (cases "Send m (client_route c)") simp_all
  show thesis by (rule that [OF r]) (use assms r in \<open>auto simp: submit_def set_route_def split: if_splits\<close>)
qed

lemma running_run:
  assumes "running c" and "\<not> closed c" and "posted c = h # q" and "client_run linked k h (c\<lparr>posted := q\<rparr>) = Some c'"
  shows "running c'"
proof (cases h)
  case Do_Process
  obtain r where "c' = client_post ((if mDataStreamSend r \<noteq> [] then [Do_Send] else []) @ [Do_Process])
      (c\<lparr>posted := q, client_route := r\<rparr>)"
    by (rule TcpClient_Process_cases [of linked "c\<lparr>posted := q\<rparr>" c']) (use assms Do_Process in simp_all)
  then show ?thesis using assms(1,3) by (simp add: Do_Process running_def client_post_def)
next
  case (Do_read_handler ec bs)
  obtain r where "c' = client_post [Do_Receive] (c\<lparr>posted := q, client_route := r, receivebuf := []\<rparr>)"
    by (rule read_handler_cases [of ec "c\<lparr>posted := q, receivebuf := receivebuf c @ bs\<rparr>" c'])
      (use assms Do_read_handler in simp_all)
  then show ?thesis using assms(1,3) by (simp add: Do_read_handler running_def client_post_def)
qed (use assms in \<open>auto simp: running_def client_post_def TcpClient_Receive_def TcpClient_Send_def Let_def
      write_handler_def client_consume_def split: if_splits\<close>)

lemma starting_run:
  assumes "starting c" and "posted c = h # q" and "client_run linked k h (c\<lparr>posted := q\<rparr>) = Some c'"
  shows "starting c' \<or> running c'"
  using assms by (cases h) (auto simp: starting_def running_def resolve_handler_def connect_handler_def client_post_def split: if_splits)

lemma closed_run:
  assumes "client_run linked k h c = Some c'"
  shows "closed c' = closed c \<and> io_stopped c' = io_stopped c"
proof (cases h)
  case Do_Process
  then show ?thesis using assms by (auto elim: TcpClient_Process_cases simp: client_post_def)
next
  case (Do_read_handler ec bs)
  then show ?thesis using assms by (auto elim!: read_handler_cases simp: client_post_def)
qed (use assms in \<open>auto simp: resolve_handler_def connect_handler_def client_post_def TcpClient_Receive_def
      TcpClient_Send_def Let_def write_handler_def client_consume_def split: if_splits\<close>)

definition stage :: "TcpClient \<Rightarrow> bool" where
  "stage c \<longleftrightarrow> starting c \<or> running c"

lemma stage_setup:
  "stage c \<Longrightarrow> resolving c \<Longrightarrow> stage (client_post [Do_resolve_handler ec] (c\<lparr>resolving := False\<rparr>))"
  "stage c \<Longrightarrow> connecting c \<Longrightarrow> stage (client_post [Do_connect_handler ec] (c\<lparr>connecting := False\<rparr>))"
  by (auto simp: stage_def starting_def running_def client_post_def)

lemma stage_read:
  "stage c \<Longrightarrow> client_reading c \<Longrightarrow> stage (client_post [Do_read_handler ec bs] (c\<lparr>client_reading := False\<rparr>))"
  by (simp add: stage_def starting_def running_def client_post_def)

lemma stage_write:
  assumes "stage c" and "client_writing c \<noteq> []"
  shows "stage (client_post [Do_write_handler ec n] (c\<lparr>client_wire := w, client_writing := ws\<rparr>))"
    and "stage (c\<lparr>client_wire := w, client_writing := ws\<rparr>)"
  using assms by (simp_all add: stage_def starting_def running_def client_post_def)

lemma stage_unchanged:
  "stage (c\<lparr>client_route := r, submitted := ms\<rparr>) = stage c" "stage (Close c) = stage c"
  by (simp_all add: stage_def starting_def running_def Close_def)

lemma stage_send_failed:
  "stage c \<Longrightarrow> posted c = Do_Send # q \<Longrightarrow> stage (client_post [Do_write_handler True 0] (c\<lparr>posted := q, totlasendwill := t\<rparr>))"
  by (auto simp: stage_def starting_def running_def client_post_def split: if_splits)

lemma client_stage_step:
  assumes s: "stage c" and "stopped_when_closed c" and "client_step linked eager c (Some c')"
  shows "stage c' \<and> stopped_when_closed c'"
  using assms(3)
proof (cases rule: client_step.cases)
  case (run h q k)
  have "\<not> closed c" using assms(2) run by (auto simp: stopped_when_closed_def)
  moreover have "closed c' = closed c" using closed_run [OF run(1) [symmetric]] by simp
  ultimately show ?thesis
    using running_run [OF _ _ run(3), of linked k c'] starting_run [OF _ run(3), of linked k c'] run(1) s
    by (auto simp: stopped_when_closed_def stage_def)
next
  case (main_send m)
  obtain r where "c' = c\<lparr>client_route := r, submitted := submitted c @ [m]\<rparr>"
    by (rule submit_cases [OF main_send(1) [symmetric]])
  then show ?thesis using assms(2) s by (simp add: stage_unchanged stopped_when_closed_def)
next
  case main_close
  then show ?thesis using s by (simp add: stage_unchanged) (simp add: stopped_when_closed_def Close_def)
next
  case (written j data n)
  then have "client_writing c \<noteq> []" by auto
  then show ?thesis using written stage_write(1) [OF s] assms(2) by (simp add: stopped_when_closed_def client_post_def)
next
  case (partly_written j data n k)
  then have "client_writing c \<noteq> []" by auto
  then show ?thesis using partly_written stage_write(2) [OF s] assms(2) by (simp add: stopped_when_closed_def)
next
  case (write_failed j data n)
  then have "client_writing c \<noteq> []" by auto
  from stage_write(1) [OF s this, where w = "client_wire c"]
  show ?thesis using write_failed assms(2) by (simp add: stopped_when_closed_def client_post_def)
qed (use assms(2) stage_setup [OF s] stage_read [OF s] stage_send_failed [OF s] in
    \<open>simp_all add: stopped_when_closed_def client_post_def\<close>)

lemma client_stage: "client_reachable linked eager c \<Longrightarrow> stage c \<and> stopped_when_closed c"
proof (induction rule: client_reachable.induct)
  case (start temp temp' mem1 mem2 pre)
  show ?case by (simp add: Connect_def TcpClient_new_def stage_def starting_def stopped_when_closed_def)
next
  case (step c c')
  then show ?case using client_stage_step by blast
qed


section \<open>Messages on the wire\<close>

fun client_step_of :: "ClientHandler \<Rightarrow> loop_step" where
  "client_step_of Do_Process = Loop_Process"
| "client_step_of Do_Send = Loop_Send"
| "client_step_of (Do_write_handler ec n) = Loop_Written n"
| "client_step_of _ = Loop_Other"

abbreviation send_buffer :: "TcpClient \<Rightarrow> bytes" where
  "send_buffer c \<equiv> mDataStreamSend (client_route c)"

definition handler_ok :: "ClientHandler \<Rightarrow> bool" where
  "handler_ok h \<longleftrightarrow> (case h of Do_read_handler ec bs \<Rightarrow> length bs \<le> 65536 | Do_write_handler ec n \<Rightarrow> \<not> ec | _ \<Rightarrow> True)"

text \<open>The bytes \<open>gone\<close> of the messages submitted have left the send buffer.\<close>

definition client_state :: "bytes \<Rightarrow> TcpClient \<Rightarrow> bool" where
  "client_state gone c \<longleftrightarrow> route_inv (client_route c) \<and> m_spMessageDispatcher (client_route c) = Some ClientMessageDispatcher \<and>
     receivebuf c = [] \<and> client_writing c = [] \<and> list_all handler_ok (posted c) \<and>
     gone @ send_buffer c = concat (map frame (submitted c)) \<and>
     pump gone (send_buffer c) (client_wire c) (map client_step_of (posted c)) \<and>
     totlasendwill c = word_of_nat (length (client_wire c)) \<and>
     totlasend c + word_of_nat (transmitted (map client_step_of (posted c))) = word_of_nat (length (client_wire c))"

lemma client_state_Process:
  assumes "client_state gone c" and "posted c = Do_Process # q" and "\<not> closed c"
  shows "\<exists>c'. client_run linked k Do_Process (c\<lparr>posted := q\<rparr>) = Some c' \<and> client_state gone c'"
proof -
  obtain b r where r: "ProcessRecv linked (client_route c) = Some (b, r)" "route_inv r" "mDataStreamSend r = send_buffer c"
      "m_spMessageDispatcher r = Some ClientMessageDispatcher"
    using client_ProcessRecv [of "client_route c" linked] assms(1) by (auto simp: client_state_def)
  let ?hs = "(if send_buffer c \<noteq> [] then [Do_Send] else []) @ [Do_Process]"
  have "client_run linked k Do_Process (c\<lparr>posted := q\<rparr>) = Some (c\<lparr>posted := q @ ?hs, client_route := r\<rparr>)"
    using r assms by (simp add: TcpClient_Process_def Route_Process_def set_route_def ProcessSend_def Client_SendData_def client_post_def)
  moreover have "pump gone (send_buffer c) (client_wire c) (map client_step_of q @ map client_step_of ?hs)"
    by (rule pump_Process) (use assms in \<open>simp_all add: client_state_def\<close>)
  ultimately show ?thesis using assms r by (auto simp: client_state_def handler_ok_def)
qed

lemma client_state_Send:
  assumes "client_state gone c" and "posted c = Do_Send # q" and "length (send_buffer c) \<le> k"
  shows "client_state gone (TcpClient_Send k (c\<lparr>posted := q\<rparr>))"
proof -
  have p: "pump gone (send_buffer c) (client_wire c) (Loop_Send # map client_step_of q)" using assms by (simp add: client_state_def)
  have "transmitted (map client_step_of q) = 0" using p sends_ok_Send [of "map client_step_of q"] by (simp add: pump_def)
  then show ?thesis using assms pump_Send(1) [OF p]
    by (simp add: client_state_def TcpClient_Send_def client_post_def Let_def handler_ok_def)
qed

lemma client_state_write_handler:
  assumes "client_state gone c" and "posted c = Do_write_handler ec n # q"
  shows "client_state (gone @ take n (send_buffer c)) (write_handler ec n (client_consume n (c\<lparr>posted := q\<rparr>)))"
proof -
  have p: "pump gone (send_buffer c) (client_wire c) (Loop_Written n # map client_step_of q)" using assms by (simp add: client_state_def)
  show ?thesis using assms pump_Written [OF p]
    by (simp add: client_state_def write_handler_def client_consume_def handler_ok_def route_inv_def ac_simps)
qed

lemma client_state_read_handler:
  assumes "client_state gone c" and "posted c = Do_read_handler ec bs # q" and "\<not> closed c"
  shows "\<exists>c'. client_run linked k (Do_read_handler ec bs) (c\<lparr>posted := q\<rparr>) = Some c' \<and> client_state gone c'"
proof -
  obtain temp where r: "Receive bs (client_route c) = Some ((client_route c)
      \<lparr>mTempBuffer := temp, mDataStreamReceive := mDataStreamReceive (client_route c) @ bs\<rparr>)" "length temp = TEMP_BUFFER_SIZE"
    using Receive_appends [of "client_route c" bs] assms(1,2) by (auto simp: client_state_def handler_ok_def)
  then show ?thesis using assms
    by (simp add: read_handler_def client_post_def client_state_def route_inv_def handler_ok_def)
qed

lemma client_state_submit:
  assumes "client_state gone c" and "int (length (encode m)) \<le> INT_MAX"
  shows "\<exists>c'. submit m c = Some c' \<and> client_state gone c'"
  using assms Send_appends [OF assms(2), of "client_route c"] pump_more [of gone "send_buffer c" "client_wire c" _ "frame m"]
  by (simp add: submit_def set_route_def client_state_def route_inv_def)

lemma client_state_run:
  assumes c: "client_state gone c" and q: "posted c = h # q" and "\<not> closed c" and "stage c" and k: "length (send_buffer c) \<le> k"
  shows "\<exists>c' gone'. client_run linked k h (c\<lparr>posted := q\<rparr>) = Some c' \<and> client_state gone' c'"
proof (cases h)
  case (Do_connect_handler ec)
  then have "q = []" using assms(4) q by (auto simp: stage_def starting_def running_def split: if_splits)
  then show ?thesis using c q
    by (auto simp: Do_connect_handler connect_handler_def client_post_def client_state_def handler_ok_def pump_def sends_ok_def)
next
  case Do_Process
  then show ?thesis using client_state_Process [OF c] q assms(3) by blast
next
  case Do_Send
  then show ?thesis using client_state_Send [OF c _ k] q by auto
next
  case (Do_read_handler ec bs)
  then show ?thesis using client_state_read_handler [OF c] q assms(3) by blast
next
  case (Do_write_handler ec n)
  then show ?thesis using client_state_write_handler [OF c] q by auto
qed (use c q in \<open>auto simp: client_state_def resolve_handler_def TcpClient_Receive_def\<close>)

lemma client_state_post:
  assumes "client_state gone c" and "client_step_of h = Loop_Other" and "handler_ok h"
  shows "client_state gone (client_post [h] (c\<lparr>resolving := a, connecting := b, client_reading := d\<rparr>))"
  using assms by (simp add: client_state_def client_post_def)

lemma client_state_step:
  assumes c: "client_state gone c" and st: "stage c" "stopped_when_closed c" and "client_step linked True c x"
  shows "\<exists>c' gone'. x = Some c' \<and> client_state gone' c'"
  using assms(4)
proof (cases rule: client_step.cases)
  case (run h q k)
  then show ?thesis using client_state_run [OF c _ _ st(1), of h q k linked] st(2) by (auto simp: stopped_when_closed_def)
next
  case (resolved ec)
  then show ?thesis using client_state_post [OF c, where h = "Do_resolve_handler ec" and a = False and b = "connecting c" and d = "client_reading c"]
    by (auto simp: handler_ok_def)
next
  case (connect_done ec)
  then show ?thesis using client_state_post [OF c, where h = "Do_connect_handler ec" and a = "resolving c" and b = False and d = "client_reading c"]
    by (auto simp: handler_ok_def)
next
  case (data bs)
  then show ?thesis using client_state_post [OF c, where h = "Do_read_handler False bs" and a = "resolving c" and b = "connecting c" and d = False]
    by (auto simp: handler_ok_def)
next
  case read_failed
  then show ?thesis using client_state_post [OF c, where h = "Do_read_handler True []" and a = "resolving c" and b = "connecting c" and d = False]
    by (auto simp: handler_ok_def)
next
  case (main_send m)
  then show ?thesis using client_state_submit [OF c] by blast
next
  case main_close
  then show ?thesis using c by (auto simp: client_state_def Close_def)
qed simp_all

lemma client_state_reachable: "client_reachable linked True c \<Longrightarrow> \<exists>gone. client_state gone c"
proof (induction rule: client_reachable.induct)
  case (start temp temp' mem1 mem2 pre)
  then show ?case by (simp add: Connect_def TcpClient_new_def client_state_def SetMessageDispatcher_def MessageRoute_new_def
        route_inv_def pump_new)
next
  case (step c c')
  then show ?case using client_state_step client_stage by blast
qed


section \<open>Properties\<close>

definition sample_client :: TcpClient where
  "sample_client = Connect (TcpClient_new True False (MessageRoute_new 77 (replicate TEMP_BUFFER_SIZE 0) (replicate TEMP_BUFFER_SIZE 0)))"

lemma sample_client_reachable: "client_reachable linked eager sample_client"
  unfolding sample_client_def by (rule client_reachable.start) simp_all







end
