(* ===== verification/HttpParser.thy ===== *)
theory HttpParser
  imports Prelude
begin

text \<open>
  The request parser of the HTTP server (src/MiniProtobufServer/HttpServer/request_parser.cpp,
  request_parser.hpp, request.hpp, header.hpp): a state machine over the characters of the input.
  It never looks at the last header when there is none, it does not depend on how the input is cut
  into reads, accepted requests are well formed, and the text of a well-formed request is read back
  as that request.
\<close>

section \<open>Requests\<close>

text \<open>A \<open>std::string\<close> is its bytes; a \<open>char\<close> is signed, so \<open>int c\<close> of a byte \<open>b\<close> is \<open>sint b\<close>.\<close>

record header =
  field_name :: bytes
  field_value :: bytes

text \<open>The version numbers are \<open>int\<close>s; the digits wrap around at 32 bits.\<close>

record request =
  request_method :: bytes
  uri :: bytes
  http_version_major :: int32
  http_version_minor :: int32
  headers :: "header list"

datatype result_type = good | bad | indeterminate

datatype state =
    method_start | in_method | in_uri | http_version_h | http_version_t_1 | http_version_t_2 | http_version_p
  | http_version_slash | http_version_major_start | in_version_major | http_version_minor_start
  | in_version_minor | expecting_newline_1 | header_line_start | header_lws | header_name
  | space_before_header_value | header_value | expecting_newline_2 | expecting_newline_3

abbreviation CR :: byte where "CR \<equiv> 13"
abbreviation LF :: byte where "LF \<equiv> 10"
abbreviation SP :: byte where "SP \<equiv> 32"
abbreviation HT :: byte where "HT \<equiv> 9"

definition is_char :: "int \<Rightarrow> bool" where
  "is_char c \<longleftrightarrow> c \<ge> 0 \<and> c \<le> 127"

definition is_ctl :: "int \<Rightarrow> bool" where
  "is_ctl c \<longleftrightarrow> (c \<ge> 0 \<and> c \<le> 31) \<or> c = 127"

definition is_tspecial :: "int \<Rightarrow> bool" where
  "is_tspecial c \<longleftrightarrow> c \<in> {40, 41, 60, 62, 64, 44, 59, 58, 92, 34, 47, 91, 93, 63, 61, 123, 125, 32, 9}"

definition is_digit :: "int \<Rightarrow> bool" where
  "is_digit c \<longleftrightarrow> c \<ge> 48 \<and> c \<le> 57"

section \<open>The state machine\<close>

text \<open>
  \<open>req.headers.back().f.push_back(input)\<close>; \<open>None\<close> is \<open>back()\<close> of an empty vector.
\<close>

definition push_back_last :: "((bytes \<Rightarrow> bytes) \<Rightarrow> header \<Rightarrow> header) \<Rightarrow> byte \<Rightarrow> request \<Rightarrow> request option" where
  "push_back_last upd input req = (if headers req = [] then None
     else Some (req\<lparr>headers := butlast (headers req) @ [upd (\<lambda>s. s @ [input]) (last (headers req))]\<rparr>))"

definition not_token :: "byte \<Rightarrow> bool" where
  "not_token input \<longleftrightarrow> \<not> is_char (sint input) \<or> is_ctl (sint input) \<or> is_tspecial (sint input)"

text \<open>\<open>n * 10 + input - '0'\<close>, wrapping where the overflow of \<open>int\<close> is undefined.\<close>

definition add_digit :: "int32 \<Rightarrow> byte \<Rightarrow> int32" where
  "add_digit n input = n * 10 + scast input - 48"

text \<open>\<open>consume\<close>: the result, the next state and the request.\<close>

fun consume :: "state \<Rightarrow> request \<Rightarrow> byte \<Rightarrow> (result_type \<times> state \<times> request) option" where
  "consume method_start req input =
     (if not_token input then Some (bad, method_start, req)
      else Some (indeterminate, in_method, req\<lparr>request_method := request_method req @ [input]\<rparr>))"
| "consume in_method req input =
     (if input = SP then Some (indeterminate, in_uri, req)
      else if not_token input then Some (bad, in_method, req)
      else Some (indeterminate, in_method, req\<lparr>request_method := request_method req @ [input]\<rparr>))"
| "consume in_uri req input =
     (if input = SP then Some (indeterminate, http_version_h, req)
      else if is_ctl (sint input) then Some (bad, in_uri, req)
      else Some (indeterminate, in_uri, req\<lparr>uri := uri req @ [input]\<rparr>))"
| "consume http_version_h req input =
     (if input = 72 then Some (indeterminate, http_version_t_1, req) else Some (bad, http_version_h, req))"
| "consume http_version_t_1 req input =
     (if input = 84 then Some (indeterminate, http_version_t_2, req) else Some (bad, http_version_t_1, req))"
| "consume http_version_t_2 req input =
     (if input = 84 then Some (indeterminate, http_version_p, req) else Some (bad, http_version_t_2, req))"
| "consume http_version_p req input =
     (if input = 80 then Some (indeterminate, http_version_slash, req) else Some (bad, http_version_p, req))"
| "consume http_version_slash req input =
     (if input = 47
      then Some (indeterminate, http_version_major_start, req\<lparr>http_version_major := 0, http_version_minor := 0\<rparr>)
      else Some (bad, http_version_slash, req))"
| "consume http_version_major_start req input =
     (if is_digit (sint input)
      then Some (indeterminate, in_version_major, req\<lparr>http_version_major := add_digit (http_version_major req) input\<rparr>)
      else Some (bad, http_version_major_start, req))"
| "consume in_version_major req input =
     (if input = 46 then Some (indeterminate, http_version_minor_start, req)
      else if is_digit (sint input)
      then Some (indeterminate, in_version_major, req\<lparr>http_version_major := add_digit (http_version_major req) input\<rparr>)
      else Some (bad, in_version_major, req))"
| "consume http_version_minor_start req input =
     (if is_digit (sint input)
      then Some (indeterminate, in_version_minor, req\<lparr>http_version_minor := add_digit (http_version_minor req) input\<rparr>)
      else Some (bad, http_version_minor_start, req))"
| "consume in_version_minor req input =
     (if input = CR then Some (indeterminate, expecting_newline_1, req)
      else if is_digit (sint input)
      then Some (indeterminate, in_version_minor, req\<lparr>http_version_minor := add_digit (http_version_minor req) input\<rparr>)
      else Some (bad, in_version_minor, req))"
| "consume expecting_newline_1 req input =
     (if input = LF then Some (indeterminate, header_line_start, req) else Some (bad, expecting_newline_1, req))"
| "consume header_line_start req input =
     (if input = CR then Some (indeterminate, expecting_newline_3, req)
      else if headers req \<noteq> [] \<and> (input = SP \<or> input = HT) then Some (indeterminate, header_lws, req)
      else if not_token input then Some (bad, header_line_start, req)
      else map_option (\<lambda>req. (indeterminate, header_name, req))
        (push_back_last field_name_update input (req\<lparr>headers := headers req @ [\<lparr>field_name = [], field_value = []\<rparr>]\<rparr>)))"
| "consume header_lws req input =
     (if input = CR then Some (indeterminate, expecting_newline_2, req)
      else if input = SP \<or> input = HT then Some (indeterminate, header_lws, req)
      else if is_ctl (sint input) then Some (bad, header_lws, req)
      else map_option (\<lambda>req. (indeterminate, header_value, req)) (push_back_last field_value_update input req))"
| "consume header_name req input =
     (if input = 58 then Some (indeterminate, space_before_header_value, req)
      else if not_token input then Some (bad, header_name, req)
      else map_option (\<lambda>req. (indeterminate, header_name, req)) (push_back_last field_name_update input req))"
| "consume space_before_header_value req input =
     (if input = SP then Some (indeterminate, header_value, req) else Some (bad, space_before_header_value, req))"
| "consume header_value req input =
     (if input = CR then Some (indeterminate, expecting_newline_2, req)
      else if is_ctl (sint input) then Some (bad, header_value, req)
      else map_option (\<lambda>req. (indeterminate, header_value, req)) (push_back_last field_value_update input req))"
| "consume expecting_newline_2 req input =
     (if input = LF then Some (indeterminate, header_line_start, req) else Some (bad, expecting_newline_2, req))"
| "consume expecting_newline_3 req input =
     Some (if input = LF then good else bad, expecting_newline_3, req)"

text \<open>\<open>parse\<close>: the result, the input that is left, the state and the request.\<close>

fun parse :: "state \<Rightarrow> request \<Rightarrow> bytes \<Rightarrow> (result_type \<times> bytes \<times> state \<times> request) option" where
  "parse st req [] = Some (indeterminate, [], st, req)"
| "parse st req (b # bs) = (case consume st req b of
       None \<Rightarrow> None
     | Some (res, st', req') \<Rightarrow>
         if res = good \<or> res = bad then Some (res, bs, st', req') else parse st' req' bs)"

definition reset :: "state \<Rightarrow> state" where
  "reset st = method_start"

text \<open>The request of a new connection; its version numbers are not initialised.\<close>

definition request_new :: "int32 \<Rightarrow> int32 \<Rightarrow> request" where
  "request_new major minor =
     \<lparr>request_method = [], uri = [], http_version_major = major, http_version_minor = minor, headers = []\<rparr>"

section \<open>Reads of any size\<close>

lemma parse_cut:
  "parse st req (a @ b) = (case parse st req a of
     None \<Rightarrow> None
   | Some (res, rest, st', req') \<Rightarrow>
       if res = indeterminate then parse st' req' b else Some (res, rest @ b, st', req'))"
proof (induction a arbitrary: st req)
  case (Cons x a)
  then show ?case by (auto split: option.splits)
qed simp

section \<open>Well-formed requests\<close>

definition token :: "bytes \<Rightarrow> bool" where
  "token s \<longleftrightarrow> s \<noteq> [] \<and> list_all (\<lambda>b. \<not> not_token b) s"

definition text_bytes :: "bytes \<Rightarrow> bool" where
  "text_bytes s \<longleftrightarrow> list_all (\<lambda>b. \<not> is_ctl (sint b)) s"

definition header_ok :: "header \<Rightarrow> bool" where
  "header_ok h \<longleftrightarrow> token (field_name h) \<and> text_bytes (field_value h)"

definition request_ok :: "request \<Rightarrow> bool" where
  "request_ok req \<longleftrightarrow> token (request_method req) \<and> text_bytes (uri req) \<and> SP \<notin> set (uri req) \<and> list_all header_ok (headers req)"

text \<open>What holds in each state.\<close>

definition parser_inv :: "state \<Rightarrow> request \<Rightarrow> bool" where
  "parser_inv st req \<longleftrightarrow>
     (if st = method_start then request_method req = [] else token (request_method req)) \<and>
     text_bytes (uri req) \<and> SP \<notin> set (uri req) \<and> list_all header_ok (headers req) \<and>
     (st \<in> {method_start, in_method} \<longrightarrow> uri req = []) \<and>
     (st \<in> {header_lws, header_name, space_before_header_value, header_value, expecting_newline_2} \<longrightarrow> headers req \<noteq> [])"

lemma token_append: "token (s @ [b]) \<longleftrightarrow> list_all (\<lambda>b. \<not> not_token b) s \<and> \<not> not_token b"
  by (auto simp: token_def)

lemma push_back_last_inv:
  assumes "headers req \<noteq> []"
  shows "push_back_last upd b req =
     Some (req\<lparr>headers := butlast (headers req) @ [upd (\<lambda>s. s @ [b]) (last (headers req))]\<rparr>)"
  using assms by (simp add: push_back_last_def)

lemma list_all_butlast_last: "xs \<noteq> [] \<Longrightarrow> list_all P xs \<longleftrightarrow> list_all P (butlast xs) \<and> P (last xs)"
  by (cases xs rule: rev_cases) auto

lemma consume_inv:
  assumes "parser_inv st req"
  shows "\<exists>res st' req'. consume st req b = Some (res, st', req') \<and> (res \<noteq> bad \<longrightarrow> parser_inv st' req')
     \<and> (res = good \<longrightarrow> st' = expecting_newline_3)"
  using assms
  by (cases st) (auto simp: parser_inv_def push_back_last_def token_append token_def text_bytes_def header_ok_def
      list_all_butlast_last [of "headers req"] not_token_def)

lemma parse_inv:
  assumes "parser_inv st req"
  shows "\<exists>res rest st' req'. parse st req bs = Some (res, rest, st', req') \<and> (res \<noteq> bad \<longrightarrow> parser_inv st' req')
     \<and> (res = good \<longrightarrow> st' = expecting_newline_3)"
  using assms
proof (induction bs arbitrary: st req)
  case (Cons b bs)
  obtain res st' req' where "consume st req b = Some (res, st', req')" "res \<noteq> bad \<longrightarrow> parser_inv st' req'"
      "res = good \<longrightarrow> st' = expecting_newline_3"
    using consume_inv [OF Cons.prems] by blast
  then show ?case using Cons.IH by (cases res) auto
qed simp

lemma parser_inv_new: "parser_inv method_start (request_new major minor)"
  by (simp add: parser_inv_def request_new_def text_bytes_def)

section \<open>Reading back a request\<close>

text \<open>\<open>std::to_string\<close> of an unsigned number.\<close>

fun to_string :: "nat \<Rightarrow> bytes" where
  "to_string n = (if n < 10 then [word_of_nat (48 + n)] else to_string (n div 10) @ [word_of_nat (48 + n mod 10)])"

declare to_string.simps [simp del]

definition render_header :: "header \<Rightarrow> bytes" where
  "render_header h = field_name h @ [58, SP] @ field_value h @ [CR, LF]"

definition render :: "request \<Rightarrow> bytes" where
  "render req = request_method req @ [SP] @ uri req @ [SP] @ ascii ''HTTP/'' @
     to_string (unat (http_version_major req)) @ [46] @ to_string (unat (http_version_minor req)) @ [CR, LF] @
     concat (map render_header (headers req)) @ [CR, LF]"

lemma sint_digit:
  assumes "k < 10"
  shows "sint (word_of_nat (48 + k) :: byte) = int (48 + k)" and "scast (word_of_nat (48 + k) :: byte) = (word_of_nat (48 + k) :: int32)"
proof -
  have "k \<in> {0, 1, 2, 3, 4, 5, 6, 7, 8, 9}" using assms by auto
  then show "sint (word_of_nat (48 + k) :: byte) = int (48 + k)" and "scast (word_of_nat (48 + k) :: byte) = (word_of_nat (48 + k) :: int32)"
    by auto
qed

lemma to_string_digits: "list_all (\<lambda>b. is_digit (sint b)) (to_string n) \<and> to_string n \<noteq> []"
proof (induction n rule: to_string.induct)
  case (1 n)
  then show ?case
    by (subst (1 2) to_string.simps) (auto simp: sint_digit(1) is_digit_def simp del: of_nat_add)
qed

lemma foldl_to_string: "foldl add_digit 0 (to_string n) = word_of_nat n"
proof (induction n rule: to_string.induct)
  case (1 n)
  show ?case
  proof (cases "n < 10")
    case True
    then show ?thesis by (subst to_string.simps) (simp add: add_digit_def sint_digit(2) del: of_nat_add, simp)
  next
    case False
    have "word_of_nat n = (word_of_nat (n div 10 * 10 + n mod 10) :: int32)" by simp
    then have n: "word_of_nat n = (word_of_nat (n div 10) * 10 + word_of_nat (n mod 10) :: int32)"
      by (simp only: of_nat_add of_nat_mult of_nat_numeral)
    have "foldl add_digit 0 (to_string (n div 10)) = word_of_nat (n div 10)" using 1 False by blast
    then have "foldl add_digit 0 (to_string n) = add_digit (word_of_nat (n div 10)) (word_of_nat (48 + n mod 10))"
      using False by (subst to_string.simps) simp
    moreover have "add_digit (word_of_nat (n div 10)) (word_of_nat (48 + n mod 10)) = word_of_nat n"
      using sint_digit(2) [of "n mod 10"] by (simp add: add_digit_def n)
    ultimately show ?thesis by simp
  qed
qed

lemma not_token_special [simp]: "not_token SP" "not_token CR" "not_token 58" "not_token HT"
  by (simp_all add: not_token_def is_tspecial_def is_ctl_def)

lemma parse_method:
  "list_all (\<lambda>b. \<not> not_token b) s \<Longrightarrow>
     parse in_method req (s @ SP # rest) = parse in_uri (req\<lparr>request_method := request_method req @ s\<rparr>) rest"
proof (induction s arbitrary: req)
  case (Cons b s)
  then have "b \<noteq> SP" by auto
  then show ?case using Cons by simp
qed simp

lemma parse_method_start:
  "token s \<Longrightarrow> request_method req = [] \<Longrightarrow> parse method_start req (s @ SP # rest) = parse in_uri (req\<lparr>request_method := s\<rparr>) rest"
  by (cases s) (auto simp: token_def parse_method)

lemma parse_uri:
  "text_bytes s \<Longrightarrow> SP \<notin> set s \<Longrightarrow>
     parse in_uri req (s @ SP # rest) = parse http_version_h (req\<lparr>uri := uri req @ s\<rparr>) rest"
  by (induction s arbitrary: req) (auto simp: text_bytes_def)

lemma parse_http:
  "parse http_version_h req (ascii ''HTTP/'' @ rest) =
     parse http_version_major_start (req\<lparr>http_version_major := 0, http_version_minor := 0\<rparr>) rest"
  by (simp add: ascii_def)

lemma digit_not: "is_digit (sint (b :: byte)) \<Longrightarrow> b \<noteq> 46 \<and> b \<noteq> CR"
  by (auto simp: is_digit_def)

lemma parse_major:
  "list_all (\<lambda>b. is_digit (sint b)) ds \<Longrightarrow> parse in_version_major req (ds @ 46 # rest) =
     parse http_version_minor_start (req\<lparr>http_version_major := foldl add_digit (http_version_major req) ds\<rparr>) rest"
  by (induction ds arbitrary: req) (auto dest: digit_not)

lemma parse_minor:
  "list_all (\<lambda>b. is_digit (sint b)) ds \<Longrightarrow> parse in_version_minor req (ds @ CR # LF # rest) =
     parse header_line_start (req\<lparr>http_version_minor := foldl add_digit (http_version_minor req) ds\<rparr>) rest"
  by (induction ds arbitrary: req) (auto dest: digit_not)

lemma parse_version:
  assumes "http_version_major req = 0" and "http_version_minor req = 0"
  shows "parse http_version_major_start req (to_string a @ 46 # to_string b @ CR # LF # rest) =
     parse header_line_start (req\<lparr>http_version_major := word_of_nat a, http_version_minor := word_of_nat b\<rparr>) rest"
proof -
  obtain x xs where a: "to_string a = x # xs" using to_string_digits [of a] by (cases "to_string a") auto
  obtain y ys where b: "to_string b = y # ys" using to_string_digits [of b] by (cases "to_string b") auto
  show ?thesis
    using to_string_digits [of a] to_string_digits [of b] foldl_to_string [of a] foldl_to_string [of b] assms
    by (simp add: a b parse_major parse_minor)
qed

lemma parse_header_name:
  "list_all (\<lambda>b. \<not> not_token b) s \<Longrightarrow> parse header_name (req\<lparr>headers := hs @ [\<lparr>field_name = n, field_value = v\<rparr>]\<rparr>) (s @ 58 # SP # rest) =
     parse header_value (req\<lparr>headers := hs @ [\<lparr>field_name = n @ s, field_value = v\<rparr>]\<rparr>) rest"
proof (induction s arbitrary: n)
  case (Cons b s)
  then have "b \<noteq> 58" by auto
  then show ?case using Cons by (simp add: push_back_last_def)
qed simp

lemma parse_header_value:
  "text_bytes s \<Longrightarrow> parse header_value (req\<lparr>headers := hs @ [\<lparr>field_name = n, field_value = v\<rparr>]\<rparr>) (s @ CR # LF # rest) =
     parse header_line_start (req\<lparr>headers := hs @ [\<lparr>field_name = n, field_value = v @ s\<rparr>]\<rparr>) rest"
proof (induction s arbitrary: v)
  case (Cons b s)
  then have "b \<noteq> CR" by (auto simp: text_bytes_def is_ctl_def)
  then show ?case using Cons by (simp add: push_back_last_def text_bytes_def)
qed simp

lemma parse_header:
  assumes "header_ok h"
  shows "parse header_line_start req (render_header h @ rest) =
     parse header_line_start (req\<lparr>headers := headers req @ [h]\<rparr>) rest"
proof -
  obtain b s v where h: "h = \<lparr>field_name = b # s, field_value = v\<rparr>" "\<not> not_token b" "list_all (\<lambda>b. \<not> not_token b) s" "text_bytes v"
    using assms by (cases h; cases "field_name h") (auto simp: header_ok_def token_def)
  have "b \<noteq> CR" "b \<noteq> SP" "b \<noteq> HT" using h(2) by auto
  then show ?thesis using h(2) parse_header_name [OF h(3), where hs = "headers req" and n = "[b]" and v = "[]"]
      parse_header_value [OF h(4), where hs = "headers req" and n = "b # s" and v = "[]"]
    by (simp add: render_header_def push_back_last_def h(1))
qed

lemma parse_headers:
  "list_all header_ok hs \<Longrightarrow> parse header_line_start req (concat (map render_header hs) @ CR # LF # rest) =
     Some (good, rest, expecting_newline_3, req\<lparr>headers := headers req @ hs\<rparr>)"
  by (induction hs arbitrary: req) (simp_all add: parse_header)

lemma parse_render:
  assumes "request_ok req"
  shows "parse method_start (request_new major minor) (render req @ rest) = Some (good, rest, expecting_newline_3, req)"
  using assms
  by (simp add: render_def request_ok_def parse_method_start parse_uri parse_http parse_version parse_headers request_new_def)

section \<open>Properties\<close>

text \<open>The parser does not depend on how the input is cut into reads.\<close>

theorem parse_chunks:
  "parse st req (a @ b) = (case parse st req a of
     None \<Rightarrow> None
   | Some (res, rest, st', req') \<Rightarrow>
       if res = indeterminate then parse st' req' b else Some (res, rest @ b, st', req'))"
  by (rule parse_cut)


text \<open>C21: the text of every well-formed request is read back as that request, and what follows it is left.\<close>

theorem request_roundtrip:
  assumes "request_ok req"
  shows "parse method_start (request_new major minor) (render req @ rest) = Some (good, rest, expecting_newline_3, req)"
  by (rule parse_render [OF assms])

theorem request_roundtrip_witness:
  "parse method_start (request_new 5 6)
     (ascii ''GET /a.html HTTP/1.0'' @ [CR, LF] @ ascii ''Host: x'' @ [CR, LF] @ [CR, LF]) =
   Some (good, [], expecting_newline_3,
     \<lparr>request_method = ascii ''GET'', uri = ascii ''/a.html'', http_version_major = 1, http_version_minor = 0,
      headers = [\<lparr>field_name = ascii ''Host'', field_value = ascii ''x''\<rparr>]\<rparr>)"
proof -
  let ?req = "\<lparr>request_method = ascii ''GET'', uri = ascii ''/a.html'', http_version_major = 1, http_version_minor = 0,
      headers = [\<lparr>field_name = ascii ''Host'', field_value = ascii ''x''\<rparr>]\<rparr>"
  have "request_ok ?req"
    by (simp add: request_ok_def token_def text_bytes_def header_ok_def not_token_def is_char_def is_ctl_def is_tspecial_def ascii_def)
  moreover have "render ?req = ascii ''GET /a.html HTTP/1.0'' @ [CR, LF] @ ascii ''Host: x'' @ [CR, LF] @ [CR, LF]"
    by (simp add: render_def render_header_def to_string.simps ascii_def)
  ultimately show ?thesis using request_roundtrip [of ?req 5 6 "[]"] by simp
qed

end
