(* ===== verification/HttpReply.thy ===== *)
theory HttpReply
  imports HttpParser
begin

text \<open>
  Replies and the request handler of the HTTP server (reply.cpp, reply.hpp, mime_types.cpp,
  request_handler.cpp in src/MiniProtobufServer/HttpServer).  The file system is a parameter: \<open>fs\<close>
  maps the path given to \<open>ifstream\<close> to the contents of the file, if it can be opened.
\<close>

section \<open>Replies\<close>

datatype status_type =
    ok | created | accepted | no_content | multiple_choices | moved_permanently | moved_temporarily | not_modified
  | bad_request | unauthorized | forbidden | not_found | internal_server_error | not_implemented | bad_gateway | service_unavailable

text \<open>\<open>status_strings::to_buffer\<close>, the status line.\<close>

fun to_buffer :: "status_type \<Rightarrow> bytes" where
  "to_buffer ok = ascii ''HTTP/1.0 200 OK'' @ [CR, LF]"
| "to_buffer created = ascii ''HTTP/1.0 201 Created'' @ [CR, LF]"
| "to_buffer accepted = ascii ''HTTP/1.0 202 Accepted'' @ [CR, LF]"
| "to_buffer no_content = ascii ''HTTP/1.0 204 No Content'' @ [CR, LF]"
| "to_buffer multiple_choices = ascii ''HTTP/1.0 300 Multiple Choices'' @ [CR, LF]"
| "to_buffer moved_permanently = ascii ''HTTP/1.0 301 Moved Permanently'' @ [CR, LF]"
| "to_buffer moved_temporarily = ascii ''HTTP/1.0 302 Moved Temporarily'' @ [CR, LF]"
| "to_buffer not_modified = ascii ''HTTP/1.0 304 Not Modified'' @ [CR, LF]"
| "to_buffer bad_request = ascii ''HTTP/1.0 400 Bad Request'' @ [CR, LF]"
| "to_buffer unauthorized = ascii ''HTTP/1.0 401 Unauthorized'' @ [CR, LF]"
| "to_buffer forbidden = ascii ''HTTP/1.0 403 Forbidden'' @ [CR, LF]"
| "to_buffer not_found = ascii ''HTTP/1.0 404 Not Found'' @ [CR, LF]"
| "to_buffer internal_server_error = ascii ''HTTP/1.0 500 Internal Server Error'' @ [CR, LF]"
| "to_buffer not_implemented = ascii ''HTTP/1.0 501 Not Implemented'' @ [CR, LF]"
| "to_buffer bad_gateway = ascii ''HTTP/1.0 502 Bad Gateway'' @ [CR, LF]"
| "to_buffer service_unavailable = ascii ''HTTP/1.0 503 Service Unavailable'' @ [CR, LF]"

record reply =
  status :: status_type
  reply_headers :: "header list"
  content :: bytes

text \<open>A default-constructed \<open>reply\<close>; its status is not initialised.\<close>

definition reply_new :: "status_type \<Rightarrow> reply" where
  "reply_new st = \<lparr>status = st, reply_headers = [], content = []\<rparr>"

definition name_value_separator :: bytes where
  "name_value_separator = [58, SP]"

definition crlf :: bytes where
  "crlf = [CR, LF]"

definition to_buffers :: "reply \<Rightarrow> bytes list" where
  "to_buffers rep = [to_buffer (status rep)] @
     concat (map (\<lambda>h. [field_name h, name_value_separator, field_value h, crlf]) (reply_headers rep)) @
     [crlf, content rep]"

text \<open>\<open>stock_replies::to_string\<close>.\<close>

fun stock_content :: "status_type \<Rightarrow> bytes" where
  "stock_content ok = ascii ''''"
| "stock_content created = ascii ''<html><head><title>Created</title></head><body><h1>201 Created</h1></body></html>''"
| "stock_content accepted = ascii ''<html><head><title>Accepted</title></head><body><h1>202 Accepted</h1></body></html>''"
| "stock_content no_content = ascii ''<html><head><title>No Content</title></head><body><h1>204 Content</h1></body></html>''"
| "stock_content multiple_choices = ascii ''<html><head><title>Multiple Choices</title></head><body><h1>300 Multiple Choices</h1></body></html>''"
| "stock_content moved_permanently = ascii ''<html><head><title>Moved Permanently</title></head><body><h1>301 Moved Permanently</h1></body></html>''"
| "stock_content moved_temporarily = ascii ''<html><head><title>Moved Temporarily</title></head><body><h1>302 Moved Temporarily</h1></body></html>''"
| "stock_content not_modified = ascii ''<html><head><title>Not Modified</title></head><body><h1>304 Not Modified</h1></body></html>''"
| "stock_content bad_request = ascii ''<html><head><title>Bad Request</title></head><body><h1>400 Bad Request</h1></body></html>''"
| "stock_content unauthorized = ascii ''<html><head><title>Unauthorized</title></head><body><h1>401 Unauthorized</h1></body></html>''"
| "stock_content forbidden = ascii ''<html><head><title>Forbidden</title></head><body><h1>403 Forbidden</h1></body></html>''"
| "stock_content not_found = ascii ''<html><head><title>Not Found</title></head><body><h1>404 Not Found</h1></body></html>''"
| "stock_content internal_server_error = ascii ''<html><head><title>Internal Server Error</title></head><body><h1>500 Internal Server Error</h1></body></html>''"
| "stock_content not_implemented = ascii ''<html><head><title>Not Implemented</title></head><body><h1>501 Not Implemented</h1></body></html>''"
| "stock_content bad_gateway = ascii ''<html><head><title>Bad Gateway</title></head><body><h1>502 Bad Gateway</h1></body></html>''"
| "stock_content service_unavailable = ascii ''<html><head><title>Service Unavailable</title></head><body><h1>503 Service Unavailable</h1></body></html>''"

definition stock_reply :: "status_type \<Rightarrow> reply" where
  "stock_reply st =
     \<lparr>status = st,
      reply_headers =
        [\<lparr>field_name = ascii ''Content-Length'', field_value = to_string (length (stock_content st))\<rparr>,
         \<lparr>field_name = ascii ''Content-Type'', field_value = ascii ''text/html''\<rparr>],
      content = stock_content st\<rparr>"

section \<open>MIME types\<close>

definition mappings :: "(bytes \<times> bytes) list" where
  "mappings =
     [(ascii ''gif'', ascii ''image/gif''), (ascii ''htm'', ascii ''text/html''), (ascii ''html'', ascii ''text/html''),
      (ascii ''jpg'', ascii ''image/jpeg''), (ascii ''png'', ascii ''image/png'')]"

definition extension_to_type :: "bytes \<Rightarrow> bytes" where
  "extension_to_type extension = (case find (\<lambda>m. fst m = extension) mappings of
       Some m \<Rightarrow> snd m
     | None \<Rightarrow> ascii ''text/plain'')"

section \<open>Decoding a URL\<close>

definition hex_digit :: "byte \<Rightarrow> int option" where
  "hex_digit b = (let c = uint b in
     if 48 \<le> c \<and> c \<le> 57 then Some (c - 48)
     else if 97 \<le> c \<and> c \<le> 102 then Some (c - 87)
     else if 65 \<le> c \<and> c \<le> 70 then Some (c - 55)
     else None)"

definition isspace :: "byte \<Rightarrow> bool" where
  "isspace b \<longleftrightarrow> b = 32 \<or> (9 \<le> b \<and> b \<le> 13)"

text \<open>
  \<open>is >> std::hex >> value\<close> on a stream of the two characters \<open>a\<close> and \<open>b\<close>: white space is
  skipped, a sign is allowed, and reading stops at the first character that does not belong to the
  number.  \<open>0x\<close> is a prefix without digits.
\<close>

definition read_hex :: "byte \<Rightarrow> byte \<Rightarrow> int option" where
  "read_hex a b =
     (if isspace a then hex_digit b
      else if a = 43 then hex_digit b
      else if a = 45 then map_option uminus (hex_digit b)
      else case hex_digit a of
        None \<Rightarrow> None
      | Some x \<Rightarrow> (case hex_digit b of
          Some y \<Rightarrow> Some (x * 16 + y)
        | None \<Rightarrow> if a = 48 \<and> (b = 120 \<or> b = 88) then None else Some x))"

fun url_decode :: "bytes \<Rightarrow> bytes option" where
  "url_decode [] = Some []"
| "url_decode (c # cs) =
     (if c = 37
      then (case cs of
          a # b # rest \<Rightarrow> (case read_hex a b of
              Some v \<Rightarrow> map_option ((#) (word_of_int v)) (url_decode rest)
            | None \<Rightarrow> None)
        | _ \<Rightarrow> None)
      else if c = 43 then map_option ((#) SP) (url_decode cs)
      else map_option ((#) c) (url_decode cs))"

section \<open>Handling a request\<close>

text \<open>\<open>find("..") != npos\<close>.\<close>

fun has_dotdot :: "bytes \<Rightarrow> bool" where
  "has_dotdot [] \<longleftrightarrow> False"
| "has_dotdot [a] \<longleftrightarrow> False"
| "has_dotdot (a # b # s) \<longleftrightarrow> (a = 46 \<and> b = 46) \<or> has_dotdot (b # s)"

text \<open>\<open>find_last_of\<close> one character; \<open>None\<close> is \<open>npos\<close>.\<close>

definition find_last_of :: "byte \<Rightarrow> bytes \<Rightarrow> nat option" where
  "find_last_of c s = (case filter (\<lambda>i. s ! i = c) [0..<length s] of [] \<Rightarrow> None | is \<Rightarrow> Some (last is))"

definition extension_of :: "bytes \<Rightarrow> bytes" where
  "extension_of path = (case (find_last_of 46 path, find_last_of 47 path) of
       (Some dot, Some slash) \<Rightarrow> if dot > slash then drop (dot + 1) path else []
     | _ \<Rightarrow> [])"

text \<open>\<open>c_str\<close> ends at the first zero byte.\<close>

definition c_str :: "bytes \<Rightarrow> bytes" where
  "c_str s = takeWhile (\<lambda>b. b \<noteq> 0) s"

text \<open>The loop \<open>while (is.read(buf, sizeof(buf)).gcount() > 0)\<close>.\<close>

function read_file :: "bytes \<Rightarrow> bytes \<Rightarrow> bytes" where
  "read_file out data = (if data = [] then out else read_file (out @ take 512 data) (drop 512 data))"
  by pat_completeness auto
termination
  by (relation "measure (\<lambda>(_, data). length data)") auto

declare read_file.simps [simp del]

definition handle_request :: "(bytes \<Rightarrow> bytes option) \<Rightarrow> bytes \<Rightarrow> request \<Rightarrow> reply \<Rightarrow> reply" where
  "handle_request fs doc_root req rep = (case url_decode (uri req) of
       None \<Rightarrow> stock_reply bad_request
     | Some request_path \<Rightarrow>
         if request_path = [] \<or> hd request_path \<noteq> 47 \<or> has_dotdot request_path then stock_reply bad_request
         else let request_path = (if last request_path = 47 then request_path @ ascii ''index.html'' else request_path);
                  extension = extension_of request_path;
                  full_path = doc_root @ request_path
              in case fs (c_str full_path) of
                   None \<Rightarrow> stock_reply not_found
                 | Some data \<Rightarrow>
                     let body = read_file (content rep) data
                     in \<lparr>status = ok,
                         reply_headers =
                           [\<lparr>field_name = ascii ''Content-Length'', field_value = to_string (length body)\<rparr>,
                            \<lparr>field_name = ascii ''Content-Type'', field_value = extension_to_type extension\<rparr>],
                         content = body\<rparr>)"

section \<open>Lemmas\<close>

lemma read_file_append: "read_file out data = out @ data"
proof (induction out data rule: read_file.induct)
  case (1 out data)
  then show ?case by (subst read_file.simps) simp
qed

text \<open>A percent-encoder, for any byte.\<close>

definition hex_char :: "nat \<Rightarrow> byte" where
  "hex_char n = word_of_nat (if n < 10 then 48 + n else 55 + n)"

definition url_encode :: "bytes \<Rightarrow> bytes" where
  "url_encode s = concat (map (\<lambda>b. [37, hex_char (unat b div 16), hex_char (unat b mod 16)]) s)"

lemma hex_char_facts:
  assumes "n < 16"
  shows "hex_digit (hex_char n) = Some (int n)" and "\<not> isspace (hex_char n)" and "hex_char n \<noteq> 43" and "hex_char n \<noteq> 45"
proof -
  have "n \<in> {0, 1, 2, 3, 4, 5, 6, 7, 8, 9, 10, 11, 12, 13, 14, 15}" using assms by simp presburger
  then show "hex_digit (hex_char n) = Some (int n)" and "\<not> isspace (hex_char n)" and "hex_char n \<noteq> 43" and "hex_char n \<noteq> 45"
    by (auto simp: hex_digit_def hex_char_def isspace_def)
qed

lemma read_hex_chars:
  "x < 16 \<Longrightarrow> y < 16 \<Longrightarrow> read_hex (hex_char x) (hex_char y) = Some (int x * 16 + int y)"
  by (simp add: read_hex_def hex_char_facts)

lemma url_decode_encode: "url_decode (url_encode s) = Some s"
proof (induction s)
  case (Cons b s)
  have "unat b < 256" using unsigned_less [of b, where ?'a = nat] by simp
  then have "unat b div 16 < 16" "unat b mod 16 < 16" by auto
  moreover have "int (unat b div 16) * 16 + int (unat b mod 16) = int (unat b)" by presburger
  ultimately have "read_hex (hex_char (unat b div 16)) (hex_char (unat b mod 16)) = Some (int (unat b))"
    by (simp only: read_hex_chars)
  moreover have "word_of_int (int (unat b)) = b" by simp
  ultimately show ?case using Cons unfolding url_encode_def by (simp del: word_of_int_nat)
qed (simp add: url_encode_def)

text \<open>The part of the file system that a server for \<open>doc_root\<close> may read.\<close>

definition inside :: "bytes \<Rightarrow> bytes \<Rightarrow> bool" where
  "inside doc_root p \<longleftrightarrow> (\<exists>path. p = c_str (doc_root @ path) \<and> hd path = 47 \<and> path \<noteq> [] \<and> \<not> has_dotdot path)"

lemma has_dotdot_append:
  "\<not> has_dotdot s \<Longrightarrow> \<not> has_dotdot t \<Longrightarrow> s \<noteq> [] \<Longrightarrow> last s \<noteq> 46 \<Longrightarrow> \<not> has_dotdot (s @ t)"
proof (induction s rule: has_dotdot.induct)
  case (2 a)
  then show ?case by (cases t) auto
next
  case (3 a b s)
  then show ?case by (cases "s @ t") auto
qed simp

lemma handle_request_inside:
  assumes "\<And>p. inside doc_root p \<Longrightarrow> fs p = fs' p"
  shows "handle_request fs doc_root req rep = handle_request fs' doc_root req rep"
proof (cases "url_decode (uri req)")
  case (Some path)
  show ?thesis
  proof (cases "path = [] \<or> hd path \<noteq> 47 \<or> has_dotdot path")
    case False
    let ?path = "if last path = 47 then path @ ascii ''index.html'' else path"
    have "\<not> has_dotdot ?path"
      using False has_dotdot_append [of path "ascii ''index.html''"] by (auto simp: ascii_def)
    then have "inside doc_root (c_str (doc_root @ ?path))" using False by (auto simp: inside_def hd_append)
    then show ?thesis using assms Some by (simp add: handle_request_def Let_def)
  qed (use Some in \<open>simp add: handle_request_def\<close>)
qed (simp add: handle_request_def)

definition well_framed :: "reply \<Rightarrow> bool" where
  "well_framed rep \<longleftrightarrow> (\<exists>t. reply_headers rep =
     [\<lparr>field_name = ascii ''Content-Length'', field_value = to_string (length (content rep))\<rparr>,
      \<lparr>field_name = ascii ''Content-Type'', field_value = t\<rparr>])"

lemma stock_reply_framed: "well_framed (stock_reply st)"
  by (simp add: well_framed_def stock_reply_def)

lemma handle_request_framed: "well_framed (handle_request fs doc_root req rep)"
  by (simp add: handle_request_def stock_reply_def Let_def well_framed_def split: option.split)

section \<open>Properties\<close>

text \<open>C13: the reply to a request depends only on files below \<open>doc_root\<close>: two file systems that agree on
  the paths that extend \<open>doc_root\<close> by a slash and no \<open>..\<close> give the same reply, whatever escapes the URL uses.\<close>

theorem handle_request_confined:
  assumes "\<And>p. inside doc_root p \<Longrightarrow> fs p = fs' p"
  shows "handle_request fs doc_root req rep = handle_request fs' doc_root req rep"
  by (rule handle_request_inside [OF assms])

theorem handle_request_confined_witness:
  "handle_request (\<lambda>p. if p = ascii ''/etc/passwd'' then Some [1] else None) (ascii ''/www'')
      \<lparr>request_method = ascii ''GET'', uri = ascii ''/%2e./etc/passwd'', http_version_major = 1, http_version_minor = 0, headers = []\<rparr> (reply_new ok) =
   handle_request (\<lambda>p. None) (ascii ''/www'')
      \<lparr>request_method = ascii ''GET'', uri = ascii ''/%2e./etc/passwd'', http_version_major = 1, http_version_minor = 0, headers = []\<rparr> (reply_new ok)"
proof (rule handle_request_confined)
  fix p assume "inside (ascii ''/www'') p"
  then obtain path where "p = c_str (ascii ''/www'' @ path)" by (auto simp: inside_def)
  then have "p \<noteq> ascii ''/etc/passwd''" by (simp add: c_str_def ascii_def)
  then show "(if p = ascii ''/etc/passwd'' then Some [1] else None) = (None :: bytes option)" by simp
qed

text \<open>every reply the server produces is framed by its headers: what is written to the socket is the
  status line, \<open>Content-Length\<close> with the number of bytes of the content in decimal, \<open>Content-Type\<close>, an
  empty line and exactly the content.\<close>

theorem reply_framing:
  "\<exists>t. concat (to_buffers (handle_request fs doc_root req rep)) =
     to_buffer (status (handle_request fs doc_root req rep)) @
     ascii ''Content-Length: '' @ to_string (length (content (handle_request fs doc_root req rep))) @ crlf @
     ascii ''Content-Type: '' @ t @ crlf @ crlf @ content (handle_request fs doc_root req rep)"
  using handle_request_framed [of fs doc_root req rep]
  by (auto simp: well_framed_def to_buffers_def name_value_separator_def ascii_def)

text \<open>percent-encoding every byte of a path is undone by \<open>url_decode\<close>.\<close>

theorem url_roundtrip: "url_decode (url_encode s) = Some s"
  by (rule url_decode_encode)

text \<open>\<open>url_decode\<close> accepts escapes that are not two hexadecimal digits: a space or a sign in front of
  the digit is skipped or applied, and a character behind a single digit is dropped.\<close>

theorem url_decode_lax:
  "url_decode (ascii ''% 1'') = Some [1] \<and> url_decode (ascii ''%-1'') = Some [255] \<and> url_decode (ascii ''%1g'') = Some [1]"
  by (simp add: ascii_def read_hex_def hex_digit_def isspace_def)

end
