(* ===== verification/HttpServer.thy ===== *)
theory HttpServer
  imports HttpReply "HOL-Library.Sublist"
begin

text \<open>
  Connections, the connection manager and the server loop of the HTTP server (connection.cpp,
  connection_manager.cpp, http_server.cpp in src/MiniProtobufServer/HttpServer).  The completion
  handlers are functions; \<open>http_step\<close> lets asio complete any outstanding operation next, with success
  or an error, and lets a signal arrive at any time.
\<close>

section \<open>Connections\<close>

text \<open>
  \<open>pending_op\<close> is the operation a connection has started and not yet completed.  \<open>op_live\<close> says that
  its socket was open when it was started: only then can it succeed.  \<open>sent\<close> is what the socket has
  transmitted, and \<open>shut_down\<close> that it was shut down in an orderly way.
\<close>

datatype pending = Idle | Reading | Writing bytes

datatype error_code = no_error | operation_aborted | other_error

record connection =
  socket_open :: bool
  shut_down :: bool
  conn_request :: request
  parser_state :: state
  conn_reply :: reply
  pending_op :: pending
  op_live :: bool
  sent :: bytes

definition buffer_size :: nat where
  "buffer_size = 8192"

text \<open>
  A new connection: the version numbers of its request and the status of its reply hold what was in
  memory.
\<close>

definition connection_new :: "int32 \<Rightarrow> int32 \<Rightarrow> status_type \<Rightarrow> connection" where
  "connection_new major minor st =
     \<lparr>socket_open = True, shut_down = False, conn_request = request_new major minor, parser_state = method_start,
      conn_reply = reply_new st, pending_op = Idle, op_live = False, sent = []\<rparr>"

definition do_read :: "connection \<Rightarrow> connection" where
  "do_read c = c\<lparr>pending_op := Reading, op_live := socket_open c\<rparr>"

definition do_write :: "connection \<Rightarrow> connection" where
  "do_write c = c\<lparr>pending_op := Writing (concat (to_buffers (conn_reply c))), op_live := socket_open c\<rparr>"

definition connection_start :: "connection \<Rightarrow> connection" where
  "connection_start c = do_read c"

definition connection_stop :: "connection \<Rightarrow> connection" where
  "connection_stop c = c\<lparr>socket_open := False\<rparr>"

text \<open>
  What the handler of \<open>do_read\<close> does with data that arrived; \<open>None\<close> is undefined behaviour of the
  parser.
\<close>

definition on_data :: "(bytes \<Rightarrow> bytes option) \<Rightarrow> bytes \<Rightarrow> bytes \<Rightarrow> connection \<Rightarrow> connection option" where
  "on_data fs doc_root data c = (case parse (parser_state c) (conn_request c) data of
       None \<Rightarrow> None
     | Some (result, rest, st, req) \<Rightarrow>
         let c = c\<lparr>parser_state := st, conn_request := req\<rparr> in
         Some (if result = good then do_write (c\<lparr>conn_reply := handle_request fs doc_root req (conn_reply c)\<rparr>)
               else if result = bad then do_write (c\<lparr>conn_reply := stock_reply bad_request\<rparr>)
               else do_read c))"

section \<open>The manager and the server\<close>

text \<open>
  Connection objects are named by numbers; \<open>connections\<close> is the set of the manager.  \<open>accepting\<close> and
  \<open>awaiting_stop\<close> say that the handler of \<open>do_accept\<close> and of \<open>do_await_stop\<close> is outstanding.
\<close>

record server =
  acceptor_open :: bool
  accepting :: bool
  awaiting_stop :: bool
  connections :: "nat set"
  objects :: "nat \<rightharpoonup> connection"

definition set_object :: "nat \<Rightarrow> connection \<Rightarrow> server \<Rightarrow> server" where
  "set_object i c s = s\<lparr>objects := (objects s)(i \<mapsto> c)\<rparr>"

definition manager_start :: "nat \<Rightarrow> connection \<Rightarrow> server \<Rightarrow> server" where
  "manager_start i c s = set_object i (connection_start c) (s\<lparr>connections := insert i (connections s)\<rparr>)"

definition manager_stop :: "nat \<Rightarrow> connection \<Rightarrow> server \<Rightarrow> server" where
  "manager_stop i c s = set_object i (connection_stop c) (s\<lparr>connections := connections s - {i}\<rparr>)"

definition manager_stop_all :: "server \<Rightarrow> server" where
  "manager_stop_all s =
     s\<lparr>objects := (\<lambda>i. if i \<in> connections s then map_option connection_stop (objects s i) else objects s i),
       connections := {}\<rparr>"

definition do_accept :: "server \<Rightarrow> server" where
  "do_accept s = s\<lparr>accepting := True\<rparr>"

definition do_await_stop :: "server \<Rightarrow> server" where
  "do_await_stop s = s\<lparr>awaiting_stop := True\<rparr>"

text \<open>The constructor, up to the options of the acceptor.\<close>

definition server_new :: server where
  "server_new = do_accept ((do_await_stop
     \<lparr>acceptor_open = False, accepting = False, awaiting_stop = False, connections = {}, objects = Map.empty\<rparr>)
       \<lparr>acceptor_open := True\<rparr>)"

text \<open>The handler of \<open>do_accept\<close>; \<open>c\<close> is the connection made for the accepted socket, under the name \<open>i\<close>.\<close>

definition on_accept :: "error_code \<Rightarrow> nat \<Rightarrow> connection \<Rightarrow> server \<Rightarrow> server" where
  "on_accept ec i c s =
     (let s = s\<lparr>accepting := False\<rparr> in
      if \<not> acceptor_open s then s
      else do_accept (if ec = no_error then manager_start i c s else s))"

text \<open>The handler of \<open>do_await_stop\<close>.\<close>

definition on_signal :: "server \<Rightarrow> server" where
  "on_signal s = manager_stop_all (s\<lparr>awaiting_stop := False, acceptor_open := False\<rparr>)"

text \<open>The handler of \<open>do_read\<close> of the connection \<open>c\<close> with the name \<open>i\<close>; the read is complete.\<close>

definition on_read ::
    "(bytes \<Rightarrow> bytes option) \<Rightarrow> bytes \<Rightarrow> error_code \<Rightarrow> bytes \<Rightarrow> nat \<Rightarrow> connection \<Rightarrow> server \<Rightarrow> server option" where
  "on_read fs doc_root ec data i c s =
     (let c = c\<lparr>pending_op := Idle\<rparr> in
      if ec = no_error then map_option (\<lambda>c. set_object i c s) (on_data fs doc_root data c)
      else Some (if ec \<noteq> operation_aborted then manager_stop i c s else set_object i c s))"

text \<open>The handler of \<open>do_write\<close>; the socket has transmitted \<open>bs\<close>.\<close>

definition on_write :: "error_code \<Rightarrow> bytes \<Rightarrow> nat \<Rightarrow> connection \<Rightarrow> server \<Rightarrow> server" where
  "on_write ec bs i c s =
     (let c = c\<lparr>pending_op := Idle, sent := sent c @ bs\<rparr>;
          c = (if ec = no_error then c\<lparr>shut_down := True\<rparr> else c)
      in if ec \<noteq> operation_aborted then manager_stop i c s else set_object i c s)"

section \<open>Any order of completions\<close>

text \<open>
  asio completes an operation with \<open>operation_aborted\<close> only when its socket was closed, a read with
  success only with at least one byte, and a write with success only when everything is transmitted.
\<close>

inductive http_step :: "(bytes \<Rightarrow> bytes option) \<Rightarrow> bytes \<Rightarrow> server \<Rightarrow> server option \<Rightarrow> bool"
  for fs doc_root where
  accept: "accepting s \<Longrightarrow> objects s i = None \<Longrightarrow>
     http_step fs doc_root s (Some (on_accept ec i (connection_new major minor st) s))"
| signal: "awaiting_stop s \<Longrightarrow> http_step fs doc_root s (Some (on_signal s))"
| read_done: "objects s i = Some c \<Longrightarrow> pending_op c = Reading \<Longrightarrow> op_live c \<Longrightarrow> 0 < length data \<Longrightarrow> length data \<le> buffer_size \<Longrightarrow>
     http_step fs doc_root s (on_read fs doc_root no_error data i c s)"
| read_error: "objects s i = Some c \<Longrightarrow> pending_op c = Reading \<Longrightarrow> ec \<noteq> no_error \<Longrightarrow>
     (ec = operation_aborted \<longrightarrow> \<not> socket_open c) \<Longrightarrow>
     http_step fs doc_root s (on_read fs doc_root ec [] i c s)"
| write_done: "objects s i = Some c \<Longrightarrow> pending_op c = Writing bs \<Longrightarrow> op_live c \<Longrightarrow>
     http_step fs doc_root s (Some (on_write no_error bs i c s))"
| write_error: "objects s i = Some c \<Longrightarrow> pending_op c = Writing bs \<Longrightarrow> ec \<noteq> no_error \<Longrightarrow>
     (ec = operation_aborted \<longrightarrow> \<not> socket_open c) \<Longrightarrow>
     http_step fs doc_root s (Some (on_write ec (take k bs) i c s))"

inductive http_reachable :: "(bytes \<Rightarrow> bytes option) \<Rightarrow> bytes \<Rightarrow> server \<Rightarrow> bool" for fs doc_root where
  start: "http_reachable fs doc_root server_new"
| step: "http_reachable fs doc_root s \<Longrightarrow> http_step fs doc_root s (Some s') \<Longrightarrow> http_reachable fs doc_root s'"

inductive_cases http_stepE: "http_step fs doc_root s x"

section \<open>Invariant\<close>

text \<open>
  The parser of a connection is in order while it reads.  A connection sends nothing before its reply
  is ready, and then a prefix of that one reply; it is shut down only when all of it is sent.
\<close>

definition reply_bytes :: "connection \<Rightarrow> bytes" where
  "reply_bytes c = concat (to_buffers (conn_reply c))"

definition connection_inv :: "connection \<Rightarrow> bool" where
  "connection_inv c \<longleftrightarrow> (case pending_op c of
       Idle \<Rightarrow> sent c = [] \<and> \<not> shut_down c \<or>
         well_framed (conn_reply c) \<and> prefix (sent c) (reply_bytes c) \<and> (shut_down c \<longrightarrow> sent c = reply_bytes c)
     | Reading \<Rightarrow> parser_inv (parser_state c) (conn_request c) \<and> content (conn_reply c) = [] \<and> sent c = [] \<and> \<not> shut_down c
     | Writing bs \<Rightarrow> bs = reply_bytes c \<and> well_framed (conn_reply c) \<and> sent c = [] \<and> \<not> shut_down c)"

text \<open>The sockets that are open are those the manager holds, and each of them has an operation outstanding.\<close>

definition server_inv :: "server \<Rightarrow> bool" where
  "server_inv s \<longleftrightarrow>
     (\<forall>i c. objects s i = Some c \<longrightarrow> connection_inv c \<and> (socket_open c \<longleftrightarrow> i \<in> connections s) \<and>
        (socket_open c \<longrightarrow> pending_op c \<noteq> Idle)) \<and>
     connections s \<subseteq> dom (objects s) \<and> finite (dom (objects s)) \<and>
     (if acceptor_open s then accepting s \<and> awaiting_stop s else connections s = {} \<and> \<not> awaiting_stop s)"


lemma connection_inv_new: "connection_inv (connection_start (connection_new major minor st))"
  by (simp add: connection_inv_def connection_start_def do_read_def connection_new_def parser_inv_new reply_new_def)

lemma connection_inv_stop [simp]: "connection_inv (connection_stop c) = connection_inv c"
  by (simp add: connection_inv_def connection_stop_def reply_bytes_def split: pending.split)

lemma connection_inv_on_data:
  assumes "connection_inv c" and "pending_op c = Reading"
  obtains c' where "on_data fs doc_root data (c\<lparr>pending_op := Idle\<rparr>) = Some c'" "connection_inv c'" "pending_op c' \<noteq> Idle"
    "socket_open c' = socket_open c" "op_live c' = socket_open c"
proof -
  have c: "parser_inv (parser_state c) (conn_request c)" "content (conn_reply c) = []" "sent c = []" "\<not> shut_down c"
    using assms by (simp_all add: connection_inv_def)
  obtain res rest st req where p: "parse (parser_state c) (conn_request c) data = Some (res, rest, st, req)"
      "res \<noteq> bad \<longrightarrow> parser_inv st req"
    using parse_inv [OF c(1)] by blast
  show thesis
    by (rule that [of "the (on_data fs doc_root data (c\<lparr>pending_op := Idle\<rparr>))"]; use c p in \<open>cases res\<close>)
      (simp_all add: on_data_def do_write_def do_read_def connection_inv_def reply_bytes_def
        handle_request_framed stock_reply_framed)
qed

lemma connection_inv_idle: "connection_inv c \<Longrightarrow> pending_op c = Reading \<Longrightarrow> connection_inv (c\<lparr>pending_op := Idle\<rparr>)"
  by (simp add: connection_inv_def)

lemma connection_inv_written:
  "connection_inv c \<Longrightarrow> pending_op c = Writing bs \<Longrightarrow> connection_inv (c\<lparr>pending_op := Idle, sent := sent c @ take k bs\<rparr>)"
  "connection_inv c \<Longrightarrow> pending_op c = Writing bs \<Longrightarrow>
     connection_inv (c\<lparr>pending_op := Idle, sent := sent c @ bs, shut_down := True\<rparr>)"
  by (simp_all add: connection_inv_def reply_bytes_def take_is_prefix)

lemma server_inv_object:
  assumes "server_inv s" and "objects s i = Some c"
  shows "connection_inv c" and "socket_open c \<longleftrightarrow> i \<in> connections s"
  using assms by (simp_all add: server_inv_def)

lemma server_inv_set:
  assumes "server_inv s" and "objects s i = Some c" and "connection_inv c'" and "socket_open c' = socket_open c"
    and "socket_open c \<longrightarrow> pending_op c' \<noteq> Idle"
  shows "server_inv (set_object i c' s)"
  using assms by (auto simp: server_inv_def set_object_def insert_absorb)

lemma server_inv_stop:
  assumes "server_inv s" and "objects s i = Some c" and "connection_inv c'"
  shows "server_inv (manager_stop i c' s)"
  using assms by (auto simp: server_inv_def set_object_def manager_stop_def connection_stop_def [of c'] insert_absorb
      connection_inv_stop [unfolded connection_stop_def])

lemma server_inv_signal: "server_inv s \<Longrightarrow> server_inv (on_signal s)"
  by (auto simp: server_inv_def on_signal_def manager_stop_all_def connection_stop_def dom_def
      connection_inv_stop [unfolded connection_stop_def] split: if_splits)

lemma server_inv_accept:
  assumes "server_inv s" and "objects s i = None"
  shows "server_inv (on_accept ec i (connection_new major minor st) s)"
  using assms connection_inv_new [of major minor st]
  by (auto simp: server_inv_def on_accept_def do_accept_def manager_start_def set_object_def
      connection_start_def do_read_def connection_new_def Let_def)

lemma server_inv_read:
  assumes "server_inv s" and "objects s i = Some c" and "pending_op c = Reading"
    and "ec = operation_aborted \<longrightarrow> \<not> socket_open c"
  shows "\<exists>s'. on_read fs doc_root ec data i c s = Some s' \<and> server_inv s'"
proof (cases "ec = no_error")
  case True
  obtain c' where "on_data fs doc_root data (c\<lparr>pending_op := Idle\<rparr>) = Some c'" "connection_inv c'" "pending_op c' \<noteq> Idle"
    "socket_open c' = socket_open c"
    by (rule connection_inv_on_data [OF server_inv_object(1) [OF assms(1,2)] assms(3)])
  then show ?thesis using True server_inv_set [OF assms(1,2)] by (simp add: on_read_def)
next
  case False
  then show ?thesis
    using assms server_inv_stop [OF assms(1,2)] server_inv_set [OF assms(1,2)]
      connection_inv_idle [OF server_inv_object(1) [OF assms(1,2)] assms(3)]
    by (simp add: on_read_def Let_def)
qed

lemma server_inv_write:
  assumes "server_inv s" and "objects s i = Some c" and "pending_op c = Writing bs"
    and "ec = operation_aborted \<longrightarrow> \<not> socket_open c" and "ec = no_error \<longrightarrow> length bs \<le> k"
  shows "server_inv (on_write ec (take k bs) i c s)"
  using assms server_inv_stop [OF assms(1,2)] server_inv_set [OF assms(1,2)]
    connection_inv_written [OF server_inv_object(1) [OF assms(1,2)] assms(3)]
  by (simp add: on_write_def Let_def)

lemma server_inv_step:
  assumes "server_inv s" and "http_step fs doc_root s x"
  shows "\<exists>s'. x = Some s' \<and> server_inv s'"
  using assms(2)
proof (cases rule: http_step.cases)
  case (write_done i c bs)
  then show ?thesis using server_inv_write [OF assms(1), of i c bs no_error "length bs"] by simp
qed (use assms(1) in \<open>simp_all add: server_inv_accept server_inv_signal server_inv_read server_inv_write\<close>)

lemma server_inv_new: "server_inv server_new"
  by (simp add: server_inv_def server_new_def do_accept_def do_await_stop_def)

lemma server_inv_reachable: "http_reachable fs doc_root s \<Longrightarrow> server_inv s"
  by (induction rule: http_reachable.induct) (use server_inv_new server_inv_step in blast)+


section \<open>Stopping\<close>

text \<open>
  How often handlers can still run when no socket is open: an operation that may succeed can start
  one more, which then fails.
\<close>

definition op_weight :: "connection \<Rightarrow> nat" where
  "op_weight c = (if pending_op c = Idle then 0 else if op_live c then 2 else 1)"

definition outstanding :: "server \<Rightarrow> nat" where
  "outstanding s = of_bool (accepting s) + (\<Sum>i\<in>dom (objects s). op_weight (the (objects s i)))"

lemma outstanding_set:
  assumes "finite (dom (objects s))" and "objects s i = Some c" and "op_weight c' < op_weight c"
  shows "outstanding (set_object i c' s) < outstanding s"
proof -
  have i: "i \<in> dom (objects s)" using assms(2) by blast
  have "(\<Sum>j\<in>dom (objects s). op_weight (the (((objects s)(i \<mapsto> c')) j))) < (\<Sum>j\<in>dom (objects s). op_weight (the (objects s j)))"
    by (rule sum_strict_mono_ex1 [OF assms(1)]) (use assms(2,3) i in auto)
  then show ?thesis using i by (simp add: outstanding_def set_object_def insert_absorb)
qed

lemma outstanding_stop: "outstanding (manager_stop i c s) = outstanding (set_object i c s)"
  by (auto simp: manager_stop_def set_object_def outstanding_def connection_stop_def op_weight_def intro!: sum.cong)

lemma stopped_step:
  assumes "server_inv s" and "\<not> acceptor_open s" and "http_step fs doc_root s (Some s')"
  shows "outstanding s' < outstanding s \<and> \<not> acceptor_open s'"
proof -
  have fin: "finite (dom (objects s))" and aw: "\<not> awaiting_stop s" using assms by (simp_all add: server_inv_def)
  have closed: "\<not> socket_open c" if "objects s i = Some c" for i c
    using assms(1,2) that by (auto simp: server_inv_def)
  note out = outstanding_set [OF fin] outstanding_stop
  from assms(3) show ?thesis
  proof (cases rule: http_step.cases)
    case (accept i ec major minor st)
    then show ?thesis using assms(2) by (simp add: on_accept_def outstanding_def)
  next
    case (read_done i c data)
    obtain c' where "on_data fs doc_root data (c\<lparr>pending_op := Idle\<rparr>) = Some c'" "op_live c' = socket_open c"
      by (rule connection_inv_on_data [OF server_inv_object(1) [OF assms(1) read_done(2)] read_done(3)])
    then show ?thesis using read_done closed [OF read_done(2)] out(1) [OF read_done(2), of c'] assms(2)
      by (simp add: on_read_def set_object_def op_weight_def split: if_splits)
  next
    case (read_error i c ec)
    then show ?thesis using out(1) [OF read_error(2), of "c\<lparr>pending_op := Idle\<rparr>"] assms(2) out(2)
      by (auto simp: on_read_def Let_def op_weight_def) (simp_all add: manager_stop_def set_object_def)
  qed (use aw assms(2) out in \<open>auto simp: on_write_def Let_def op_weight_def manager_stop_def set_object_def\<close>)
qed


lemma outstanding_step:
  assumes "server_inv s" and "\<not> acceptor_open s"
  shows "(\<exists>x. http_step fs doc_root s x) \<longleftrightarrow> 0 < outstanding s"
proof
  assume "\<exists>x. http_step fs doc_root s x"
  then obtain x where x: "http_step fs doc_root s x" by blast
  then obtain s' where "x = Some s'" using server_inv_step [OF assms(1)] by blast
  then show "0 < outstanding s" using stopped_step [OF assms] x by fastforce
next
  assume pos: "0 < outstanding s"
  have fin: "finite (dom (objects s))" using assms by (simp add: server_inv_def)
  show "\<exists>x. http_step fs doc_root s x"
  proof (cases "accepting s")
    case True
    obtain i where "i \<notin> dom (objects s)" using ex_new_if_finite [OF infinite_UNIV_nat fin] by blast
    then show ?thesis using accept [OF True] by blast
  next
    case False
    have "\<exists>i\<in>dom (objects s). op_weight (the (objects s i)) \<noteq> 0"
      by (rule ccontr) (use pos False in \<open>simp add: outstanding_def\<close>)
    then obtain i where i: "i \<in> dom (objects s)" "op_weight (the (objects s i)) \<noteq> 0" by blast
    then obtain c where c: "objects s i = Some c" "pending_op c \<noteq> Idle" by (auto simp: op_weight_def split: if_splits)
    then show ?thesis
      by (cases "pending_op c") (use read_error [of s i c other_error] write_error [of s i c _ other_error] in blast)+
  qed
qed

lemma stopped_run:
  assumes "((\<lambda>s s'. http_step fs doc_root s (Some s')) ^^ n) s s'" and "server_inv s" and "\<not> acceptor_open s"
  shows "n + outstanding s' \<le> outstanding s \<and> server_inv s' \<and> \<not> acceptor_open s'"
  using assms(1)
proof (induction n arbitrary: s')
  case 0
  then show ?case using assms by simp
next
  case (Suc n)
  then obtain t where t: "((\<lambda>s s'. http_step fs doc_root s (Some s')) ^^ n) s t" "http_step fs doc_root t (Some s')" by auto
  note IH = Suc.IH [OF t(1)]
  then have "outstanding s' < outstanding t \<and> \<not> acceptor_open s'" using stopped_step t(2) by blast
  moreover have "server_inv s'" using IH t(2) server_inv_step by blast
  ultimately show ?case using IH by linarith
qed

lemma outstanding_signal:
  assumes "server_inv s"
  shows "outstanding (on_signal s) \<le> 1 + 2 * card (dom (objects s))"
proof -
  have d: "dom (objects (on_signal s)) = dom (objects s)"
    by (auto simp: on_signal_def manager_stop_all_def split: if_splits)
  have "(\<Sum>i\<in>dom (objects s). op_weight (the (objects (on_signal s) i))) \<le> card (dom (objects s)) * 2"
    using sum_bounded_above [of "dom (objects s)" "\<lambda>i. op_weight (the (objects (on_signal s) i))" 2]
    by (simp add: op_weight_def)
  then show ?thesis by (simp add: outstanding_def d)
qed

section \<open>Requests that arrive in pieces\<close>

text \<open>The reads of one connection, one after the other, for as long as it reads.\<close>

fun receive_chunks :: "(bytes \<Rightarrow> bytes option) \<Rightarrow> bytes \<Rightarrow> bytes list \<Rightarrow> connection \<Rightarrow> connection option" where
  "receive_chunks fs doc_root [] c = Some c"
| "receive_chunks fs doc_root (d # ds) c =
     (if pending_op c = Reading
      then case on_data fs doc_root d (c\<lparr>pending_op := Idle\<rparr>) of None \<Rightarrow> None | Some c' \<Rightarrow> receive_chunks fs doc_root ds c'
      else Some c)"

definition answer :: "(bytes \<Rightarrow> bytes option) \<Rightarrow> bytes \<Rightarrow> result_type \<Rightarrow> request \<Rightarrow> reply \<Rightarrow> reply" where
  "answer fs doc_root res req rep = (if res = good then handle_request fs doc_root req rep else stock_reply bad_request)"

lemma receive_chunks_answer:
  assumes "parse (parser_state c) (conn_request c) (concat ds) = Some (res, rest, st, req)" and "res \<noteq> indeterminate"
    and "pending_op c = Reading"
  shows "\<exists>c'. receive_chunks fs doc_root ds c = Some c' \<and> conn_reply c' = answer fs doc_root res req (conn_reply c)
     \<and> pending_op c' = Writing (reply_bytes c')"
  using assms
proof (induction ds arbitrary: c)
  case (Cons d ds)
  obtain r x st' req' where p: "parse (parser_state c) (conn_request c) d = Some (r, x, st', req')"
    using Cons.prems(1) by (cases "parse (parser_state c) (conn_request c) d") (auto simp: parse_cut)
  show ?case
  proof (cases "r = indeterminate")
    case True
    then have "parse st' req' (concat ds) = Some (res, rest, st, req)"
      using Cons.prems(1) p by (simp add: parse_cut)
    then show ?thesis
      using Cons.IH [of "c\<lparr>parser_state := st', conn_request := req', pending_op := Reading, op_live := socket_open c\<rparr>"]
        Cons.prems p True by (simp add: on_data_def do_read_def)
  next
    case False
    then have "r = res" "req' = req" using Cons.prems(1) p by (simp_all add: parse_cut)
    with False show ?thesis using Cons.prems(3) p
      by (cases r; cases ds) (simp_all add: on_data_def do_write_def reply_bytes_def answer_def)
  qed
qed simp

section \<open>Properties\<close>



text \<open>C15: after a signal the server comes to an end: handlers run at most twice per connection and once for
  the acceptor, and a state in which no handler can run has no operation outstanding.\<close>

theorem http_server_stops:
  assumes "http_reachable fs doc_root s"
    and "((\<lambda>s s'. http_step fs doc_root s (Some s')) ^^ n) (on_signal s) s'"
  shows "n \<le> 1 + 2 * card (dom (objects s)) \<and> ((\<exists>x. http_step fs doc_root s' x) \<longleftrightarrow> 0 < outstanding s') \<and> connections s' = {}"
proof -
  have inv: "server_inv s" by (rule server_inv_reachable [OF assms(1)])
  have run: "n + outstanding s' \<le> outstanding (on_signal s)" "server_inv s'" "\<not> acceptor_open s'"
    using stopped_run [OF assms(2) server_inv_signal [OF inv]] by (simp_all add: on_signal_def manager_stop_all_def)
  then show ?thesis using outstanding_signal [OF inv] outstanding_step [OF run(2,3)]
    by (simp add: server_inv_def)
qed

theorem http_server_stops_witness:
  "(\<exists>x. http_step Map.empty [] (on_signal server_new) x) \<and> connections (on_signal server_new) = {}"
  using http_server_stops [OF http_reachable.start, of 0 Map.empty "[]" "on_signal server_new"]
  by (simp add: outstanding_def on_signal_def manager_stop_all_def server_new_def do_accept_def do_await_stop_def)

text \<open>C16: a well-formed request is answered by \<open>handle_request\<close> however the network cuts it into reads, and
  whatever follows it.\<close>

theorem request_answered:
  assumes "request_ok req" and "concat ds = render req @ rest"
  shows "\<exists>c. receive_chunks fs doc_root ds (connection_start (connection_new major minor st)) = Some c
     \<and> conn_reply c = handle_request fs doc_root req (reply_new st)
     \<and> pending_op c = Writing (concat (to_buffers (conn_reply c)))"
  using receive_chunks_answer [of "connection_start (connection_new major minor st)" ds good rest expecting_newline_3 req]
    parse_render [OF assms(1)] assms(2)
  by (simp add: connection_start_def do_read_def connection_new_def answer_def reply_bytes_def)

theorem request_answered_witness:
  "\<exists>c. receive_chunks Map.empty [] [ascii ''GE'', ascii ''T / HTTP/1'', ascii ''.0'' @ [CR, LF, CR], [LF, 9]]
       (connection_start (connection_new 3 4 ok)) = Some c \<and> conn_reply c = stock_reply not_found"
proof -
  let ?req = "\<lparr>request_method = ascii ''GET'', uri = ascii ''/'', http_version_major = 1, http_version_minor = 0, headers = []\<rparr>"
  have "request_ok ?req"
    by (simp add: request_ok_def token_def text_bytes_def not_token_def is_char_def is_ctl_def is_tspecial_def ascii_def)
  moreover have "concat [ascii ''GE'', ascii ''T / HTTP/1'', ascii ''.0'' @ [CR, LF, CR], [LF, 9]] = render ?req @ [9]"
    by (simp add: render_def to_string.simps ascii_def)
  moreover have "handle_request Map.empty [] ?req (reply_new ok) = stock_reply not_found"
    by (simp add: handle_request_def ascii_def Let_def)
  ultimately show ?thesis
    using request_answered [of ?req _ "[9]" Map.empty "[]" 3 4 ok] by metis
qed

end
