(* ===== verification/AndroidClient.thy ===== *)
theory AndroidClient
  imports RouteSpec
begin

text \<open>
  The Android client (src/AndroidProj/app/src/main/java/com/dd/androidprotobuf): \<open>MessageRoute.java\<close>, its
  dispatcher and processors, and the receiving loop of \<open>TcpClient.java\<close>.  The classes that the build
  generates from cmd.proto are the parameter \<open>L\<close>.  Strings are their UTF-8 bytes.
\<close>

section \<open>Integers as bytes\<close>

text \<open>A Java \<open>byte\<close> is signed: \<open>b & 0xFF\<close> extends the sign and masks it away.\<close>

definition byte_at :: "bytes \<Rightarrow> nat \<Rightarrow> int32" where
  "byte_at src i = (scast (src ! i) :: int32) AND 0xFF"

definition intToBytesLittle :: "int32 \<Rightarrow> bytes" where
  "intToBytesLittle value =
     (let src = [0, 0, 0, 0];
          src = src[3 := ucast (signed_drop_bit 24 value AND 0xFF)];
          src = src[2 := ucast (signed_drop_bit 16 value AND 0xFF)];
          src = src[1 := ucast (signed_drop_bit 8 value AND 0xFF)]
      in src[0 := ucast (value AND 0xFF)])"

definition intToBytesBig :: "int32 \<Rightarrow> bytes" where
  "intToBytesBig value =
     (let src = [0, 0, 0, 0];
          src = src[0 := ucast (signed_drop_bit 24 value AND 0xFF)];
          src = src[1 := ucast (signed_drop_bit 16 value AND 0xFF)];
          src = src[2 := ucast (signed_drop_bit 8 value AND 0xFF)]
      in src[3 := ucast (value AND 0xFF)])"

text \<open>\<open>None\<close> is an \<open>ArrayIndexOutOfBoundsException\<close>.\<close>

definition bytesToIntLittle :: "bytes \<Rightarrow> nat \<Rightarrow> int32 option" where
  "bytesToIntLittle src offset = (if length src < offset + 4 then None
     else Some (byte_at src offset OR push_bit 8 (byte_at src (offset + 1)) OR
       push_bit 16 (byte_at src (offset + 2)) OR push_bit 24 (byte_at src (offset + 3))))"

definition bytesToIntBig :: "bytes \<Rightarrow> nat \<Rightarrow> int32 option" where
  "bytesToIntBig src offset = (if length src < offset + 4 then None
     else Some (push_bit 24 (byte_at src offset) OR push_bit 16 (byte_at src (offset + 1)) OR
       push_bit 8 (byte_at src (offset + 2)) OR byte_at src (offset + 3)))"

section \<open>Names of classes\<close>

text \<open>
  \<open>String.replaceAll\<close> for a regular expression that is a sequence of characters (\<open>Some\<close>) and dots (\<open>None\<close>,
  any character but a line terminator); the expression has the first element \<open>p\<close>.
\<close>

fun matches :: "byte option list \<Rightarrow> bytes \<Rightarrow> bool" where
  "matches [] s = True"
| "matches (p # ps) [] = False"
| "matches (p # ps) (c # s) = ((case p of Some b \<Rightarrow> c = b | None \<Rightarrow> c \<noteq> 10 \<and> c \<noteq> 13) \<and> matches ps s)"

function replaceAll :: "byte option \<Rightarrow> byte option list \<Rightarrow> bytes \<Rightarrow> bytes \<Rightarrow> bytes" where
  "replaceAll p ps rep [] = []"
| "replaceAll p ps rep (c # s) =
     (if matches (p # ps) (c # s) then rep @ replaceAll p ps rep (drop (length ps) s)
      else c # replaceAll p ps rep s)"
  by pat_completeness auto
termination by (relation "measure (\<lambda>(_, _, _, s). length s)") auto

text \<open>A literal as such a sequence, without its first character.\<close>

definition literal :: "string \<Rightarrow> byte option list" where
  "literal s = map Some (ascii s)"

text \<open>The dot between \<open>BaseCmd\<close> and \<open>Cmd\<close> is not escaped in the first expression.\<close>

definition JavaClass2ProtoTypeName :: "bytes \<Rightarrow> bytes" where
  "JavaClass2ProtoTypeName className =
     replaceAll (Some (of_char CHR ''c'')) (literal ''lass BaseCmd'' @ None # literal ''Cmd$'') (ascii ''BaseCmd.'') className"

definition ProtoTypeName2JavaClassName :: "bytes \<Rightarrow> bytes" where
  "ProtoTypeName2JavaClassName typeName =
     replaceAll (Some (of_char CHR ''B'')) (literal ''aseCmd.'') (ascii ''class BaseCmd.Cmd$'') typeName"

section \<open>The generated classes\<close>

text \<open>
  \<open>getClass\<close> is \<open>getClass().toString()\<close>.  \<open>forName\<close> is the reflection in \<open>parseDynamic\<close>: there is no class of
  this name, the class has no static \<open>parseFrom(byte[])\<close>, or it has this one, where \<open>None\<close> is an
  \<open>InvalidProtocolBufferException\<close>.
\<close>

datatype class_lookup = No_class | No_method | Parser "bytes \<Rightarrow> AnyMessage option"

record javalite =
  getClass :: "AnyMessage \<Rightarrow> bytes"
  toByteArray :: "AnyMessage \<Rightarrow> bytes"
  forName :: "bytes \<Rightarrow> class_lookup"
  CmdType_parseFrom :: "bytes \<Rightarrow> CmdType option"

section \<open>Writing a message\<close>

definition HeadString :: bytes where
  "HeadString = ascii ''pbh'' @ [0]"

text \<open>The calls of \<open>write\<close> that \<open>WriteRunnable.run\<close> makes, in order.\<close>

definition WriteRunnable_run :: "javalite \<Rightarrow> bool \<Rightarrow> AnyMessage \<Rightarrow> bytes list" where
  "WriteRunnable_run L isConnected msg =
     (if isConnected then
        let bbody = toByteArray L msg;
            stype = JavaClass2ProtoTypeName (getClass L msg);
            bodylen = word_of_nat (length bbody) :: int32;
            headdata = CmdType_new\<lparr>CmdType_type := stype, CmdType_size := bodylen\<rparr>;
            bhead = toByteArray L (Msg_CmdType headdata);
            headlen = word_of_nat (length bhead) :: int32;
            totallen = 8 + headlen + bodylen;
            bshead = HeadString
        in [take 4 bshead, intToBytesLittle totallen, intToBytesLittle headlen, bhead, bbody]
      else [])"

section \<open>Reading a message\<close>

datatype java_exception =
    NegativeArraySizeException | InvalidProtocolBufferException | IllegalArgumentException
  | NullPointerException | ClassCastException

text \<open>
  An \<open>InputStream\<close> is what its next calls of \<open>read\<close> find at most, followed by the end of the stream, where
  \<open>read\<close> returns -1.  A call returns at least one byte, when there is one and it asks for one.
\<close>

type_synonym stream = "bytes list"

fun stream_read :: "nat \<Rightarrow> stream \<Rightarrow> bytes \<times> stream" where
  "stream_read n [] = ([], [])"
| "stream_read n (c # s) =
     (if n = 0 then ([], c # s)
      else if c = [] then stream_read n s
      else (take n c, if length c \<le> n then s else drop n c # s))"

text \<open>\<open>inputStream.read(b)\<close>, whose result is not used.\<close>

definition read_into :: "bytes \<Rightarrow> stream \<Rightarrow> bytes \<times> stream" where
  "read_into b s = (let (got, s) = stream_read (length b) s in (overwrite b 0 got, s))"

definition new_array :: "int32 \<Rightarrow> java_exception + bytes" where
  "new_array n = (if sint n < 0 then Inl NegativeArraySizeException else Inr (replicate (nat (sint n)) 0))"

text \<open>\<open>Inr None\<close> is the result \<open>null\<close>.\<close>

definition parseDynamic :: "javalite \<Rightarrow> bytes \<Rightarrow> bytes \<Rightarrow> java_exception + AnyMessage option" where
  "parseDynamic L type data =
     (let type = ProtoTypeName2JavaClassName type;
          type = replaceAll (Some (of_char CHR ''c'')) (literal ''lass '') [] type
      in case forName L type of
           No_class \<Rightarrow> Inr None
         | No_method \<Rightarrow> Inl IllegalArgumentException
         | Parser parseFrom \<Rightarrow> (case parseFrom data of
               None \<Rightarrow> Inl IllegalArgumentException
             | Some m \<Rightarrow> Inr (Some m)))"

text \<open>What is broadcast to \<open>MainActivity\<close>: the text to show, or that the connection is made.\<close>

datatype Intent = EXTRA_TEXT bytes | Connect_Success

datatype Java_Processor = Java_SigninProcessor | Java_MoveProcessor

fun Java_Process :: "Java_Processor \<Rightarrow> AnyMessage \<Rightarrow> java_exception + Intent list" where
  "Java_Process Java_SigninProcessor msg = (case msg of
       Msg_rspSignin rsp \<Rightarrow> Inr [EXTRA_TEXT (rspSignin_name rsp @ ascii '' '' @
           ascii (if rspSignin_succ rsp then ''true'' else ''false''))]
     | _ \<Rightarrow> Inl ClassCastException)"
| "Java_Process Java_MoveProcessor msg = (case msg of
       Msg_rspMove rsp \<Rightarrow> Inr [EXTRA_TEXT (rspMove_error rsp)]
     | _ \<Rightarrow> Inl ClassCastException)"

definition Java_ClientMessageDispatcher :: "javalite \<Rightarrow> bytes \<rightharpoonup> Java_Processor" where
  "Java_ClientMessageDispatcher L = (Map.empty
     (getClass L (Msg_rspSignin rspSignin_new) \<mapsto> Java_SigninProcessor))
     (getClass L (Msg_rspMove rspMove_new) \<mapsto> Java_MoveProcessor)"

definition Java_Dispatcher :: "(bytes \<rightharpoonup> Java_Processor) \<Rightarrow> bytes \<Rightarrow> AnyMessage \<Rightarrow> java_exception + Intent list" where
  "Java_Dispatcher m_ProcessorMap typeName msg = (case m_ProcessorMap typeName of
       Some p \<Rightarrow> Java_Process p msg
     | None \<Rightarrow> Inr [])"

text \<open>\<open>Parse\<close> after the head: the lengths, both arrays, both parses, the dispatch.\<close>

definition Parse_frame :: "javalite \<Rightarrow> stream \<Rightarrow> java_exception + Intent list \<times> stream" where
  "Parse_frame L s =
     (let (btotallen, s) = read_into [0, 0, 0, 0] s;
          totallen = the (bytesToIntLittle btotallen 0);
          (bheadlen, s) = read_into [0, 0, 0, 0] s;
          headlen = the (bytesToIntLittle bheadlen 0)
      in case new_array headlen of Inl e \<Rightarrow> Inl e | Inr bheaddata \<Rightarrow>
         (case new_array (totallen - headlen - 8) of Inl e \<Rightarrow> Inl e | Inr bbodydata \<Rightarrow>
          (let (bheaddata, s) = read_into bheaddata s;
               (bbodydata, s) = read_into bbodydata s
           in case CmdType_parseFrom L bheaddata of None \<Rightarrow> Inl InvalidProtocolBufferException | Some headdata \<Rightarrow>
             (case parseDynamic L (CmdType_type headdata) bbodydata of
                Inl e \<Rightarrow> Inl e
              | Inr None \<Rightarrow> Inl NullPointerException
              | Inr (Some m) \<Rightarrow> (case Java_Dispatcher (Java_ClientMessageDispatcher L) (getClass L m) m of
                    Inl e \<Rightarrow> Inl e
                  | Inr is \<Rightarrow> Inr (is, s))))))"

definition Parse :: "javalite \<Rightarrow> stream \<Rightarrow> java_exception + Intent list \<times> stream" where
  "Parse L s = (let (head, s) = read_into [0, 0, 0, 0] s in
     if head = HeadString then Parse_frame L s else Inr ([], s))"

text \<open>The loop of \<open>ConnectAndProcess\<close>, for \<open>n\<close> rounds unless an exception ends the thread.\<close>

fun receive_rounds :: "javalite \<Rightarrow> nat \<Rightarrow> stream \<Rightarrow> Intent list \<times> (java_exception + stream)" where
  "receive_rounds L 0 s = ([], Inr s)"
| "receive_rounds L (Suc n) s = (case Parse L s of
       Inl e \<Rightarrow> ([], Inl e)
     | Inr (is, s) \<Rightarrow> (let (js, r) = receive_rounds L n s in (is @ js, r)))"

definition ConnectAndProcess :: "javalite \<Rightarrow> nat \<Rightarrow> stream \<Rightarrow> Intent list \<times> (java_exception + stream)" where
  "ConnectAndProcess L n s = (let (is, r) = receive_rounds L n s in (Connect_Success # is, r))"

section \<open>Lemmas on integers\<close>

lemma mask_FF: "(0xFF :: 'a::len word) = mask 8"
  by (simp add: mask_eq_exp_minus_1)

lemma ucast_signed_drop:
  assumes "k \<le> 24"
  shows "(ucast (signed_drop_bit k (v :: int32) AND 0xFF) :: byte) = ucast (drop_bit k v)"
  using assms unfolding mask_FF by (intro bit_word_eqI) (auto simp: bit_simps)

lemma intToBytesLittle_le32: "intToBytesLittle v = le32 v"
  using ucast_signed_drop [of 24 v] ucast_signed_drop [of 16 v] ucast_signed_drop [of 8 v] ucast_signed_drop [of 0 v]
  by (simp add: intToBytesLittle_def le32_def Let_def)

lemma byte_at_ucast: "byte_at src i = ucast (src ! i)"
proof (rule bit_word_eqI)
  fix n assume "n < LENGTH(32)"
  then show "bit (byte_at src i) n = bit (ucast (src ! i) :: int32) n"
    unfolding byte_at_def mask_FF by (cases "n < 8") (auto simp: bit_simps min_absorb2 dest: bit_imp_le_length)
qed

lemma bytesToIntLittle_le32: "bytesToIntLittle (le32 v) 0 = Some v"
  using le32_bits [of v "[]"] ReadLittleEndian32FromArray_le32 [of v "[]"]
  by (simp add: bytesToIntLittle_def byte_at_ucast le32_def)

lemma intToBytesBig_rev: "intToBytesBig v = rev (intToBytesLittle v)"
  by (simp add: intToBytesBig_def intToBytesLittle_def Let_def)

lemma bytesToIntBig_intToBytesBig: "bytesToIntBig (intToBytesBig v) 0 = Some v"
  using le32_bits [of v "[]"] ReadLittleEndian32FromArray_le32 [of v "[]"]
  by (simp add: bytesToIntBig_def intToBytesBig_rev intToBytesLittle_le32 byte_at_ucast le32_def or.commute or.left_commute)

section \<open>What the client relies on\<close>

text \<open>
  The documented behaviour of the generated classes: a message \<open>BaseCmd.x\<close> of cmd.proto is the class \<open>x\<close>
  nested in \<open>BaseCmd.Cmd\<close>, and a message inside a message is nested there; the fields that are set are
  written in the order of their numbers; what is written is parsed back.  The last two are asked for
  messages without unknown fields only, which this version of the library does not keep.
\<close>

definition java_class :: "AnyMessage \<Rightarrow> bytes" where
  "java_class m = ascii ''class BaseCmd.Cmd$'' @
     map (\<lambda>b. if b = of_char CHR ''.'' then of_char CHR ''$'' else b) (drop 8 (GetTypeName m))"

fun plain :: "AnyMessage \<Rightarrow> bool" where
  "plain (Msg_CmdType m) = (CmdType_unknown m = [])"
| "plain (Msg_notifyConnectionStatus m) = (notifyConnectionStatus_unknown m = [])"
| "plain (Msg_sUser_ePhoneNumber m) = (sUser_ePhoneNumber_unknown m = [])"
| "plain (Msg_sUser m) = (sUser_unknown m = [] \<and> list_all (\<lambda>p. sUser_ePhoneNumber_unknown p = []) (sUser_phones m))"
| "plain (Msg_reqSignin m) = (reqSignin_unknown m = [] \<and> list_all (\<lambda>u. sUser_unknown u = [] \<and>
     list_all (\<lambda>p. sUser_ePhoneNumber_unknown p = []) (sUser_phones u)) (reqSignin_user m))"
| "plain (Msg_rspSignin m) = (rspSignin_unknown m = [])"
| "plain (Msg_reqMove m) = (reqMove_unknown m = [])"
| "plain (Msg_rspMove m) = (rspMove_unknown m = [])"
| "plain (Msg_reqAlarm m) = (reqAlarm_unknown m = [])"
| "plain (Msg_rspAlarm m) = (rspAlarm_unknown m = [])"

definition portable :: "AnyMessage \<Rightarrow> bool" where
  "portable m \<longleftrightarrow> plain m \<and> valid 100 m \<and> int (length (encode m)) \<le> INT_MAX"

definition names_classes :: "javalite \<Rightarrow> bool" where
  "names_classes L \<longleftrightarrow> (\<forall>m. getClass L m = java_class m)"

definition writes_fields :: "javalite \<Rightarrow> bool" where
  "writes_fields L \<longleftrightarrow> (\<forall>m. portable m \<longrightarrow> toByteArray L m = encode m)"

definition parses_fields :: "javalite \<Rightarrow> bool" where
  "parses_fields L \<longleftrightarrow>
     (\<forall>m. portable m \<longrightarrow> (\<exists>p. forName L (drop 6 (java_class m)) = Parser p \<and> p (encode m) = Some m)) \<and>
     (\<forall>c. portable (Msg_CmdType c) \<longrightarrow> CmdType_parseFrom L (CmdType_encode c) = Some c)"

definition top_level :: "AnyMessage \<Rightarrow> bool" where
  "top_level m \<longleftrightarrow> (\<forall>p. m \<noteq> Msg_sUser_ePhoneNumber p)"

section \<open>Names\<close>

lemmas name_defs = java_class_def JavaClass2ProtoTypeName_def ProtoTypeName2JavaClassName_def literal_def ascii_def

lemma JavaClass2ProtoTypeName_class: "top_level m \<Longrightarrow> JavaClass2ProtoTypeName (java_class m) = GetTypeName m"
  by (cases m) (simp_all add: name_defs top_level_def)

lemma ProtoTypeName2JavaClassName_name:
  "top_level m \<Longrightarrow> replaceAll (Some (of_char CHR ''c'')) (literal ''lass '') [] (ProtoTypeName2JavaClassName (GetTypeName m)) = drop 6 (java_class m)"
  by (cases m) (simp_all add: name_defs top_level_def)

lemma nested_name: "JavaClass2ProtoTypeName (java_class (Msg_sUser_ePhoneNumber p)) = ascii ''BaseCmd.sUser$ePhoneNumber''"
  by (simp add: name_defs)

section \<open>What is written\<close>

lemma portable_cmd_of: "portable (Msg_CmdType (cmd_of m))"
  using cmd_of_valid [of 100 m] length_cmd_of [of m] by (simp add: portable_def cmd_of_def CmdType_new_def)

lemma HeadString_head: "HeadString = head"
  by (simp add: HeadString_def head_def)

lemma WriteRunnable_frame:
  assumes "names_classes L" and "writes_fields L" and "portable m" and "top_level m"
  shows "concat (WriteRunnable_run L True m) = frame m"
proof -
  have body: "toByteArray L m = encode m" using assms by (simp add: writes_fields_def)
  have name: "JavaClass2ProtoTypeName (getClass L m) = GetTypeName m"
    using assms JavaClass2ProtoTypeName_class by (simp add: names_classes_def)
  have cmd: "toByteArray L (Msg_CmdType (CmdType_new\<lparr>CmdType_type := GetTypeName m, CmdType_size := word_of_nat (length (encode m))\<rparr>)) =
      CmdType_encode (cmd_of m)"
    using assms(2) portable_cmd_of [of m] by (simp add: writes_fields_def cmd_of_def)
  show ?thesis
    by (simp add: WriteRunnable_run_def Let_def body name cmd HeadString_head head_def intToBytesLittle_le32 frame_def
        frame_rest_def frame_len_def)
qed

section \<open>What is read\<close>

text \<open>A read that finds all it asks for.\<close>

definition push :: "bytes \<Rightarrow> stream \<Rightarrow> stream" where
  "push c s = (if c = [] then s else c # s)"

lemma stream_read_0 [simp]: "stream_read 0 s = ([], s)"
  by (cases s) simp_all

lemma read_into_push:
  "length b = length xs \<Longrightarrow> read_into b (push (xs @ ys) s) = (xs, push ys s)"
  by (cases "xs = []") (auto simp: read_into_def push_def overwrite_def)

lemma read_word: "read_into [0, 0, 0, 0] (push (le32 v @ ys) s) = (le32 v, push ys s)"
  using read_into_push [of "[0, 0, 0, 0]" "le32 v"] by (simp add: le32_def)

lemma read_head: "read_into [0, 0, 0, 0] (push (head @ ys) s) = (HeadString, push ys s)"
  using read_into_push [of "[0, 0, 0, 0]" head] by (simp add: head_def HeadString_def)

lemma read_array: "read_into (replicate (length xs) 0) (push (xs @ ys) s) = (xs, push ys s)"
  by (rule read_into_push) simp

lemma new_array_length: "n < 2 ^ 31 \<Longrightarrow> new_array (word_of_nat n) = Inr (replicate n 0)"
  by (simp add: new_array_def sint_of_length)

text \<open>The broadcast for a message.\<close>

definition shown :: "AnyMessage \<Rightarrow> Intent list" where
  "shown m = (case m of
       Msg_rspSignin rsp \<Rightarrow> [EXTRA_TEXT (rspSignin_name rsp @ ascii (if rspSignin_succ rsp then '' true'' else '' false''))]
     | Msg_rspMove rsp \<Rightarrow> [EXTRA_TEXT (rspMove_error rsp)]
     | _ \<Rightarrow> [])"

lemma Java_Dispatcher_shown:
  "names_classes L \<Longrightarrow> Java_Dispatcher (Java_ClientMessageDispatcher L) (java_class m) m = Inr (shown m)"
  by (cases m) (simp_all add: Java_Dispatcher_def Java_ClientMessageDispatcher_def names_classes_def java_class_def ascii_def shown_def)

lemma Parse_message:
  assumes "names_classes L" and "parses_fields L" and "portable m" and "top_level m" and "length (encode m) < 2 ^ 30"
  shows "Parse L (push (frame m @ rest) s) = Inr (shown m, push rest s)"
proof -
  let ?h = "CmdType_encode (cmd_of m)" and ?b = "encode m"
  obtain p where p: "forName L (drop 6 (java_class m)) = Parser p" "p ?b = Some m"
    using assms(2,3) by (auto simp: parses_fields_def)
  have cmd: "CmdType_parseFrom L ?h = Some (cmd_of m)" using assms(2) portable_cmd_of [of m] by (simp add: parses_fields_def)
  have dyn: "parseDynamic L (GetTypeName m) ?b = Inr (Some m)"
    using p ProtoTypeName2JavaClassName_name [OF assms(4)] by (simp add: parseDynamic_def Let_def)
  have h: "length ?h < 2 ^ 31" using length_cmd_of [of m] by simp
  have "word_of_nat (frame_len m) - word_of_nat (length ?h) - 8 = (word_of_nat (length ?b) :: int32)" by (simp add: frame_len_def)
  then have b: "new_array (word_of_nat (frame_len m) - word_of_nat (length ?h) - 8) = Inr (replicate (length ?b) 0)"
    using new_array_length [of "length ?b"] assms(5) by simp
  show ?thesis
    by (simp add: Parse_def Parse_frame_def frame_def frame_rest_def Let_def read_head read_word read_array bytesToIntLittle_le32
        new_array_length [OF h] b cmd dyn Java_Dispatcher_shown [OF assms(1)] assms(1) [unfolded names_classes_def])
qed

definition receivable :: "AnyMessage \<Rightarrow> bool" where
  "receivable m \<longleftrightarrow> portable m \<and> top_level m \<and> length (encode m) < 2 ^ 30"

lemma receive_rounds_frames:
  assumes "names_classes L" and "parses_fields L" and "list_all receivable ms"
  shows "receive_rounds L (length ms + n) (push (frames ms) s) =
    (concat (map shown ms) @ fst (receive_rounds L n s), snd (receive_rounds L n s))"
  using assms(3)
proof (induction ms)
  case Nil
  then show ?case by (simp add: push_def)
next
  case (Cons m ms)
  then have "Parse L (push (frame m @ frames ms) s) = Inr (shown m, push (frames ms) s)"
    using Parse_message [OF assms(1,2), of m "frames ms" s] by (simp add: receivable_def)
  then show ?case using Cons by simp
qed

lemma receive_rounds_chunks:
  assumes "names_classes L" and "parses_fields L" and "list_all receivable (concat mss)" and "[] \<notin> set mss"
  shows "receive_rounds L (length (concat mss)) (map frames mss) = (concat (map shown (concat mss)), Inr [])"
  using assms(3,4)
proof (induction mss)
  case (Cons ms mss)
  have "frames ms \<noteq> []" using Cons.prems(2) by (cases ms) (simp_all add: frame_def head_def)
  then have "push (frames ms) (map frames mss) = frames ms # map frames mss" by (simp only: push_def if_False)
  then show ?case
    using receive_rounds_frames [OF assms(1,2), of ms "length (concat mss)" "map frames mss"] Cons by simp
qed simp

text \<open>The answers of the server can be received.\<close>

lemma answers_receivable:
  assumes "answerable m" and "a \<in> set (the (answers m))"
  shows "receivable a"
proof -
  obtain as where as: "answers m = Some as" "a \<in> set as" "sendable m" using assms by (auto simp: answerable_def)
  have "valid 100 a \<and> plain a \<and> top_level a \<and> length (encode a) < 2 ^ 30"
  proof (cases m)
    case (Msg_reqSignin q)
    then obtain u us where u: "reqSignin_user q = u # us"
        "a = Msg_rspSignin \<lparr>rspSignin_name = sUser_name u, rspSignin_succ = True, rspSignin_unknown = []\<rparr>"
      using as by (auto simp: answers_def split: list.splits)
    have "length (sUser_name u) \<le> 1024" "string_ok (sUser_name u)"
      using length_sUser_name [of u] length_reqSignin_user [of u q] as(3) u(1)
      by (simp_all add: Msg_reqSignin sendable_def TEMP_BUFFER_SIZE_def reqSignin_valid_def sUser_valid_def)
    then show ?thesis using length_varint32 [of "word_of_nat (length (sUser_name u))"]
      by (simp add: u(2) rspSignin_encode_def delimited_def message_size_simps top_level_def rspSignin_valid_def)
  next
    case (Msg_reqMove q)
    then have "a = Msg_rspMove \<lparr>rspMove_error = ascii ''Move Function Success with No Error'', rspMove_unknown = []\<rparr>"
      using as by (auto simp: answers_def)
    moreover have "string_ok (ascii ''Move Function Success with No Error'')" by (simp add: string_ok_def ascii_def)
    ultimately show ?thesis
      by (simp add: rspMove_encode_def delimited_def message_size_simps varint_small top_level_def rspMove_valid_def)
  qed (use as in \<open>simp_all add: answers_def\<close>)
  then show ?thesis by (simp add: receivable_def portable_def)
qed

lemma all_answers_receivable: "list_all answerable ms \<Longrightarrow> list_all receivable (all_answers ms)"
  using answers_receivable by (fastforce simp: all_answers_def list_all_iff)

text \<open>At the end of the stream the loop goes on for ever.\<close>

lemma receive_rounds_eof: "receive_rounds L n [] = ([], Inr [])"
  by (induction n) (simp_all add: Parse_def read_into_def HeadString_def ascii_def)

text \<open>A negative length ends the receiving thread.\<close>

lemma negative_length_ends:
  "sint h < 0 \<Longrightarrow> Parse L (push (head @ le32 t @ le32 h @ rest) s) = Inl NegativeArraySizeException"
  by (simp add: Parse_def Parse_frame_def Let_def read_head read_word bytesToIntLittle_le32 new_array_def)

text \<open>A stream in which no group of four bytes is a head.\<close>

function headless :: "bytes \<Rightarrow> bool" where
  "headless c = (if c = [] then True else overwrite [0, 0, 0, 0] 0 (take 4 c) \<noteq> HeadString \<and> headless (drop 4 c))"
  by pat_completeness auto
termination by (relation "measure length") (auto intro!: diff_less)

declare headless.simps [simp del]

lemma receive_rounds_headless: "headless c \<Longrightarrow> \<exists>s. receive_rounds L n (push c []) = ([], Inr s)"
proof (induction n arbitrary: c)
  case (Suc n)
  show ?case
  proof (cases "c = []")
    case True
    then show ?thesis using receive_rounds_eof [of L "Suc n"] by (simp add: push_def)
  next
    case False
    then have h: "overwrite [0, 0, 0, 0] 0 (take 4 c) \<noteq> HeadString" "headless (drop 4 c)"
      using Suc.prems by (subst (asm) headless.simps; simp)+
    have "Parse L (push c []) = Inr ([], push (drop 4 c) [])"
      using False h(1) by (auto simp: Parse_def read_into_def push_def eval_nat_numeral)
    then show ?thesis using Suc.IH [OF h(2)] by auto
  qed
qed simp

section \<open>Properties\<close>

text \<open>The request of the sign-in button, and generated classes that share the C++ wire format.\<close>

definition btnSignin_onClick :: AnyMessage where
  "btnSignin_onClick = Msg_reqSignin (reqSignin_new\<lparr>reqSignin_user := [sUser_new\<lparr>sUser_name := ascii ''michael'', sUser_id := 99,
     sUser_email := ascii ''michael@qq.com''\<rparr>]\<rparr>)"

definition checked :: "(bool \<times> 'm) option \<Rightarrow> 'm option" where
  "checked r = (case r of Some (True, m) \<Rightarrow> Some m | _ \<Rightarrow> None)"

definition sample_javalite :: javalite where
  "sample_javalite = \<lparr>getClass = java_class, toByteArray = encode,
     forName = (\<lambda>n. case find (\<lambda>p. drop 6 (java_class p) = n) prototypes of
         None \<Rightarrow> No_class | Some p \<Rightarrow> Parser (\<lambda>data. checked (Message_ParseFromArray data p))),
     CmdType_parseFrom = (\<lambda>data. checked (ParseFromArray CmdType_MergePartialFromCodedStream CmdType_Clear data CmdType_new))\<rparr>"

lemma find_class: "find (\<lambda>p. drop 6 (java_class p) = drop 6 (java_class m)) prototypes = Some (prototype m)"
  by (cases m) (simp_all add: prototypes_def java_class_def ascii_def)

lemma sample_javalite_ok: "names_classes sample_javalite" "writes_fields sample_javalite" "parses_fields sample_javalite"
proof -
  have "checked (ParseFromArray CmdType_MergePartialFromCodedStream CmdType_Clear (CmdType_encode c) CmdType_new) = Some c"
    if "portable (Msg_CmdType c)" for c
    using that Message_ParseFromArray_encode [of "Msg_CmdType c"] by (auto simp: portable_def checked_def split: option.splits)
  then show "parses_fields sample_javalite"
    using Message_ParseFromArray_encode by (auto simp: parses_fields_def sample_javalite_def find_class portable_def checked_def)
qed (simp_all add: names_classes_def writes_fields_def sample_javalite_def)

lemma btnSignin_answerable: "answerable btnSignin_onClick" "plain btnSignin_onClick" "top_level btnSignin_onClick"
  "length (frame btnSignin_onClick) < 2000"
proof -
  have u: "string_ok (ascii ''michael'')" "string_ok (ascii ''michael@qq.com'')" by (simp_all add: string_ok_def ascii_def)
  have len: "length (encode btnSignin_onClick) \<le> 100"
    by (simp add: btnSignin_onClick_def reqSignin_new_def sUser_new_def reqSignin_encode_def sUser_encode_def delimited_def message_size_simps varint_small)
  have "length (sUser_encode \<lparr>sUser_name = ascii ''michael'', sUser_id = 99, sUser_email = ascii ''michael@qq.com'', sUser_phones = [],
      sUser_unknown = []\<rparr>) \<le> 100"
    by (simp add: sUser_encode_def delimited_def message_size_simps varint_small)
  then show "answerable btnSignin_onClick" "plain btnSignin_onClick" "top_level btnSignin_onClick" "length (frame btnSignin_onClick) < 2000"
    using len length_cmd_of [of btnSignin_onClick] u
    by (simp_all add: answerable_def sendable_def TEMP_BUFFER_SIZE_def answers_def btnSignin_onClick_def reqSignin_new_def sUser_new_def
        reqSignin_valid_def sUser_valid_def top_level_def frame_def frame_rest_def head_def string_ok_Nil)
qed

text \<open>C9: a session of the Android client with the C++ server.  The bytes that the client writes for the
  messages \<open>ms\<close>, one after the other and however they are cut on their way, make the server put into its
  send buffer the frames of the answers; and when these reach the client in pieces of whole frames, the
  receiving loop broadcasts the text of every answer, in order, without an exception.
  The length that the route of the server leaves uninitialised is 0 here.\<close>

theorem android_session:
  assumes "names_classes L" and "writes_fields L" and "parses_fields L"
    and "list_all (\<lambda>m. answerable m \<and> plain m \<and> top_level m) ms" and "length (frames ms) < 2 ^ 62"
    and "arrived es = concat (concat (map (WriteRunnable_run L True) ms))"
    and "\<And>buf. Arrive buf \<in> set es \<Longrightarrow> length buf < 2 ^ 31"
    and "length temp = TEMP_BUFFER_SIZE" and "length temp' = TEMP_BUFFER_SIZE"
    and "concat mss = all_answers ms" and "[] \<notin> set mss"
  shows "\<exists>r. run_events linked (es @ replicate (length ms) Tick)
       (SetMessageDispatcher ServerMessageDispatcher (MessageRoute_new 0 temp temp')) = Some r
     \<and> mDataStreamSend r = concat (map frames mss)
     \<and> ConnectAndProcess L (length (all_answers ms)) (map frames mss) =
         (Connect_Success # concat (map shown (all_answers ms)), Inr [])"
proof -
  have ms: "list_all answerable ms" using assms(4) by (simp add: list_all_iff)
  have "concat (WriteRunnable_run L True m) = frame m" if "m \<in> set ms" for m
    using that assms(4) by (intro WriteRunnable_frame assms(1,2))
      (auto simp: list_all_iff portable_def answerable_def sendable_def TEMP_BUFFER_SIZE_def)
  then have "arrived es = frames ms" unfolding assms(6) by (induction ms) simp_all
  from run_answers_all [OF ms this assms(5,7-9)] obtain r where
    "run_events linked (es @ replicate (length ms) Tick)
       (SetMessageDispatcher ServerMessageDispatcher (MessageRoute_new 0 temp temp')) = Some r"
    "mDataStreamSend r = frames (all_answers ms)" by blast
  moreover have "frames (concat mss) = concat (map frames mss)" by (induction mss) simp_all
  moreover have "receive_rounds L (length (all_answers ms)) (map frames mss) = (concat (map shown (all_answers ms)), Inr [])"
    using receive_rounds_chunks [OF assms(1,3), of mss] all_answers_receivable [OF ms] assms(10,11) by simp
  ultimately show ?thesis using assms(10) by (simp add: ConnectAndProcess_def)
qed

theorem android_session_witness:
  "\<exists>r. run_events (\<lambda>_. False) ([Arrive (frame btnSignin_onClick)] @ replicate 1 Tick) (sample_route ServerMessageDispatcher) = Some r
     \<and> ConnectAndProcess sample_javalite 1 [mDataStreamSend r] = ([Connect_Success, EXTRA_TEXT (ascii ''michael true'')], Inr [])"
proof -
  have a: "all_answers [btnSignin_onClick] = [Msg_rspSignin \<lparr>rspSignin_name = ascii ''michael'', rspSignin_succ = True, rspSignin_unknown = []\<rparr>]"
    by (simp add: all_answers_def answers_def btnSignin_onClick_def reqSignin_new_def sUser_new_def)
  have w: "concat (WriteRunnable_run sample_javalite True btnSignin_onClick) = frame btnSignin_onClick"
    using btnSignin_answerable by (intro WriteRunnable_frame sample_javalite_ok)
      (simp_all add: portable_def answerable_def sendable_def TEMP_BUFFER_SIZE_def)
  have "\<exists>r. run_events (\<lambda>_. False) ([Arrive (frame btnSignin_onClick)] @ replicate (length [btnSignin_onClick]) Tick)
      (sample_route ServerMessageDispatcher) = Some r
     \<and> mDataStreamSend r = concat (map frames [all_answers [btnSignin_onClick]])
     \<and> ConnectAndProcess sample_javalite (length (all_answers [btnSignin_onClick])) (map frames [all_answers [btnSignin_onClick]]) =
         (Connect_Success # concat (map shown (all_answers [btnSignin_onClick])), Inr [])"
    unfolding sample_route_def
    by (rule android_session) (use sample_javalite_ok btnSignin_answerable w a in auto)
  then show ?thesis by (auto simp: a shown_def ascii_def)
qed

text \<open>The answer to a move request.\<close>

definition move_answer :: AnyMessage where
  "move_answer = Msg_rspMove \<lparr>rspMove_error = ascii ''Move Function Success with No Error'', rspMove_unknown = []\<rparr>"

lemma headless_cut: "headless (drop 1 (frame move_answer))" "headless (drop 2 (frame move_answer))"
  by code_simp+



end
