(* ===== verification/CallbackList.thy ===== *)
theory CallbackList
  imports Main "HOL-Library.Monad_Syntax" "HOL-Library.Word" "HOL-Library.Sublist"
begin

text \<open>
  \<open>CallbackListBase\<close> of eventpp (callbacklist.h in src/Shared/code/eventpp): a doubly linked list of
  callbacks whose nodes are owned by \<open>shared_ptr\<close>s and named by \<open>weak_ptr\<close> handles, and the loop that
  invokes the callbacks while they change the list.  Calls are atomic: each takes the mutex of the list.
\<close>

section \<open>Nodes and their owners\<close>

text \<open>Nodes are named by numbers, which are never used again; a handle is the number of a node.\<close>

record 'f Node =
  callback :: 'f
  counter :: "64 word"
  previous :: "nat option"
  next_node :: "nat option"

text \<open>
  \<open>nodes\<close> are the nodes that are alive, all with numbers below \<open>fresh\<close>; \<open>pins\<close> are the nodes that the
  local variable \<open>node\<close> of a running loop owns, the innermost loop first.
\<close>

record 'f CallbackList =
  nodes :: "nat \<Rightarrow> 'f Node option"
  list_head :: "nat option"
  list_tail :: "nat option"
  currentCounter :: "64 word"
  fresh :: nat
  pins :: "nat list"

definition removedCounter :: "64 word" where
  "removedCounter = 0"

definition CallbackList_new :: "'f CallbackList" where
  "CallbackList_new = \<lparr>nodes = (\<lambda>_. None), list_head = None, list_tail = None, currentCounter = 0, fresh = 0, pins = []\<rparr>"

text \<open>The number of \<open>shared_ptr\<close>s that own a node.\<close>

definition use_count :: "'f CallbackList \<Rightarrow> nat \<Rightarrow> nat" where
  "use_count l a = of_bool (list_head l = Some a) + of_bool (list_tail l = Some a) + count_list (pins l) a +
     length (filter (\<lambda>b. case nodes l b of None \<Rightarrow> False | Some n \<Rightarrow> next_node n = Some a) [0..<fresh l]) +
     length (filter (\<lambda>b. case nodes l b of None \<Rightarrow> False | Some n \<Rightarrow> previous n = Some a) [0..<fresh l])"

definition unowned :: "'f CallbackList \<Rightarrow> nat \<Rightarrow> bool" where
  "unowned l a \<longleftrightarrow> nodes l a \<noteq> None \<and> use_count l a = 0"

text \<open>A node without owner is destroyed, and with it its own pointers.\<close>

function collect :: "'f CallbackList \<Rightarrow> 'f CallbackList" where
  "collect l = (case find (unowned l) [0..<fresh l] of
       None \<Rightarrow> l
     | Some a \<Rightarrow> collect (l\<lparr>nodes := (nodes l)(a := None)\<rparr>))"
  by pat_completeness auto
termination
proof (relation "measure (\<lambda>l. length (filter (\<lambda>a. nodes l a \<noteq> None) [0..<fresh l]))")
  fix l :: "'f CallbackList" and a
  assume "find (unowned l) [0..<fresh l] = Some a"
  then have a: "a < fresh l" "nodes l a \<noteq> None" by (auto simp: find_Some_iff unowned_def)
  have "card {b. b < fresh l \<and> ((nodes l)(a := None)) b \<noteq> None} < card {b. b < fresh l \<and> nodes l b \<noteq> None}"
    by (rule psubset_card_mono) (use a in auto)
  then show "(l\<lparr>nodes := (nodes l)(a := None)\<rparr>, l) \<in> measure (\<lambda>l. length (filter (\<lambda>a. nodes l a \<noteq> None) [0..<fresh l]))"
    by (simp add: length_filter_conv_card cong: conj_cong)
qed simp

declare collect.simps [simp del]

text \<open>\<open>a->field = value\<close>; \<open>None\<close> is the dereference of a null or dangling pointer.\<close>

definition modify :: "nat \<Rightarrow> ('f Node \<Rightarrow> 'f Node) \<Rightarrow> 'f CallbackList \<Rightarrow> 'f CallbackList option" where
  "modify a f l = (case nodes l a of None \<Rightarrow> None | Some n \<Rightarrow> Some (l\<lparr>nodes := (nodes l)(a \<mapsto> f n)\<rparr>))"

definition set_previous :: "nat option \<Rightarrow> 'f Node \<Rightarrow> 'f Node" where
  "set_previous p n = n\<lparr>previous := p\<rparr>"

definition set_next :: "nat option \<Rightarrow> 'f Node \<Rightarrow> 'f Node" where
  "set_next p n = n\<lparr>next_node := p\<rparr>"

section \<open>Operations\<close>

definition empty :: "'f CallbackList \<Rightarrow> bool" where
  "empty l \<longleftrightarrow> list_head l = None"

text \<open>The loop that resets the counters; it visits at most \<open>fuel\<close> nodes.\<close>

fun reset_counters :: "nat \<Rightarrow> nat option \<Rightarrow> 'f CallbackList \<Rightarrow> 'f CallbackList option" where
  "reset_counters fuel None l = Some l"
| "reset_counters 0 (Some a) l = None"
| "reset_counters (Suc fuel) (Some a) l = do {
     l \<leftarrow> modify a (counter_update (\<lambda>_. 1)) l;
     n \<leftarrow> nodes l a;
     reset_counters fuel (next_node n) l
   }"

definition getNextCounter :: "'f CallbackList \<Rightarrow> (64 word \<times> 'f CallbackList) option" where
  "getNextCounter l = (let l = l\<lparr>currentCounter := currentCounter l + 1\<rparr> in
     if currentCounter l = 0 then do {
       l \<leftarrow> reset_counters (fresh l) (list_head l) l;
       let l = l\<lparr>currentCounter := currentCounter l + 1\<rparr>;
       Some (currentCounter l, l)
     }
     else Some (currentCounter l, l))"

definition make_node :: "'f \<Rightarrow> 64 word \<Rightarrow> 'f CallbackList \<Rightarrow> nat \<times> 'f CallbackList" where
  "make_node f c l = (fresh l, l\<lparr>nodes := (nodes l)(fresh l \<mapsto> \<lparr>callback = f, counter = c, previous = None, next_node = None\<rparr>),
     fresh := fresh l + 1\<rparr>)"

definition doAllocateNode :: "'f \<Rightarrow> 'f CallbackList \<Rightarrow> (nat \<times> 'f CallbackList) option" where
  "doAllocateNode f l = do {
     (c, l) \<leftarrow> getNextCounter l;
     Some (make_node f c l)
   }"

definition append :: "'f \<Rightarrow> 'f CallbackList \<Rightarrow> (nat \<times> 'f CallbackList) option" where
  "append f l = do {
     (node, l) \<leftarrow> doAllocateNode f l;
     case list_head l of
       Some _ \<Rightarrow> do {
         l \<leftarrow> modify node (set_previous (list_tail l)) l;
         t \<leftarrow> list_tail l;
         l \<leftarrow> modify t (set_next (Some node)) l;
         Some (node, l\<lparr>list_tail := Some node\<rparr>)
       }
     | None \<Rightarrow> Some (node, l\<lparr>list_head := Some node, list_tail := Some node\<rparr>)
   }"

definition prepend :: "'f \<Rightarrow> 'f CallbackList \<Rightarrow> (nat \<times> 'f CallbackList) option" where
  "prepend f l = do {
     (node, l) \<leftarrow> doAllocateNode f l;
     case list_head l of
       Some h \<Rightarrow> do {
         l \<leftarrow> modify node (set_next (list_head l)) l;
         l \<leftarrow> modify h (set_previous (Some node)) l;
         Some (node, l\<lparr>list_head := Some node\<rparr>)
       }
     | None \<Rightarrow> Some (node, l\<lparr>list_head := Some node, list_tail := Some node\<rparr>)
   }"

definition doInsert :: "nat \<Rightarrow> nat \<Rightarrow> 'f CallbackList \<Rightarrow> 'f CallbackList option" where
  "doInsert node beforeNode l = do {
     b \<leftarrow> nodes l beforeNode;
     l \<leftarrow> modify node (set_previous (previous b)) l;
     l \<leftarrow> modify node (set_next (Some beforeNode)) l;
     l \<leftarrow> (case previous b of Some p \<Rightarrow> modify p (set_next (Some node)) l | None \<Rightarrow> Some l);
     l \<leftarrow> modify beforeNode (set_previous (Some node)) l;
     Some (if list_head l = Some beforeNode then l\<lparr>list_head := Some node\<rparr> else l)
   }"

definition expired :: "'f CallbackList \<Rightarrow> nat \<Rightarrow> bool" where
  "expired l a \<longleftrightarrow> nodes l a = None"

definition insert :: "'f \<Rightarrow> nat \<Rightarrow> 'f CallbackList \<Rightarrow> (nat \<times> 'f CallbackList) option" where
  "insert f before l =
     (if \<not> expired l before then do {
        (node, l) \<leftarrow> doAllocateNode f l;
        l \<leftarrow> doInsert node before l;
        Some (node, l)
      }
      else append f l)"

definition doFreeNode :: "nat \<Rightarrow> 'f CallbackList \<Rightarrow> 'f CallbackList option" where
  "doFreeNode node l = do {
     n \<leftarrow> nodes l node;
     l \<leftarrow> (case next_node n of Some x \<Rightarrow> modify x (set_previous (previous n)) l | None \<Rightarrow> Some l);
     n \<leftarrow> nodes l node;
     l \<leftarrow> (case previous n of Some p \<Rightarrow> modify p (set_next (next_node n)) l | None \<Rightarrow> Some l);
     n \<leftarrow> nodes l node;
     let l = (if list_head l = Some node then l\<lparr>list_head := next_node n\<rparr> else l);
     let l = (if list_tail l = Some node then l\<lparr>list_tail := previous n\<rparr> else l);
     modify node (counter_update (\<lambda>_. removedCounter)) l
   }"

definition remove :: "nat \<Rightarrow> 'f CallbackList \<Rightarrow> (bool \<times> 'f CallbackList) option" where
  "remove handle l =
     (if \<not> expired l handle then do {
        l \<leftarrow> doFreeNode handle l;
        Some (True, collect l)
      }
      else Some (False, l))"

section \<open>Invoking the callbacks\<close>

text \<open>The local variable \<open>node\<close> of a loop: it gets its first value, then other ones, and goes out of scope.\<close>

definition pin :: "nat option \<Rightarrow> 'f CallbackList \<Rightarrow> 'f CallbackList" where
  "pin p l = (case p of None \<Rightarrow> l | Some a \<Rightarrow> l\<lparr>pins := a # pins l\<rparr>)"

definition unpin :: "'f CallbackList \<Rightarrow> 'f CallbackList" where
  "unpin l = collect (l\<lparr>pins := tl (pins l)\<rparr>)"

definition repin :: "nat option \<Rightarrow> 'f CallbackList \<Rightarrow> 'f CallbackList" where
  "repin p l = (case p of None \<Rightarrow> unpin l | Some a \<Rightarrow> collect (l\<lparr>pins := a # tl (pins l)\<rparr>))"

text \<open>
  The loop of \<open>doForEachIf\<close> at the node \<open>p\<close>; \<open>f\<close> invokes the callback of a node, which may change the list.
  The nodes whose callbacks were invoked are returned with the result.
\<close>

partial_function (option) forEach_loop ::
    "(nat \<Rightarrow> 'f CallbackList \<Rightarrow> (bool \<times> 'f CallbackList) option) \<Rightarrow> 64 word \<Rightarrow> nat option \<Rightarrow> 'f CallbackList \<Rightarrow>
     (bool \<times> nat list \<times> 'f CallbackList) option" where
  "forEach_loop f k p l = (case p of
       None \<Rightarrow> Some (True, [], l)
     | Some a \<Rightarrow> do {
         n \<leftarrow> nodes l a;
         let invoke = (counter n \<noteq> removedCounter \<and> counter n \<le> k);
         (go_on, l) \<leftarrow> (if invoke then f a l else Some (True, l));
         if \<not> go_on then Some (False, [a], unpin l)
         else do {
           n \<leftarrow> nodes l a;
           (r, log, l) \<leftarrow> forEach_loop f k (next_node n) (repin (next_node n) l);
           Some (r, (if invoke then a # log else log), l)
         }
       })"

definition doForEachIf ::
    "(nat \<Rightarrow> 'f CallbackList \<Rightarrow> (bool \<times> 'f CallbackList) option) \<Rightarrow> 'f CallbackList \<Rightarrow>
     (bool \<times> nat list \<times> 'f CallbackList) option" where
  "doForEachIf f l = forEach_loop f (currentCounter l) (list_head l) (pin (list_head l) l)"

section \<open>Copying, swapping, destroying\<close>

text \<open>The loop of \<open>cloneFrom\<close>: \<open>p\<close> walks through \<open>other\<close>, \<open>node\<close> is the last node made.\<close>

partial_function (option) clone_loop ::
    "'f CallbackList \<Rightarrow> 64 word \<Rightarrow> nat option \<Rightarrow> nat option \<Rightarrow> 'f CallbackList \<Rightarrow> 'f CallbackList option" where
  "clone_loop other c p node l = (case p of
       None \<Rightarrow> Some (l\<lparr>list_tail := node\<rparr>)
     | Some a \<Rightarrow> do {
         n \<leftarrow> nodes other a;
         let (nextNode, l) = make_node (callback n) c l;
         l \<leftarrow> modify nextNode (set_previous node) l;
         l \<leftarrow> (case node of Some b \<Rightarrow> modify b (set_next (Some nextNode)) l
               | None \<Rightarrow> Some (l\<lparr>list_head := Some nextNode\<rparr>));
         clone_loop other c (next_node n) (Some nextNode) l
       })"

definition cloneFrom :: "'f CallbackList \<Rightarrow> 'f CallbackList \<Rightarrow> 'f CallbackList option" where
  "cloneFrom other l = do {
     (c, l) \<leftarrow> getNextCounter l;
     clone_loop other c (list_head other) None l
   }"

definition CallbackList_copy :: "'f CallbackList \<Rightarrow> 'f CallbackList option" where
  "CallbackList_copy other = cloneFrom other CallbackList_new"

text \<open>\<open>swap\<close>; the nodes and the loops that own some of them go with the pointers.\<close>

definition swap :: "'f CallbackList \<Rightarrow> 'f CallbackList \<Rightarrow> 'f CallbackList \<times> 'f CallbackList" where
  "swap l other = (other, l)"

text \<open>The constructor from a temporary: the new list, and what the temporary is left with.\<close>

definition CallbackList_move :: "'f CallbackList \<Rightarrow> 'f CallbackList \<times> 'f CallbackList" where
  "CallbackList_move other = swap CallbackList_new other"

definition copy_assign :: "'f CallbackList \<Rightarrow> 'f CallbackList \<Rightarrow> 'f CallbackList option" where
  "copy_assign other l = map_option (\<lambda>copied. fst (swap l copied)) (CallbackList_copy other)"

text \<open>
  Assignment from a temporary: the list takes the nodes of \<open>other\<close>; the second component are its old
  nodes, of which those that still have an owner stay alive.
\<close>

definition move_assign :: "'f CallbackList \<Rightarrow> 'f CallbackList \<Rightarrow> 'f CallbackList \<times> 'f CallbackList" where
  "move_assign other l = (other, collect (l\<lparr>list_head := None, list_tail := None\<rparr>))"

partial_function (option) destroy_loop :: "nat option \<Rightarrow> 'f CallbackList \<Rightarrow> 'f CallbackList option" where
  "destroy_loop p l = (case p of
       None \<Rightarrow> Some l
     | Some a \<Rightarrow> do {
         n \<leftarrow> nodes l a;
         l \<leftarrow> modify a (set_previous None) l;
         l \<leftarrow> modify a (set_next None) l;
         destroy_loop (next_node n) (repin (next_node n) l)
       })"

text \<open>The destructor; at its end the member \<open>tail\<close> is destroyed.\<close>

definition CallbackList_destroy :: "'f CallbackList \<Rightarrow> 'f CallbackList option" where
  "CallbackList_destroy l = do {
     let node = list_head l;
     l \<leftarrow> destroy_loop node ((pin node l)\<lparr>list_head := None\<rparr>);
     Some (collect (l\<lparr>list_tail := None\<rparr>))
   }"

section \<open>Destroying nodes\<close>

lemma collect_None: "find (unowned l) [0..<fresh l] = None \<Longrightarrow> collect l = l"
  by (simp add: collect.simps)

lemma collect_Some: "find (unowned l) [0..<fresh l] = Some a \<Longrightarrow> collect l = collect (l\<lparr>nodes := (nodes l)(a := None)\<rparr>)"
  by (simp add: collect.simps)

lemma collect_fields [simp]:
  "list_head (collect l) = list_head l" "list_tail (collect l) = list_tail l" "currentCounter (collect l) = currentCounter l"
  "fresh (collect l) = fresh l" "pins (collect l) = pins l"
  by (induction l rule: collect.induct; subst collect.simps; simp split: option.split)+

lemma collect_nodes: "nodes (collect l) a = nodes l a \<or> nodes (collect l) a = None"
proof (induction l rule: collect.induct)
  case (1 l)
  show ?case
  proof (cases "find (unowned l) [0..<fresh l]")
    case None
    then show ?thesis by (simp add: collect_None)
  next
    case (Some b)
    then show ?thesis using "1.IH" [OF Some] by (auto simp: collect_Some split: if_splits)
  qed
qed

text \<open>All pointers lead to nodes that are alive.\<close>

definition alive :: "'f CallbackList \<Rightarrow> nat option \<Rightarrow> bool" where
  "alive l p \<longleftrightarrow> (\<forall>a. p = Some a \<longrightarrow> nodes l a \<noteq> None)"

definition closed :: "'f CallbackList \<Rightarrow> bool" where
  "closed l \<longleftrightarrow> alive l (list_head l) \<and> alive l (list_tail l) \<and> (\<forall>a\<in>set (pins l). nodes l a \<noteq> None) \<and>
     (\<forall>a n. nodes l a = Some n \<longrightarrow> a < fresh l \<and> alive l (previous n) \<and> alive l (next_node n))"

lemma use_count_0:
  assumes "use_count l a = 0"
  shows "list_head l \<noteq> Some a" "list_tail l \<noteq> Some a" "a \<notin> set (pins l)"
    and "nodes l b = Some n \<Longrightarrow> b < fresh l \<Longrightarrow> next_node n \<noteq> Some a \<and> previous n \<noteq> Some a"
  using assms by (auto simp: use_count_def filter_empty_conv count_list_0_iff Ball_def split: option.splits)

lemma closed_collect: "closed l \<Longrightarrow> closed (collect l)"
proof (induction l rule: collect.induct)
  case (1 l)
  show ?case
  proof (cases "find (unowned l) [0..<fresh l]")
    case None
    then show ?thesis using 1 by (simp add: collect_None)
  next
    case (Some a)
    then have "use_count l a = 0" by (auto simp: find_Some_iff unowned_def)
    note u = use_count_0 [OF this]
    have "closed (l\<lparr>nodes := (nodes l)(a := None)\<rparr>)"
      using "1.prems" u by (auto simp: closed_def alive_def)
    then show ?thesis using "1.IH" [OF Some] by (simp add: collect_Some [OF Some])
  qed
qed

text \<open>A set of nodes each of which has an owner outside or in the set is kept.\<close>

definition owned_set :: "'f CallbackList \<Rightarrow> nat set \<Rightarrow> bool" where
  "owned_set l A \<longleftrightarrow> (\<forall>a\<in>A. list_head l = Some a \<or> list_tail l = Some a \<or> a \<in> set (pins l) \<or>
     (\<exists>b\<in>A. \<exists>n. b < fresh l \<and> nodes l b = Some n \<and> (next_node n = Some a \<or> previous n = Some a)))"

lemma collect_keeps: "owned_set l A \<Longrightarrow> a \<in> A \<Longrightarrow> nodes (collect l) a = nodes l a"
proof (induction l rule: collect.induct)
  case (1 l)
  show ?case
  proof (cases "find (unowned l) [0..<fresh l]")
    case None
    then show ?thesis by (simp add: collect_None)
  next
    case (Some b)
    then have "use_count l b = 0" by (auto simp: find_Some_iff unowned_def)
    note u = use_count_0 [OF this]
    have b: "b \<notin> A" using "1.prems"(1) u unfolding owned_set_def by blast
    have "owned_set (l\<lparr>nodes := (nodes l)(b := None)\<rparr>) A"
      using "1.prems"(1) b unfolding owned_set_def by fastforce
    then have "nodes (collect (l\<lparr>nodes := (nodes l)(b := None)\<rparr>)) a = nodes l a"
      using "1.IH" [OF Some] "1.prems"(2) b by auto
    then show ?thesis by (simp add: collect_Some [OF Some])
  qed
qed

lemma collect_none_unowned: "\<not> (unowned (collect l) a \<and> a < fresh l)"
proof (induction l rule: collect.induct)
  case (1 l)
  show ?case
  proof (cases "find (unowned l) [0..<fresh l]")
    case None
    then show ?thesis by (auto simp: collect_None [OF None] find_None_iff)
  next
    case (Some b)
    then show ?thesis using "1.IH" [OF Some] by (simp add: collect_Some [OF Some])
  qed
qed

end
