(* ===== verification/CallbackSpec.thy ===== *)
theory CallbackSpec
  imports CallbackList
begin

text \<open>
  The callback list as a list of handles: the operations insert and remove in it, and the loop invokes
  the callbacks that were in the list when it started, in order, once each, whatever they do to the list.
\<close>

section \<open>Linked segments\<close>

fun first :: "nat list \<Rightarrow> nat option \<Rightarrow> nat option" where
  "first [] p = p"
| "first (a # as) p = Some a"

definition final :: "nat list \<Rightarrow> nat option \<Rightarrow> nat option" where
  "final as p = (if as = [] then p else Some (last as))"

lemma final_simps [simp]: "final [] p = p" "final (a # as) p = final as (Some a)" "final (as @ [a]) p = Some a"
  by (simp_all add: final_def)

lemma first_append [simp]: "first (as @ bs) p = first as (first bs p)"
  by (cases as) simp_all

lemma final_append: "final (as @ bs) p = final bs (final as p)"
  by (simp add: final_def)

primrec segment :: "(nat \<Rightarrow> 'f Node option) \<Rightarrow> nat option \<Rightarrow> nat list \<Rightarrow> nat option \<Rightarrow> bool" where
  "segment N p [] nx \<longleftrightarrow> True"
| "segment N p (a # as) nx \<longleftrightarrow> (\<exists>n. N a = Some n \<and> previous n = p \<and> next_node n = first as nx \<and> counter n \<noteq> 0 \<and>
     segment N (Some a) as nx)"

lemma segment_append: "segment N p (as @ bs) nx \<longleftrightarrow> segment N p as (first bs nx) \<and> segment N (final as p) bs nx"
  by (induction as arbitrary: p) auto

lemma segment_cong: "(\<And>a. a \<in> set as \<Longrightarrow> N a = M a) \<Longrightarrow> segment N p as nx = segment M p as nx"
  by (induction as arbitrary: p) auto

lemma segment_upd [simp]: "a \<notin> set as \<Longrightarrow> segment (N(a := x)) p as nx = segment N p as nx"
  by (rule segment_cong) auto

lemma segment_alive: "segment N p as nx \<Longrightarrow> a \<in> set as \<Longrightarrow> \<exists>n. N a = Some n \<and> counter n \<noteq> 0"
  by (induction as arbitrary: p) auto

definition upd_node :: "('f Node \<Rightarrow> 'f Node) \<Rightarrow> nat option \<Rightarrow> (nat \<Rightarrow> 'f Node option) \<Rightarrow> (nat \<Rightarrow> 'f Node option)" where
  "upd_node f p N = (case p of None \<Rightarrow> N | Some a \<Rightarrow> N(a := map_option f (N a)))"

lemma upd_node_simps [simp]: "upd_node f None N = N" "upd_node f (Some a) N = N(a := map_option f (N a))"
  by (simp_all add: upd_node_def)

lemma segment_set_next:
  assumes "segment N p as nx" and "distinct as"
  shows "segment (upd_node (set_next q) (final as None) N) p as q"
proof (cases as rule: rev_cases)
  case (snoc bs b)
  then show ?thesis using assms by (auto simp: snoc segment_append set_next_def)
qed simp

lemma segment_set_previous:
  assumes "segment N p as nx" and "distinct as"
  shows "segment (upd_node (set_previous q) (first as None) N) q as nx"
proof (cases as)
  case (Cons b bs)
  then show ?thesis using assms by (auto simp: Cons set_previous_def)
qed simp

section \<open>The list a callback list stands for\<close>

definition holds :: "'f CallbackList \<Rightarrow> nat list \<Rightarrow> bool" where
  "holds l as \<longleftrightarrow> distinct as \<and> segment (nodes l) None as None \<and> list_head l = first as None \<and> list_tail l = final as None \<and>
     closed l \<and> (\<forall>a n. nodes l a = Some n \<longrightarrow> (if a \<in> set as then counter n \<le> currentCounter l else counter n = 0))"

lemma modify_Some: "nodes l a = Some n \<Longrightarrow> modify a f l = Some (l\<lparr>nodes := (nodes l)(a \<mapsto> f n)\<rparr>)"
  by (simp add: modify_def)

lemma reset_counters_segment:
  assumes "segment (nodes l) p as None" and "distinct as" and "length as \<le> fuel"
  shows "reset_counters fuel (first as None) l =
     Some (l\<lparr>nodes := (\<lambda>a. if a \<in> set as then map_option (counter_update (\<lambda>_. 1)) (nodes l a) else nodes l a)\<rparr>)"
  using assms
proof (induction as arbitrary: p fuel l)
  case Nil
  then show ?case by (cases l) simp
next
  case (Cons a as)
  then obtain n f where n: "nodes l a = Some n" "next_node n = first as None" "fuel = Suc f"
    by (cases fuel) auto
  let ?l = "l\<lparr>nodes := (nodes l)(a \<mapsto> counter_update (\<lambda>_. 1) n)\<rparr>"
  have "segment (nodes ?l) (Some a) as None"
    using Cons.prems by auto
  from Cons.IH [OF this] have IH: "reset_counters f (first as None) ?l =
     Some (?l\<lparr>nodes := (\<lambda>b. if b \<in> set as then map_option (counter_update (\<lambda>_. 1)) (nodes ?l b) else nodes ?l b)\<rparr>)"
    using Cons.prems n by simp
  have "a \<notin> set as" using Cons.prems by simp
  then have eq: "(\<lambda>b. if b \<in> set as then map_option (counter_update (\<lambda>_. 1)) (nodes ?l b) else nodes ?l b) =
      (\<lambda>b. if b \<in> set (a # as) then map_option (counter_update (\<lambda>_. 1)) (nodes l b) else nodes l b)"
    using n(1) by auto
  show ?case using IH n modify_Some [of l a n] by (simp add: eq [simplified])
qed


lemma length_holds: "holds l as \<Longrightarrow> length as \<le> fresh l"
proof -
  assume h: "holds l as"
  then have "set as \<subseteq> {..<fresh l}"
    using segment_alive [of "nodes l" None as None] by (fastforce simp: holds_def closed_def)
  then have "card (set as) \<le> card {..<fresh l}" by (intro card_mono) simp_all
  then show ?thesis using h by (simp add: holds_def distinct_card)
qed

lemma closed_same:
  assumes "closed l"
    and "\<And>a. map_option (\<lambda>n. (previous n, next_node n)) (N a) = map_option (\<lambda>n. (previous n, next_node n)) (nodes l a)"
  shows "closed (l\<lparr>nodes := N, currentCounter := c\<rparr>)"
proof -
  have dom: "N a \<noteq> None \<longleftrightarrow> nodes l a \<noteq> None" for a using assms(2) [of a] by (cases "N a"; cases "nodes l a") auto
  have "\<exists>m. nodes l a = Some m \<and> previous m = previous n \<and> next_node m = next_node n" if "N a = Some n" for a n
    using assms(2) [of a] that by (cases "nodes l a") auto
  then have "a < fresh l \<and> alive l (previous n) \<and> alive l (next_node n)" if "N a = Some n" for a n
    using assms(1) that unfolding closed_def by metis
  then show ?thesis using assms(1) dom unfolding closed_def alive_def by simp
qed

text \<open>\<open>m\<close> is \<open>l\<close> after the counter has been increased.\<close>

definition counted :: "'f CallbackList \<Rightarrow> nat list \<Rightarrow> 'f CallbackList \<Rightarrow> bool" where
  "counted l as m \<longleftrightarrow> holds m as \<and> currentCounter m \<noteq> 0 \<and> fresh m = fresh l \<and> pins m = pins l \<and>
     (\<forall>a. map_option (counter_update (\<lambda>_. 0)) (nodes m a) = map_option (counter_update (\<lambda>_. 0)) (nodes l a)) \<and>
     (\<forall>a. a \<notin> set as \<longrightarrow> nodes m a = nodes l a) \<and>
     (currentCounter l + 1 \<noteq> 0 \<longrightarrow> m = l\<lparr>currentCounter := currentCounter l + 1\<rparr>)"

text \<open>\<open>getNextCounter\<close> changes the counters of the nodes in the list when the counter overflows.\<close>

lemma getNextCounter_counted:
  assumes h: "holds l as"
  obtains m where "counted l as m" "getNextCounter l = Some (currentCounter m, m)"
proof (cases "currentCounter l + 1 = 0")
  case True
  let ?N = "\<lambda>a. if a \<in> set as then map_option (counter_update (\<lambda>_. 1)) (nodes l a) else nodes l a"
  let ?m = "l\<lparr>nodes := ?N, currentCounter := 1\<rparr>"
  have "reset_counters (fresh l) (list_head l) (l\<lparr>currentCounter := 0\<rparr>) = Some (l\<lparr>currentCounter := 0, nodes := ?N\<rparr>)"
    using reset_counters_segment [of "l\<lparr>currentCounter := 0\<rparr>" None as "fresh l"] h length_holds [OF h]
    by (simp add: holds_def cong: if_cong)
  then have g: "getNextCounter l = Some (currentCounter ?m, ?m)"
    using True by (simp add: getNextCounter_def)
  have seg: "segment N p bs None \<Longrightarrow> set bs \<subseteq> A \<Longrightarrow>
      segment (\<lambda>a. if a \<in> A then map_option (counter_update (\<lambda>_. 1)) (N a) else N a) p bs None" for N :: "nat \<Rightarrow> 'a Node option" and p bs A
    by (induction bs arbitrary: p) auto
  have "holds ?m as"
    using h seg [of "nodes l" None as "set as"] closed_same [of l ?N 1] by (auto simp: holds_def option.map_comp comp_def)
  then have "counted l as ?m" using True by (simp add: counted_def option.map_comp comp_def)
  then show thesis by (rule that [OF _ g])
next
  case False
  let ?m = "l\<lparr>currentCounter := currentCounter l + 1\<rparr>"
  have g: "getNextCounter l = Some (currentCounter ?m, ?m)"
    using False by (simp add: getNextCounter_def)
  have "c \<le> currentCounter l \<Longrightarrow> c \<le> currentCounter l + 1" for c
    using False unatSuc [of "currentCounter l"] by (simp add: word_le_nat_alt add.commute)
  then have "holds ?m as"
    using h closed_same [of l "nodes l"] by (auto simp: holds_def split: if_splits)
  then have "counted l as ?m" using False by (simp add: counted_def)
  then show thesis by (rule that [OF _ g])
qed

section \<open>Linking and unlinking a node\<close>

definition linked :: "'f \<Rightarrow> nat list \<Rightarrow> nat list \<Rightarrow> 'f CallbackList \<Rightarrow> 'f CallbackList" where
  "linked f xs ys l = l\<lparr>nodes := upd_node (set_next (Some (fresh l))) (final xs None)
       (upd_node (set_previous (Some (fresh l))) (first ys None)
         ((nodes l)(fresh l \<mapsto> \<lparr>callback = f, counter = currentCounter l, previous = final xs None, next_node = first ys None\<rparr>))),
     list_head := first xs (Some (fresh l)), list_tail := final ys (Some (fresh l)), fresh := Suc (fresh l)\<rparr>"

definition unlinked :: "nat list \<Rightarrow> nat \<Rightarrow> nat list \<Rightarrow> 'f CallbackList \<Rightarrow> 'f CallbackList" where
  "unlinked xs b ys l = l\<lparr>nodes := upd_node (counter_update (\<lambda>_. 0)) (Some b)
       (upd_node (set_next (first ys None)) (final xs None)
         (upd_node (set_previous (final xs None)) (first ys None) (nodes l))),
     list_head := first (xs @ ys) None, list_tail := final (xs @ ys) None\<rparr>"

lemma final_in [simp]: "final xs None = Some a \<Longrightarrow> a \<in> set xs"
  by (auto simp: final_def split: if_splits)

lemma first_in [simp]: "first xs None = Some a \<Longrightarrow> a \<in> set xs"
  by (cases xs) auto

lemma holds_alive: "holds l as \<Longrightarrow> a \<in> set as \<Longrightarrow> \<exists>n. nodes l a = Some n \<and> counter n \<noteq> 0 \<and> a < fresh l"
  using segment_alive [of "nodes l" None as None a] by (fastforce simp: holds_def closed_def)

lemma holds_iff: "holds l as \<Longrightarrow> a \<in> set as \<longleftrightarrow> (\<exists>n. nodes l a = Some n \<and> counter n \<noteq> 0)"
  using holds_alive [of l as a] by (metis holds_def)

lemma upd_node_Some: "upd_node g p N a = Some n \<longleftrightarrow> (if p = Some a then \<exists>m. N a = Some m \<and> n = g m else N a = Some n)"
  by (auto simp: upd_node_def split: option.splits)

lemma upd_node_None [simp]: "upd_node g p N a = None \<longleftrightarrow> N a = None"
  by (auto simp: upd_node_def split: option.splits)

lemma upd_node_other: "p \<noteq> Some a \<Longrightarrow> upd_node g p N a = N a"
  by (auto simp: upd_node_def split: option.splits)

lemma segment_upd_node: "(\<And>a. p = Some a \<Longrightarrow> a \<notin> set as) \<Longrightarrow> segment (upd_node g p N) q as nx = segment N q as nx"
  by (rule segment_cong) (metis upd_node_other)

lemma linked_segment:
  assumes "holds l (xs @ ys)" and "currentCounter l \<noteq> 0"
  shows "segment (nodes (linked f xs ys l)) None (xs @ fresh l # ys) None"
proof -
  let ?a = "fresh l"
  let ?N = "(nodes l)(?a \<mapsto> \<lparr>callback = f, counter = currentCounter l, previous = final xs None, next_node = first ys None\<rparr>)"
  let ?M = "upd_node (set_previous (Some ?a)) (first ys None) ?N"
  have a: "?a \<notin> set xs" "?a \<notin> set ys" using holds_alive [OF assms(1)] by fastforce+
  have d: "distinct xs" "distinct ys" "set xs \<inter> set ys = {}" using assms(1) by (auto simp: holds_def)
  have s: "segment ?N None xs (first ys None)" "segment ?N (final xs None) ys None"
    using assms(1) a by (simp_all add: holds_def segment_append)
  have 1: "segment ?M (Some ?a) ys None" using segment_set_previous [OF s(2) d(2)] .
  have 2: "segment ?M None xs (first ys None)" using s(1) segment_upd_node d(3) first_in by (metis disjoint_iff)
  have 3: "segment (upd_node (set_next (Some ?a)) (final xs None) ?M) None xs (Some ?a)"
    using segment_set_next [OF 2 d(1)] .
  have 4: "segment (upd_node (set_next (Some ?a)) (final xs None) ?M) (Some ?a) ys None"
    using 1 segment_upd_node d(3) final_in by (metis disjoint_iff)
  have "first ys None \<noteq> Some ?a" "final xs None \<noteq> Some ?a" using a first_in final_in by metis+
  then show ?thesis using 3 4 assms(2) by (simp add: linked_def segment_append upd_node_other)
qed

text \<open>A change of the nodes that keeps them alive and sets pointers only to nodes that are alive.\<close>

lemma closed_change:
  assumes c: "closed l" and f: "fresh l \<le> fresh l'" and p: "pins l' = pins l"
    and dom: "\<And>a. nodes l a \<noteq> None \<Longrightarrow> nodes l' a \<noteq> None"
    and ht: "alive l' (list_head l')" "alive l' (list_tail l')"
    and n: "\<And>a n. nodes l' a = Some n \<Longrightarrow> a < fresh l' \<and>
      (alive l' (previous n) \<or> (\<exists>m. nodes l a = Some m \<and> previous n = previous m)) \<and>
      (alive l' (next_node n) \<or> (\<exists>m. nodes l a = Some m \<and> next_node n = next_node m))"
  shows "closed l'"
proof -
  have al: "alive l q \<Longrightarrow> alive l' q" for q using dom by (auto simp: alive_def)
  have "a < fresh l' \<and> alive l' (previous n) \<and> alive l' (next_node n)" if "nodes l' a = Some n" for a n
    using n [OF that] al c by (metis closed_def)
  then show ?thesis using c ht p dom by (simp add: closed_def)
qed

lemma linked_closed:
  assumes "holds l (xs @ ys)"
  shows "closed (linked f xs ys l)"
proof (rule closed_change [of l])
  let ?l = "linked f xs ys l"
  have in_list: "alive ?l (Some a)" if "a \<in> set xs \<union> set ys" for a
    using that holds_alive [OF assms, of a] by (auto simp: linked_def alive_def)
  have new: "alive ?l (Some (fresh l))" by (simp add: linked_def alive_def)
  have first: "alive ?l (first zs q)" if "set zs \<subseteq> set xs \<union> set ys" "alive ?l q" for zs q
    using that in_list by (cases zs) auto
  have final: "alive ?l (final zs q)" if "set zs \<subseteq> set xs \<union> set ys" "alive ?l q" for zs q
    using that in_list by (cases zs rule: rev_cases) auto
  have None: "alive ?l None" by (simp add: alive_def)
  show "alive ?l (list_head ?l)" using first [OF _ new, of xs] by (simp add: linked_def)
  show "alive ?l (list_tail ?l)" using final [OF _ new, of ys] by (simp add: linked_def)
  show "a < fresh ?l \<and> (alive ?l (previous n) \<or> (\<exists>m. nodes l a = Some m \<and> previous n = previous m)) \<and>
      (alive ?l (next_node n) \<or> (\<exists>m. nodes l a = Some m \<and> next_node n = next_node m))" if n: "nodes ?l a = Some n" for a n
  proof (cases "a = fresh l")
    case True
    have ne: "final xs None \<noteq> Some a" "first ys None \<noteq> Some a"
      using holds_alive [OF assms, of a] True final_in first_in by (metis UnI1 UnI2 less_irrefl set_append)+
    then have "n = \<lparr>callback = f, counter = currentCounter l, previous = final xs None, next_node = first ys None\<rparr>"
      using n True by (simp add: linked_def upd_node_other)
    then show ?thesis using True final [OF _ None, of xs] first [OF _ None, of ys] by (simp add: linked_def)
  next
    case False
    then obtain m where m: "nodes l a = Some m" "previous n = previous m \<or> previous n = Some (fresh l)"
        "next_node n = next_node m \<or> next_node n = Some (fresh l)"
      using n by (auto simp: linked_def upd_node_Some set_previous_def set_next_def split: if_splits)
    have "a < fresh ?l" using assms m(1) by (auto simp: holds_def closed_def linked_def less_Suc_eq)
    then show ?thesis using m new by metis
  qed
qed (use assms in \<open>auto simp: holds_def linked_def\<close>)

lemma linked_simps [simp]:
  "nodes (linked f xs ys l) a = None \<longleftrightarrow> a \<noteq> fresh l \<and> nodes l a = None" "fresh (linked f xs ys l) = Suc (fresh l)"
  "pins (linked f xs ys l) = pins l" "currentCounter (linked f xs ys l) = currentCounter l"
  by (simp_all add: linked_def)

lemma holds_linked:
  assumes "holds l (xs @ ys)" and "currentCounter l \<noteq> 0"
  shows "holds (linked f xs ys l) (xs @ fresh l # ys)"
proof -
  have a: "fresh l \<notin> set xs" "fresh l \<notin> set ys" using holds_alive [OF assms(1)] by fastforce+
  have "if b \<in> set (xs @ fresh l # ys) then counter n \<le> currentCounter l else counter n = 0"
    if "nodes (linked f xs ys l) b = Some n" for b n
  proof (cases "b = fresh l")
    case True
    have "final xs None \<noteq> Some b" "first ys None \<noteq> Some b" using a True final_in first_in by metis+
    then show ?thesis using that True by (auto simp: linked_def upd_node_other)
  next
    case False
    have "\<exists>m. nodes l b = Some m \<and> counter m = counter n"
      using that False by (auto simp: linked_def upd_node_Some set_previous_def set_next_def split: if_splits)
    then show ?thesis using assms(1) False unfolding holds_def by fastforce
  qed
  moreover have "list_head (linked f xs ys l) = first (xs @ fresh l # ys) None"
    "list_tail (linked f xs ys l) = final (xs @ fresh l # ys) None" "currentCounter (linked f xs ys l) = currentCounter l"
    by (simp_all add: linked_def final_append)
  moreover have "distinct (xs @ fresh l # ys)" using assms(1) a by (simp add: holds_def)
  ultimately show ?thesis
    using linked_segment [OF assms] linked_closed [OF assms(1)] unfolding holds_def by metis
qed

lemma doAllocateNode_counted:
  assumes "holds l as"
  obtains m where "counted l as m" "doAllocateNode f l = Some (fresh m, m\<lparr>nodes := (nodes m)(fresh m \<mapsto>
      \<lparr>callback = f, counter = currentCounter m, previous = None, next_node = None\<rparr>), fresh := fresh m + 1\<rparr>)"
proof -
  obtain m where m: "counted l as m" "getNextCounter l = Some (currentCounter m, m)"
    by (rule getNextCounter_counted [OF assms])
  then show thesis by (intro that [OF m(1)]) (simp add: doAllocateNode_def make_node_def)
qed

lemma append_linked:
  assumes "holds l as"
  obtains m where "counted l as m" "append f l = Some (fresh l, linked f as [] m)"
proof -
  obtain m where m: "counted l as m" "doAllocateNode f l = Some (fresh m, m\<lparr>nodes := (nodes m)(fresh m \<mapsto>
      \<lparr>callback = f, counter = currentCounter m, previous = None, next_node = None\<rparr>), fresh := fresh m + 1\<rparr>)"
    by (rule doAllocateNode_counted [OF assms])
  then have h: "holds m as" "fresh m = fresh l" by (simp_all add: counted_def)
  show thesis
  proof (cases as rule: rev_cases)
    case Nil
    then have "append f l = Some (fresh m, linked f as [] m)"
      using m(2) h(1) by (simp add: append_def linked_def holds_def)
    then show thesis by (rule that [OF m(1), folded h(2)])
  next
    case (snoc bs b)
    then obtain n where n: "nodes m b = Some n" "b < fresh m" using holds_alive [OF h(1)] by auto
    have "list_head m = Some (hd as)" "list_tail m = Some b"
      using h(1) snoc by (cases bs; simp add: holds_def)+
    then have "append f l = Some (fresh m, linked f as [] m)"
      using n snoc m(2) by (simp add: append_def linked_def modify_def set_previous_def set_next_def) (cases bs; simp)
    then show thesis by (rule that [OF m(1), folded h(2)])
  qed
qed

lemma prepend_linked:
  assumes "holds l as"
  obtains m where "counted l as m" "prepend f l = Some (fresh l, linked f [] as m)"
proof -
  obtain m where m: "counted l as m" "doAllocateNode f l = Some (fresh m, m\<lparr>nodes := (nodes m)(fresh m \<mapsto>
      \<lparr>callback = f, counter = currentCounter m, previous = None, next_node = None\<rparr>), fresh := fresh m + 1\<rparr>)"
    by (rule doAllocateNode_counted [OF assms])
  then have h: "holds m as" "fresh m = fresh l" by (simp_all add: counted_def)
  show thesis
  proof (cases as)
    case Nil
    then have "prepend f l = Some (fresh m, linked f [] as m)"
      using m(2) h(1) by (simp add: prepend_def linked_def holds_def)
    then show thesis by (rule that [OF m(1), folded h(2)])
  next
    case (Cons b bs)
    then obtain n where n: "nodes m b = Some n" "b < fresh m" using holds_alive [OF h(1)] by auto
    have "list_head m = Some b" "list_tail m = final bs (Some b)"
      using h(1) Cons by (auto simp: holds_def)
    then have "prepend f l = Some (fresh m, linked f [] as m)"
      using n Cons m(2) by (simp add: prepend_def linked_def modify_def set_previous_def set_next_def final_def)
    then show thesis by (rule that [OF m(1), folded h(2)])
  qed
qed

lemma segment_middle:
  assumes "holds l (xs @ b # ys)"
  obtains n where "nodes l b = Some n" "previous n = final xs None" "next_node n = first ys None" "counter n \<noteq> 0"
  using assms by (auto simp: holds_def segment_append)

lemma insert_linked:
  assumes "holds l (xs @ b # ys)"
  obtains m where "counted l (xs @ b # ys) m" "insert f b l = Some (fresh l, linked f xs (b # ys) m)"
proof -
  obtain m where m: "counted l (xs @ b # ys) m" "doAllocateNode f l = Some (fresh m, m\<lparr>nodes := (nodes m)(fresh m \<mapsto>
      \<lparr>callback = f, counter = currentCounter m, previous = None, next_node = None\<rparr>), fresh := fresh m + 1\<rparr>)"
    by (rule doAllocateNode_counted [OF assms])
  then have h: "holds m (xs @ b # ys)" "fresh m = fresh l" by (simp_all add: counted_def)
  obtain n where n: "nodes m b = Some n" "previous n = final xs None" by (rule segment_middle [OF h(1)])
  have b: "b < fresh m" "\<not> expired l b" using holds_alive [OF h(1), of b] holds_alive [OF assms, of b] by (auto simp: expired_def)
  have d: "b \<notin> set xs" using h(1) by (simp add: holds_def)
  have t: "list_head m = first xs (Some b)" "list_tail m = final ys (Some b)" using h(1) by (simp_all add: holds_def final_append)
  have "insert f b l = Some (fresh m, linked f xs (b # ys) m)"
  proof (cases xs rule: rev_cases)
    case Nil
    then show ?thesis
      using n b t m(2) by (simp add: insert_def doInsert_def linked_def modify_def set_previous_def set_next_def fun_upd_twist)
  next
    case (snoc us u)
    then obtain k where k: "nodes m u = Some k" "u < fresh m" using holds_alive [OF h(1), of u] by auto
    have "first xs (Some b) \<noteq> Some b" "first xs (Some b) = first xs (Some (fresh m))" "u \<noteq> b" using snoc d by (cases us; auto)+
    then show ?thesis
      using n b t m(2) k snoc
      by (simp add: insert_def doInsert_def linked_def modify_def set_previous_def set_next_def fun_upd_twist)
  qed
  then show thesis by (rule that [OF m(1), folded h(2)])
qed

lemma insert_expired: "expired l b \<Longrightarrow> insert f b l = append f l"
  by (simp add: insert_def)

lemma unlinked_segment:
  assumes "holds l (xs @ b # ys)"
  shows "segment (nodes (unlinked xs b ys l)) None (xs @ ys) None"
proof -
  let ?M = "upd_node (set_previous (final xs None)) (first ys None) (nodes l)"
  have d: "distinct xs" "distinct ys" "set xs \<inter> set ys = {}" "b \<notin> set xs" "b \<notin> set ys" using assms by (auto simp: holds_def)
  have s: "segment (nodes l) None xs (Some b)" "segment (nodes l) (Some b) ys None"
    using assms by (auto simp: holds_def segment_append)
  have 1: "segment ?M (final xs None) ys None" using segment_set_previous [OF s(2) d(2)] .
  have 2: "segment ?M None xs (Some b)" using s(1) segment_upd_node d(3) first_in by (metis disjoint_iff)
  have 3: "segment (upd_node (set_next (first ys None)) (final xs None) ?M) None xs (first ys None)"
    using segment_set_next [OF 2 d(1)] .
  have 4: "segment (upd_node (set_next (first ys None)) (final xs None) ?M) (final xs None) ys None"
    using 1 segment_upd_node d(3) final_in by (metis disjoint_iff)
  show ?thesis using 3 4 d(4,5) by (simp add: unlinked_def segment_append)
qed

lemma unlinked_simps [simp]:
  "nodes (unlinked xs b ys l) a = None \<longleftrightarrow> nodes l a = None" "list_head (unlinked xs b ys l) = first (xs @ ys) None"
  "list_tail (unlinked xs b ys l) = final (xs @ ys) None" "currentCounter (unlinked xs b ys l) = currentCounter l"
  "fresh (unlinked xs b ys l) = fresh l" "pins (unlinked xs b ys l) = pins l"
  by (simp_all add: unlinked_def del: upd_node_simps)

lemma unlinked_closed:
  assumes "holds l (xs @ b # ys)"
  shows "closed (unlinked xs b ys l)"
proof (rule closed_change [of l])
  let ?l = "unlinked xs b ys l"
  have in_list: "alive ?l (Some a)" if "a \<in> set xs \<union> set ys" for a
    using that holds_alive [OF assms, of a] by (auto simp: alive_def)
  have first: "alive ?l (first zs None)" if "set zs \<subseteq> set xs \<union> set ys" for zs
    using that in_list by (cases zs) (auto simp: alive_def)
  have final: "alive ?l (final zs None)" if "set zs \<subseteq> set xs \<union> set ys" for zs
    using that in_list by (cases zs rule: rev_cases) (auto simp: alive_def)
  show "alive ?l (list_head ?l)" using first [of "xs @ ys"] by simp
  show "alive ?l (list_tail ?l)" using final [of "xs @ ys"] by simp
  show "a < fresh ?l \<and> (alive ?l (previous n) \<or> (\<exists>m. nodes l a = Some m \<and> previous n = previous m)) \<and>
      (alive ?l (next_node n) \<or> (\<exists>m. nodes l a = Some m \<and> next_node n = next_node m))" if n: "nodes ?l a = Some n" for a n
  proof -
    obtain m where m: "nodes l a = Some m" "previous n = previous m \<or> previous n = final xs None"
        "next_node n = next_node m \<or> next_node n = first ys None"
      using n by (auto simp: unlinked_def upd_node_Some set_previous_def set_next_def split: if_splits)
    have "a < fresh ?l" using assms m(1) by (auto simp: holds_def closed_def)
    then show ?thesis using m first [of ys] final [of xs] by auto
  qed
qed (use assms in \<open>auto simp: holds_def\<close>)

lemma holds_unlinked:
  assumes "holds l (xs @ b # ys)"
  shows "holds (unlinked xs b ys l) (xs @ ys)"
proof -
  have "if a \<in> set (xs @ ys) then counter n \<le> currentCounter l else counter n = 0"
    if n: "nodes (unlinked xs b ys l) a = Some n" for a n
  proof (cases "a = b")
    case True
    then show ?thesis using n assms by (auto simp: unlinked_def holds_def)
  next
    case False
    have "\<exists>m. nodes l a = Some m \<and> counter m = counter n"
      using n False by (auto simp: unlinked_def upd_node_Some set_previous_def set_next_def split: if_splits)
    then show ?thesis using assms False unfolding holds_def by fastforce
  qed
  moreover have "distinct (xs @ ys)" using assms by (simp add: holds_def)
  ultimately show ?thesis
    using unlinked_segment [OF assms] unlinked_closed [OF assms] unfolding holds_def unlinked_simps by blast
qed

lemma segment_owned:
  "segment N p as nx \<Longrightarrow> a \<in> set as \<Longrightarrow> first as nx = Some a \<or> (\<exists>b\<in>set as. \<exists>n. N b = Some n \<and> next_node n = Some a)"
proof (induction as arbitrary: p)
  case (Cons b as)
  then show ?case by (cases "a = b") auto
qed simp

lemma segment_ptrs:
  assumes "segment N p as nx" and "a \<in> set as" and "N a = Some n"
  shows "previous n = p \<or> previous n \<in> Some ` set as" and "next_node n = nx \<or> next_node n \<in> Some ` set as"
  using assms
proof (induction as arbitrary: p)
  case (Cons b as)
  { case 1 then show ?case using Cons.IH(1) [of "Some b"] by auto }
  { case 2 then show ?case using Cons.IH(2) [of "Some b"] by (cases as) auto }
qed simp_all

lemma holds_collect:
  assumes "holds l as"
  shows "holds (collect l) as"
proof -
  have "owned_set l (set as)"
    unfolding owned_set_def
  proof
    fix a assume a: "a \<in> set as"
    have "first as None = Some a \<or> (\<exists>b\<in>set as. \<exists>n. nodes l b = Some n \<and> next_node n = Some a)"
      by (rule segment_owned [of _ None]) (use assms a in \<open>simp_all add: holds_def\<close>)
    moreover have "list_head l = first as None" using assms by (simp add: holds_def)
    moreover have "b < fresh l" if "b \<in> set as" for b using holds_alive [OF assms that] by blast
    ultimately show "list_head l = Some a \<or> list_tail l = Some a \<or> a \<in> set (pins l) \<or>
        (\<exists>b\<in>set as. \<exists>n. b < fresh l \<and> nodes l b = Some n \<and> (next_node n = Some a \<or> previous n = Some a))"
      by metis
  qed
  note keep = collect_keeps [OF this]
  have "segment (nodes (collect l)) None as None"
    using assms segment_cong [of as "nodes (collect l)" "nodes l"] keep by (simp add: holds_def)
  moreover have "nodes l a = Some n" if "nodes (collect l) a = Some n" for a n
    using that collect_nodes [of l a] by auto
  ultimately show ?thesis using assms closed_collect [of l] unfolding holds_def collect_fields by blast
qed

lemma doFreeNode_unlinked:
  assumes "holds l (xs @ b # ys)"
  shows "doFreeNode b l = Some (unlinked xs b ys l)"
proof -
  obtain n where n: "nodes l b = Some n" "previous n = final xs None" "next_node n = first ys None"
    by (rule segment_middle [OF assms])
  have d: "b \<notin> set xs" "b \<notin> set ys" "distinct xs" "distinct ys" "set xs \<inter> set ys = {}" using assms by (auto simp: holds_def)
  have ht: "list_head l = first xs (Some b)" "list_tail l = final ys (Some b)" using assms by (simp_all add: holds_def final_append)
  have h: "(if first xs (Some b) = Some b then first ys None else first xs (Some b)) = first xs (first ys None)"
    using d(1) by (cases xs) auto
  have t: "(if final ys (Some b) = Some b then final xs None else final ys (Some b)) = final (xs @ ys) None"
    using d(2) by (cases ys rule: rev_cases) (auto simp: final_append)
  have ex: "\<exists>k. nodes l a = Some k" if "a \<in> set xs \<union> set ys" for a
    using that holds_alive [OF assms, of a] by auto
  define N1 where "N1 = upd_node (set_previous (final xs None)) (first ys None) (nodes l)"
  define N2 where "N2 = upd_node (set_next (first ys None)) (final xs None) N1"
  have "first ys None \<noteq> Some b" "final xs None \<noteq> Some b" using d first_in final_in by metis+
  then have b: "N1 b = Some n" "N2 b = Some n" using n(1) by (simp_all add: N1_def N2_def upd_node_other)
  have 1: "(case first ys None of Some x \<Rightarrow> modify x (set_previous (final xs None)) l | None \<Rightarrow> Some l) = Some (l\<lparr>nodes := N1\<rparr>)"
  proof (cases ys)
    case (Cons y zs)
    then obtain k where "nodes l y = Some k" using ex by auto
    then show ?thesis using Cons by (simp add: N1_def modify_def)
  qed (simp add: N1_def)
  have 2: "(case final xs None of Some x \<Rightarrow> modify x (set_next (first ys None)) (l\<lparr>nodes := N1\<rparr>) | None \<Rightarrow> Some (l\<lparr>nodes := N1\<rparr>))
      = Some (l\<lparr>nodes := N2\<rparr>)"
  proof (cases xs rule: rev_cases)
    case (snoc us u)
    obtain k where k: "nodes l u = Some k" using ex snoc by auto
    have "first ys None \<noteq> Some u" using d(5) snoc first_in by (metis IntI UnI2 empty_iff list.set_intros(1) set_append)
    then have "N1 u = Some k" using k by (simp add: N1_def upd_node_other)
    then show ?thesis using snoc by (simp add: N2_def modify_def)
  qed (simp add: N2_def)
  have 3: "(if list_head k = Some b then k\<lparr>list_head := p\<rparr> else k) = k\<lparr>list_head := if list_head k = Some b then p else list_head k\<rparr>"
    "(if list_tail k = Some b then k\<lparr>list_tail := p\<rparr> else k) = k\<lparr>list_tail := if list_tail k = Some b then p else list_tail k\<rparr>"
    for k :: "'a CallbackList" and p by simp_all
  have "doFreeNode b l = modify b (counter_update (\<lambda>_. removedCounter))
      (l\<lparr>nodes := N2, list_head := first (xs @ ys) None, list_tail := final (xs @ ys) None\<rparr>)"
    unfolding doFreeNode_def 3 using n b 1 2 ht h t by (simp add: Let_def cong: option.case_cong) (auto split: if_splits)
  then show ?thesis using b(2) by (simp add: modify_def unlinked_def removedCounter_def N1_def [symmetric] N2_def [symmetric])
qed

lemma remove_unlinked:
  assumes "holds l (xs @ b # ys)"
  shows "remove b l = Some (True, collect (unlinked xs b ys l))"
  using doFreeNode_unlinked [OF assms] holds_alive [OF assms, of b] by (auto simp: remove_def expired_def)

lemma remove_expired: "expired l b \<Longrightarrow> remove b l = Some (False, l)"
  by (simp add: remove_def)

lemma use_count_pos:
  assumes "use_count l b \<noteq> 0" and "list_head l \<noteq> Some b" "list_tail l \<noteq> Some b" "count_list (pins l) b = 0"
  obtains a n where "nodes l a = Some n" "next_node n = Some b \<or> previous n = Some b"
proof -
  have "\<exists>a. (case nodes l a of None \<Rightarrow> False | Some n \<Rightarrow> next_node n = Some b) \<or>
      (case nodes l a of None \<Rightarrow> False | Some n \<Rightarrow> previous n = Some b)"
    using assms unfolding use_count_def by (auto simp: filter_empty_conv)
  then obtain a where "(case nodes l a of None \<Rightarrow> False | Some n \<Rightarrow> next_node n = Some b) \<or>
      (case nodes l a of None \<Rightarrow> False | Some n \<Rightarrow> previous n = Some b)" ..
  then show thesis by (cases "nodes l a") (auto intro: that)
qed

section \<open>Without a running loop all nodes are in the list\<close>

definition exact :: "'f CallbackList \<Rightarrow> nat list \<Rightarrow> bool" where
  "exact l as \<longleftrightarrow> holds l as \<and> pins l = [] \<and> (\<forall>a. nodes l a = None \<longleftrightarrow> a \<notin> set as)"

lemma exact_linked:
  assumes "exact l (xs @ ys)" and "counted l (xs @ ys) m"
  shows "exact (linked f xs ys m) (xs @ fresh l # ys)"
proof -
  have m: "holds m (xs @ ys)" "currentCounter m \<noteq> 0" "fresh m = fresh l" "pins m = pins l"
    "\<And>a. nodes m a = None \<longleftrightarrow> nodes l a = None"
    using assms(2) unfolding counted_def by (simp, simp, simp, simp, metis option.map_disc_iff)
  then show ?thesis using assms(1) holds_linked [OF m(1,2), of f] by (auto simp: exact_def)
qed

lemma exact_unlinked:
  assumes "exact l (xs @ b # ys)"
  shows "exact (collect (unlinked xs b ys l)) (xs @ ys)"
proof -
  let ?u = "unlinked xs b ys l" and ?c = "collect (unlinked xs b ys l)"
  have h: "holds l (xs @ b # ys)" "pins l = []" "\<And>a. nodes l a = None \<longleftrightarrow> a \<notin> set (xs @ b # ys)"
    using assms by (simp_all add: exact_def)
  have c: "holds ?c (xs @ ys)" using holds_collect [OF holds_unlinked [OF h(1)]] .
  have b: "b \<notin> set xs" "b \<notin> set ys" "b < fresh l" using h(1) holds_alive [OF h(1), of b] by (auto simp: holds_def)
  obtain n where n: "nodes l b = Some n" "previous n = final xs None" "next_node n = first ys None"
    by (rule segment_middle [OF h(1)])
  have "nodes ?c b = None"
  proof (rule ccontr)
    assume "nodes ?c b \<noteq> None"
    then have "use_count ?c b \<noteq> 0" using collect_none_unowned [of ?u b] b(3) by (auto simp: unowned_def)
    moreover have "list_head ?c \<noteq> Some b" "list_tail ?c \<noteq> Some b" "count_list (pins ?c) b = 0"
      using b(1,2) h(2) first_in [of "xs @ ys" b] final_in [of "xs @ ys" b] by auto
    ultimately obtain a m where a: "nodes ?c a = Some m" "next_node m = Some b \<or> previous m = Some b"
      by (rule use_count_pos)
    show False
    proof (cases "a \<in> set (xs @ ys)")
      case True
      have "segment (nodes ?c) None (xs @ ys) None" using c by (simp add: holds_def)
      from segment_ptrs [OF this True a(1)] show False using a(2) b(1,2) by auto
    next
      case False
      have u: "nodes ?u a = Some m" using a(1) collect_nodes [of ?u a] by auto
      then have "nodes l a \<noteq> None" using unlinked_simps(1) by (metis option.distinct(1))
      then have "a = b" using h(3) [of a] False by auto
      moreover have "first ys None \<noteq> Some b" "final xs None \<noteq> Some b" using b first_in final_in by metis+
      ultimately have "previous m = final xs None" "next_node m = first ys None"
        using u n by (simp_all add: unlinked_def upd_node_other) auto
      then show False using a(2) \<open>first ys None \<noteq> Some b\<close> \<open>final xs None \<noteq> Some b\<close> by auto
    qed
  qed
  moreover have "nodes l a \<noteq> None" if "nodes ?c a \<noteq> None" for a
    using that collect_nodes [of ?u a] unlinked_simps(1) by metis
  moreover have "nodes ?c a \<noteq> None" if "a \<in> set (xs @ ys)" for a
    using holds_alive [OF c that] by auto
  moreover have "a \<in> set (xs @ b # ys) \<longleftrightarrow> a = b \<or> a \<in> set (xs @ ys)" for a by auto
  ultimately have "nodes ?c a = None \<longleftrightarrow> a \<notin> set (xs @ ys)" for a using h(3) [of a] b(1,2) by metis
  then show ?thesis using c h(2) by (simp add: exact_def)
qed

end
