(* ===== verification/Refinement.thy ===== *)
theory Refinement
  imports Main "HOL-Library.Monad_Syntax"
begin

text \<open>
  Sequences of operations, each of which may fail and gives a result, and the interface between an
  implementation and its specification: every operation of the implementation returns, with the result and
  to a state that the specification gives.
\<close>

primrec runs :: "('x \<Rightarrow> 's \<Rightarrow> ('r \<times> 's) option) \<Rightarrow> 'x list \<Rightarrow> 's \<Rightarrow> ('r list \<times> 's) option" where
  "runs step [] s = Some ([], s)"
| "runs step (x # xs) s = do {
     (r, s) \<leftarrow> step x s;
     (rs, s) \<leftarrow> runs step xs s;
     Some (r # rs, s)
   }"

primrec spec_runs :: "('x \<Rightarrow> 'a \<Rightarrow> 'r \<times> 'a) \<Rightarrow> 'x list \<Rightarrow> 'a \<Rightarrow> 'r list \<times> 'a" where
  "spec_runs spec [] a = ([], a)"
| "spec_runs spec (x # xs) a = (let (r, a) = spec x a; (rs, a) = spec_runs spec xs a in (r # rs, a))"

locale refinement =
  fixes step :: "'x \<Rightarrow> 's \<Rightarrow> ('r \<times> 's) option"
    and spec :: "'x \<Rightarrow> 'a \<Rightarrow> 'r \<times> 'a"
    and related :: "'s \<Rightarrow> 'a \<Rightarrow> bool"
  assumes step_refines: "related s a \<Longrightarrow> \<exists>s'. step x s = Some (fst (spec x a), s') \<and> related s' (snd (spec x a))"
begin

lemma runs_refines:
  "related s a \<Longrightarrow> \<exists>s'. runs step xs s = Some (fst (spec_runs spec xs a), s') \<and> related s' (snd (spec_runs spec xs a))"
proof (induction xs arbitrary: s a)
  case Nil
  then show ?case by auto
next
  case (Cons x xs)
  obtain s1 where 1: "step x s = Some (fst (spec x a), s1)" "related s1 (snd (spec x a))" using step_refines [OF Cons.prems] by blast
  from Cons.IH [OF 1(2)] obtain s2 where "runs step xs s1 = Some (fst (spec_runs spec xs (snd (spec x a))), s2)"
      "related s2 (snd (spec_runs spec xs (snd (spec x a))))" by blast
  with 1 show ?case by (auto simp: Let_def split: prod.split)
qed

end

end
