(* ===== verification/CallbackOps.thy ===== *)
theory CallbackOps
  imports CallbackSpec Refinement
begin

text \<open>
  Sequences of operations on a callback list: what they return and the callbacks they leave are those of
  the same operations on a list of pairs of a handle and a callback.
\<close>

datatype 'f list_op = Append 'f | Prepend 'f | Insert 'f nat | Remove nat

datatype op_result = Handle nat | Removed bool

fun apply_op :: "'f list_op \<Rightarrow> 'f CallbackList \<Rightarrow> (op_result \<times> 'f CallbackList) option" where
  "apply_op (Append f) l = map_option (map_prod Handle id) (append f l)"
| "apply_op (Prepend f) l = map_option (map_prod Handle id) (prepend f l)"
| "apply_op (Insert f before) l = map_option (map_prod Handle id) (insert f before l)"
| "apply_op (Remove handle) l = map_option (map_prod Removed id) (remove handle l)"

abbreviation apply_ops :: "'f list_op list \<Rightarrow> 'f CallbackList \<Rightarrow> (op_result list \<times> 'f CallbackList) option" where
  "apply_ops \<equiv> runs apply_op"

text \<open>The same on lists; \<open>n\<close> is the next handle.\<close>

fun spec_op :: "'f list_op \<Rightarrow> nat \<times> (nat \<times> 'f) list \<Rightarrow> op_result \<times> nat \<times> (nat \<times> 'f) list" where
  "spec_op (Append f) (n, es) = (Handle n, Suc n, es @ [(n, f)])"
| "spec_op (Prepend f) (n, es) = (Handle n, Suc n, (n, f) # es)"
| "spec_op (Insert f before) (n, es) =
     (Handle n, Suc n, takeWhile (\<lambda>e. fst e \<noteq> before) es @ (n, f) # dropWhile (\<lambda>e. fst e \<noteq> before) es)"
| "spec_op (Remove handle) (n, es) = (Removed (handle \<in> fst ` set es), n, filter (\<lambda>e. fst e \<noteq> handle) es)"

abbreviation spec_ops :: "'f list_op list \<Rightarrow> nat \<times> (nat \<times> 'f) list \<Rightarrow> op_result list \<times> nat \<times> (nat \<times> 'f) list" where
  "spec_ops \<equiv> spec_runs spec_op"

text \<open>The callbacks from the first to the last, and from the last to the first.\<close>

fun walk :: "('f Node \<Rightarrow> nat option) \<Rightarrow> nat \<Rightarrow> nat option \<Rightarrow> 'f CallbackList \<Rightarrow> (nat \<times> 'f) list" where
  "walk link 0 p l = []"
| "walk link (Suc k) None l = []"
| "walk link (Suc k) (Some a) l = (case nodes l a of None \<Rightarrow> [] | Some n \<Rightarrow> (a, callback n) # walk link k (link n) l)"

definition forwards :: "'f CallbackList \<Rightarrow> (nat \<times> 'f) list" where
  "forwards l = walk next_node (fresh l) (list_head l) l"

definition backwards :: "'f CallbackList \<Rightarrow> (nat \<times> 'f) list" where
  "backwards l = walk previous (fresh l) (list_tail l) l"

section \<open>The callbacks of a list\<close>

definition entries :: "'f CallbackList \<Rightarrow> nat list \<Rightarrow> (nat \<times> 'f) list" where
  "entries l as = map (\<lambda>a. (a, callback (the (nodes l a)))) as"

lemma entries_simps [simp]:
  "entries l [] = []" "entries l (a # as) = (a, callback (the (nodes l a))) # entries l as"
  "entries l (as @ bs) = entries l as @ entries l bs" "map fst (entries l as) = as" "fst ` set (entries l as) = set as"
  by (simp_all add: entries_def comp_def image_image)

lemma entries_cong:
  "(\<And>a. a \<in> set as \<Longrightarrow> map_option callback (nodes l a) = map_option callback (nodes m a) \<and> nodes l a \<noteq> None) \<Longrightarrow> entries l as = entries m as"
proof (induction as)
  case (Cons a as)
  have "map_option callback (nodes l a) = map_option callback (nodes m a)" "nodes l a \<noteq> None" using Cons.prems [of a] by auto
  then have "callback (the (nodes l a)) = callback (the (nodes m a))" by (cases "nodes l a"; cases "nodes m a") auto
  then show ?case using Cons by simp
qed simp

lemma walk_next:
  "segment (nodes l) p as None \<Longrightarrow> length as \<le> k \<Longrightarrow> walk next_node k (first as None) l = entries l as"
proof (induction as arbitrary: p k)
  case Nil
  then show ?case by (cases k) simp_all
next
  case (Cons a as)
  then show ?case by (cases k) auto
qed

lemma walk_previous:
  "segment (nodes l) None as nx \<Longrightarrow> length as \<le> k \<Longrightarrow> walk previous k (final as None) l = rev (entries l as)"
proof (induction as arbitrary: nx k rule: rev_induct)
  case Nil
  then show ?case by (cases k) simp_all
next
  case (snoc a as)
  then show ?case by (cases k) (auto simp: segment_append)
qed

lemma forwards_holds: "holds l as \<Longrightarrow> forwards l = entries l as"
  using walk_next [of l None as "fresh l"] length_holds [of l as] by (simp add: forwards_def holds_def)

lemma backwards_holds: "holds l as \<Longrightarrow> backwards l = rev (entries l as)"
  using walk_previous [of l as None "fresh l"] length_holds [of l as] by (simp add: backwards_def holds_def)

lemma callback_counted: "counted l as m \<Longrightarrow> map_option callback (nodes m a) = map_option callback (nodes l a)"
proof -
  assume "counted l as m"
  then have "map_option callback (map_option (counter_update (\<lambda>_. 0)) (nodes m a)) =
      map_option callback (map_option (counter_update (\<lambda>_. 0)) (nodes l a))"
    unfolding counted_def by metis
  then show ?thesis by (simp add: option.map_comp comp_def)
qed

lemma callback_upd_node:
  "map_option callback (upd_node (set_next q) p N a) = map_option callback (N a)"
  "map_option callback (upd_node (set_previous q) p N a) = map_option callback (N a)"
  "map_option callback (upd_node (counter_update g) p N a) = map_option callback (N a)"
  by (cases p; simp add: option.map_comp comp_def set_next_def set_previous_def)+

lemma callback_linked:
  "map_option callback (nodes (linked f xs ys m) a) = (if a = fresh m then Some f else map_option callback (nodes m a))"
  by (simp add: linked_def callback_upd_node)

lemma callback_unlinked: "map_option callback (nodes (unlinked xs b ys l) a) = map_option callback (nodes l a)"
  by (simp add: unlinked_def callback_upd_node del: upd_node_simps)

lemma entries_linked:
  assumes "holds l (xs @ ys)" and "counted l (xs @ ys) m"
  shows "entries (linked f xs ys m) (xs @ fresh l # ys) = entries l xs @ (fresh l, f) # entries l ys"
proof -
  have f: "fresh m = fresh l" using assms(2) by (simp add: counted_def)
  have "entries (linked f xs ys m) zs = entries l zs" if z: "set zs \<subseteq> set (xs @ ys)" for zs
  proof (rule entries_cong)
    fix a assume "a \<in> set zs"
    then obtain n where "nodes l a = Some n" "a < fresh l" using z holds_alive [OF assms(1), of a] by blast
    then show "map_option callback (nodes (linked f xs ys m) a) = map_option callback (nodes l a) \<and> nodes (linked f xs ys m) a \<noteq> None"
      using f callback_counted [OF assms(2), of a] by (auto simp: callback_linked)
  qed
  moreover have "callback (the (nodes (linked f xs ys m) (fresh l))) = f"
    using callback_linked [of f xs ys m "fresh l"] f by (auto)
  ultimately show ?thesis by simp
qed

lemma entries_collect: "holds l as \<Longrightarrow> entries (collect l) as = entries l as"
proof -
  assume h: "holds l as"
  have "nodes (collect l) a = nodes l a" if "a \<in> set as" for a
    using holds_alive [OF holds_collect [OF h] that] collect_nodes [of l a] by auto
  then show ?thesis by (simp add: entries_def)
qed

lemma entries_unlinked:
  assumes "holds l (xs @ b # ys)"
  shows "entries (collect (unlinked xs b ys l)) (xs @ ys) = entries l (xs @ ys)"
  unfolding entries_collect [OF holds_unlinked [OF assms]]
proof (rule entries_cong)
  fix a assume "a \<in> set (xs @ ys)"
  then show "map_option callback (nodes (unlinked xs b ys l) a) = map_option callback (nodes l a) \<and> nodes (unlinked xs b ys l) a \<noteq> None"
    using holds_alive [OF assms, of a] by (auto simp: callback_unlinked)
qed

section \<open>Refinement\<close>

lemma takeWhile_entries:
  assumes "b \<notin> set xs"
  shows "takeWhile (\<lambda>e. fst e \<noteq> b) (entries l xs @ (b, f) # es) = entries l xs"
    and "dropWhile (\<lambda>e. fst e \<noteq> b) (entries l xs @ (b, f) # es) = (b, f) # es"
  using assms by (induction xs) auto

lemma whole_entries:
  assumes "b \<notin> set xs"
  shows "takeWhile (\<lambda>e. fst e \<noteq> b) (entries l xs) = entries l xs" "dropWhile (\<lambda>e. fst e \<noteq> b) (entries l xs) = []"
    "filter (\<lambda>e. fst e \<noteq> b) (entries l xs) = entries l xs"
  using assms by (induction xs) auto

lemma apply_op_refines:
  assumes e: "exact l as"
  obtains r l' bs where "apply_op x l = Some (r, l')" "exact l' bs" "spec_op x (fresh l, entries l as) = (r, fresh l', entries l' bs)"
proof -
  have h: "holds l as" using e by (simp add: exact_def)
  have add: "exact (linked f xs ys m) (xs @ fresh l # ys) \<and> fresh (linked f xs ys m) = Suc (fresh l) \<and>
      entries (linked f xs ys m) (xs @ fresh l # ys) = entries l xs @ (fresh l, f) # entries l ys"
    if "as = xs @ ys" "counted l as m" for f xs ys m
    using that e exact_linked [of l xs ys m f] entries_linked [of l xs ys m f] h by (auto simp: counted_def)
  show thesis
  proof (cases x)
    case (Append f)
    obtain m where m: "counted l as m" "append f l = Some (fresh l, linked f as [] m)" by (rule append_linked [OF h])
    show thesis by (rule that [of "Handle (fresh l)" "linked f as [] m"]) (use Append m add [of as "[]" m f] in auto)
  next
    case (Prepend f)
    obtain m where m: "counted l as m" "prepend f l = Some (fresh l, linked f [] as m)" by (rule prepend_linked [OF h])
    show thesis by (rule that [of "Handle (fresh l)" "linked f [] as m"]) (use Prepend m add [of "[]" as m f] in auto)
  next
    case (Insert f b)
    show thesis
    proof (cases "b \<in> set as")
      case True
      then obtain xs ys where as: "as = xs @ b # ys" "b \<notin> set xs" by (metis split_list_first)
      obtain m where m: "counted l as m" "insert f b l = Some (fresh l, linked f xs (b # ys) m)"
        using insert_linked [OF h [unfolded as(1)]] as(1) by metis
      show thesis
        by (rule that [of "Handle (fresh l)" "linked f xs (b # ys) m"])
          (use Insert m add [of xs "b # ys" m f] as takeWhile_entries [OF as(2), of l] in auto)
    next
      case False
      then have "expired l b" using e by (simp add: exact_def expired_def)
      obtain m where m: "counted l as m" "append f l = Some (fresh l, linked f as [] m)" by (rule append_linked [OF h])
      show thesis
        by (rule that [of "Handle (fresh l)" "linked f as [] m"])
          (use Insert m add [of as "[]" m f] insert_expired [OF \<open>expired l b\<close>] whole_entries [OF False, of l] in auto)
    qed
  next
    case (Remove b)
    show thesis
    proof (cases "b \<in> set as")
      case True
      then obtain xs ys where as: "as = xs @ b # ys" by (metis split_list)
      then have "b \<notin> set xs" "b \<notin> set ys" using h by (auto simp: holds_def)
      note w = whole_entries(3) [OF this(1), of l] whole_entries(3) [OF this(2), of l]
      show thesis
        by (rule that [of "Removed True" "collect (unlinked xs b ys l)"])
          (use Remove as w remove_unlinked [OF h [unfolded as]] exact_unlinked [OF e [unfolded as]]
             entries_unlinked [OF h [unfolded as]] in auto)
    next
      case False
      then have "expired l b" using e by (simp add: exact_def expired_def)
      show thesis
        by (rule that [of "Removed False" l])
          (use Remove False e remove_expired [OF \<open>expired l b\<close>] whole_entries [OF False, of l] in auto)
    qed
  qed
qed

text \<open>The specification is met by the state of a list that has these entries.\<close>

definition lists :: "'f CallbackList \<Rightarrow> nat \<times> (nat \<times> 'f) list \<Rightarrow> bool" where
  "lists l s \<longleftrightarrow> (\<exists>as. exact l as \<and> s = (fresh l, entries l as))"

interpretation callback_list: refinement apply_op spec_op lists
proof
  fix l :: "'a CallbackList" and s x assume "lists l s"
  then obtain as where as: "exact l as" "s = (fresh l, entries l as)" by (auto simp: lists_def)
  obtain r l' bs where "apply_op x l = Some (r, l')" "exact l' bs" "spec_op x (fresh l, entries l as) = (r, fresh l', entries l' bs)"
    by (rule apply_op_refines [OF as(1)])
  then show "\<exists>l'. apply_op x l = Some (fst (spec_op x s), l') \<and> lists l' (snd (spec_op x s))"
    using as(2) by (auto simp: lists_def)
qed

lemma apply_ops_refines:
  assumes "exact l as"
  shows "\<exists>rs l' bs. apply_ops xs l = Some (rs, l') \<and> exact l' bs \<and> spec_ops xs (fresh l, entries l as) = (rs, fresh l', entries l' bs)"
proof -
  have "lists l (fresh l, entries l as)" using assms by (auto simp: lists_def)
  from callback_list.runs_refines [OF this, of xs] show ?thesis by (auto simp: lists_def) (metis prod.collapse)
qed

lemma exact_new: "exact CallbackList_new []"
  by (simp add: exact_def holds_def CallbackList_new_def closed_def alive_def)

text \<open>C17: whatever sequence of operations is applied to a new callback list, also across an overflow of the
  counter, every one of them returns, with the handle or the answer that the operation on lists gives, and
  the links lead through exactly the callbacks of that list, forwards and backwards.\<close>

theorem callback_list_refines:
  "\<exists>rs l. apply_ops ops CallbackList_new = Some (rs, l) \<and> spec_ops ops (0, []) = (rs, fresh l, forwards l) \<and>
     backwards l = rev (forwards l)"
proof -
  obtain rs l bs where "apply_ops ops CallbackList_new = Some (rs, l)" "exact l bs" "spec_ops ops (0, []) = (rs, fresh l, entries l bs)"
    using apply_ops_refines [OF exact_new, of ops] by (auto simp: CallbackList_new_def)
  then show ?thesis using forwards_holds [of l bs] backwards_holds [of l bs] by (auto simp: exact_def)
qed

end
