(* ===== verification/CallbackLoop.thy ===== *)
theory CallbackLoop
  imports CallbackOps
begin

text \<open>
  Callbacks that change the list while it is invoked: the loop of \<open>doForEachIf\<close> invokes the callbacks that
  were in the list when it started, in order, except those that are removed before their turn.
\<close>

text \<open>A callback applies operations to the list it is in; which ones may depend on the state of the list.\<close>

definition invoke_script ::
    "(nat \<Rightarrow> 'f CallbackList \<Rightarrow> 'f list_op list) \<Rightarrow> nat \<Rightarrow> 'f CallbackList \<Rightarrow> (bool \<times> 'f CallbackList) option" where
  "invoke_script script a l = map_option (\<lambda>(rs, l). (True, l)) (apply_ops (script a l) l)"

text \<open>
  A handle is usable unless its node has been removed and is kept alive by a running loop: the operations
  do not recognise such a node as removed.
\<close>

definition usable :: "nat \<Rightarrow> 'f CallbackList \<Rightarrow> bool" where
  "usable b l \<longleftrightarrow> (case nodes l b of None \<Rightarrow> True | Some n \<Rightarrow> counter n \<noteq> removedCounter)"

fun proper_op :: "'f list_op \<Rightarrow> 'f CallbackList \<Rightarrow> bool" where
  "proper_op (Insert f b) l = usable b l"
| "proper_op (Remove b) l = usable b l"
| "proper_op _ l = True"

fun proper_ops :: "'f list_op list \<Rightarrow> 'f CallbackList \<Rightarrow> bool" where
  "proper_ops [] l \<longleftrightarrow> True"
| "proper_ops (x # xs) l \<longleftrightarrow> proper_op x l \<and> (case apply_op x l of None \<Rightarrow> True | Some (r, l) \<Rightarrow> proper_ops xs l)"

section \<open>The nodes a loop may visit\<close>

text \<open>
  \<open>G\<close> are the nodes that are or were in the list since the loop started, in order, \<open>old\<close> those of the start.
  The link of each node that is alive skips only nodes that are not old or no longer in the list.
\<close>

definition skips :: "nat set \<Rightarrow> nat list \<Rightarrow> (nat \<Rightarrow> 'f Node option) \<Rightarrow> nat list \<Rightarrow> bool" where
  "skips old as N G \<longleftrightarrow> (\<forall>xs a ys n. G = xs @ a # ys \<longrightarrow> N a = Some n \<longrightarrow>
     (\<exists>us vs. ys = us @ vs \<and> next_node n = first vs None \<and> set us \<inter> set as \<inter> old = {}))"

definition loop_inv :: "nat set \<Rightarrow> 64 word \<Rightarrow> 'f CallbackList \<Rightarrow> nat list \<Rightarrow> nat list \<Rightarrow> bool" where
  "loop_inv old k l G as \<longleftrightarrow> holds l as \<and> distinct G \<and> filter (\<lambda>a. a \<in> set as) G = as \<and> skips old as (nodes l) G \<and>
     (\<forall>a\<in>old. a < fresh l) \<and> (\<forall>a\<in>set G. a < fresh l) \<and>
     (\<forall>a\<in>set as. \<forall>n. nodes l a = Some n \<longrightarrow> (counter n \<le> k \<longleftrightarrow> a \<in> old)) \<and> k \<le> currentCounter l"

lemma skipsD:
  assumes "skips old as N (xs @ a # ys)" and "N a = Some n"
  obtains us vs where "ys = us @ vs" "next_node n = first vs None" "set us \<inter> set as \<inter> old = {}"
  using assms unfolding skips_def by blast

lemma loop_inv_start:
  assumes "holds l as"
  shows "loop_inv (set as) (currentCounter l) l as as"
proof -
  have "skips (set as) as (nodes l) as"
    unfolding skips_def
  proof (intro allI impI)
    fix xs a ys n assume "as = xs @ a # ys" "nodes l a = Some n"
    then have "ys = [] @ ys \<and> next_node n = first ys None \<and> set [] \<inter> set as \<inter> set as = {}"
      using assms by (auto simp: holds_def segment_append)
    then show "\<exists>us vs. ys = us @ vs \<and> next_node n = first vs None \<and> set us \<inter> set as \<inter> set as = {}" by blast
  qed
  moreover have "counter n \<le> currentCounter l" if "a \<in> set as" "nodes l a = Some n" for a n
    using assms that by (auto simp: holds_def split: if_splits)
  ultimately show ?thesis using assms holds_alive [OF assms] by (auto simp: loop_inv_def holds_def)
qed

lemma skips_mono:
  assumes "skips old as N G" and "\<And>a. M a = N a \<or> M a = None" and "set bs \<inter> old \<subseteq> set as"
  shows "skips old bs M G"
  unfolding skips_def
proof (intro allI impI)
  fix xs a ys n assume G: "G = xs @ a # ys" and "M a = Some n"
  then have "N a = Some n" using assms(2) [of a] by auto
  with assms(1) G obtain us vs where "ys = us @ vs" "next_node n = first vs None" "set us \<inter> set as \<inter> old = {}"
    by (auto elim: skipsD)
  then show "\<exists>us vs. ys = us @ vs \<and> next_node n = first vs None \<and> set us \<inter> set bs \<inter> old = {}" using assms(3) by blast
qed

lemma loop_inv_collect:
  assumes "loop_inv old k l G as"
  shows "loop_inv old k (collect l) G as"
proof -
  have "nodes l a = Some n" if "nodes (collect l) a = Some n" for a n using that collect_nodes [of l a] by auto
  then show ?thesis
    using assms holds_collect [of l as] skips_mono [of old as "nodes l" G "nodes (collect l)" as] collect_nodes [of l]
    by (simp add: loop_inv_def)
qed

lemma loop_inv_pins:
  assumes "loop_inv old k l G as" and "\<forall>a\<in>set P. nodes l a \<noteq> None"
  shows "loop_inv old k (l\<lparr>pins := P\<rparr>) G as"
  using assms by (simp add: loop_inv_def holds_def closed_def alive_def)

section \<open>Operations during a loop\<close>

text \<open>Where a node that is linked between \<open>xs\<close> and \<open>ys\<close> has its place in \<open>G\<close>.\<close>

lemma split_ghost:
  assumes "filter (\<lambda>a. a \<in> set (xs @ ys)) G = xs @ ys" and "distinct (xs @ ys)"
  obtains g1 g2 where "G = g1 @ g2" "filter (\<lambda>a. a \<in> set (xs @ ys)) g1 = xs" "first g2 None = first ys None"
proof (cases ys)
  case Nil
  then show thesis using that [of G "[]"] assms by simp
next
  case (Cons y zs)
  let ?P = "\<lambda>a. a \<in> set (xs @ ys)"
  have "y \<in> set (filter ?P G)" using assms(1) Cons by simp
  then obtain g1 g2 where G: "G = g1 @ y # g2" "y \<notin> set g1" by (auto dest: split_list_first)
  have "xs @ y # zs = filter ?P g1 @ y # filter ?P g2" using assms(1) G Cons by simp
  moreover have "y \<notin> set xs" "y \<notin> set zs" using assms(2) Cons by auto
  ultimately have "filter ?P g1 = xs" by (simp add: append_Cons_eq_iff)
  then show thesis using that [of g1 "y # g2"] G(1) Cons by simp
qed

lemma first_append_None: "first (as @ bs) None = (if as = [] then first bs None else Some (hd as))"
  by (cases as) auto

text \<open>A link that skipped some of \<open>q @ g2\<close> still skips only such nodes when a new node is put between them.\<close>

lemma skip_new:
  assumes "q @ g2 = us @ vs" and "set us \<inter> A = {}" and "c \<notin> A"
  obtains us' vs' where "q @ c # g2 = us' @ vs'" "first vs' None = first vs None" "set us' \<inter> A = {}"
proof -
  from assms(1) consider r where "q = us @ r" "vs = r @ g2" | r where "us = q @ r" "g2 = r @ vs"
    by (auto simp: append_eq_append_conv2)
  then show thesis
  proof cases
    case (1 r)
    show thesis
    proof (cases r)
      case Nil
      then show thesis using 1 assms by (intro that [of "us @ [c]" g2]) auto
    next
      case (Cons x r')
      then show thesis using 1 assms by (intro that [of us "r @ c # g2"]) auto
    qed
  next
    case (2 r)
    then show thesis using assms by (intro that [of "q @ c # r" vs]) auto
  qed
qed

lemma skips_insert:
  assumes s: "skips old as N (g1 @ g2)" and c: "c \<notin> set (g1 @ g2)" "c \<notin> old" and d: "distinct (g1 @ g2)"
    and new: "M c = Some n0" "next_node n0 = first g2 None"
    and same: "\<And>a n. a \<in> set (g1 @ g2) \<Longrightarrow> M a = Some n \<Longrightarrow>
      \<exists>m. N a = Some m \<and> next_node n = (if final xs None = Some a then Some c else next_node m)"
    and xs: "xs = filter (\<lambda>a. a \<in> set as) g1" and bs: "set bs \<inter> old \<subseteq> set as"
  shows "skips old bs M (g1 @ c # g2)"
  unfolding skips_def
proof (intro allI impI)
  fix ps a r n assume G: "g1 @ c # g2 = ps @ a # r" and n: "M a = Some n"
  let ?goal = "\<exists>us vs. r = us @ vs \<and> next_node n = first vs None \<and> set us \<inter> set bs \<inter> old = {}"
  from G consider "ps = g1" "a = c" "r = g2" | q where "g1 = ps @ a # q" "r = q @ c # g2" | q where "ps = g1 @ c # q" "g2 = q @ a # r"
    by (auto simp: append_eq_append_conv2 append_eq_Cons_conv Cons_eq_append_conv)
  then show ?goal
  proof cases
    case 1
    then show ?thesis using n new by (intro exI [of _ "[]"] exI [of _ g2]) simp
  next
    case (2 q)
    then obtain m where m: "N a = Some m" "next_node n = (if final xs None = Some a then Some c else next_node m)"
      using same [OF _ n] by auto
    show ?thesis
    proof (cases "final xs None = Some a")
      case True
      let ?f = "filter (\<lambda>a. a \<in> set as)"
      have "a \<notin> set q" using d 2 by auto
      have "?f q = []"
      proof (rule ccontr)
        assume ne: "?f q \<noteq> []"
        then have "last xs = last (?f q)" using xs 2 by simp
        moreover have "last xs = a" using True by (simp add: final_def split: if_splits)
        ultimately show False using last_in_set [OF ne] \<open>a \<notin> set q\<close> by simp
      qed
      then have "set q \<inter> set as = {}" by (auto simp: filter_empty_conv)
      then show ?thesis using 2 m True bs by (intro exI [of _ q] exI [of _ "c # g2"]) auto
    next
      case False
      have "g1 @ g2 = ps @ a # (q @ g2)" using 2 by simp
      then obtain us vs where u: "q @ g2 = us @ vs" "next_node m = first vs None" "set us \<inter> set as \<inter> old = {}"
        using s m(1) by (auto elim: skipsD)
      obtain us' vs' where "q @ c # g2 = us' @ vs'" "first vs' None = first vs None" "set us' \<inter> (set as \<inter> old) = {}"
        by (rule skip_new [OF u(1), of "set as \<inter> old" c]) (use u c in auto)
      then show ?thesis using 2 m False u(2) bs by (intro exI [of _ us'] exI [of _ vs']) auto
    qed
  next
    case (3 q)
    then have a: "a \<in> set g2" by simp
    then have "final xs None \<noteq> Some a" using d xs final_in [of xs a] by auto
    then obtain m where m: "N a = Some m" "next_node n = next_node m" using same [OF _ n] a by auto
    have "g1 @ g2 = (g1 @ q) @ a # r" using 3 by simp
    then obtain us vs where "r = us @ vs" "next_node m = first vs None" "set us \<inter> set as \<inter> old = {}"
      using s m(1) by (metis skipsD)
    then show ?thesis using m(2) bs by (intro exI [of _ us] exI [of _ vs]) auto
  qed
qed

lemma linked_node:
  assumes "nodes (linked f xs ys l) a = Some n" and "a \<noteq> fresh l"
  shows "\<exists>m. nodes l a = Some m \<and> counter n = counter m \<and> next_node n = (if final xs None = Some a then Some (fresh l) else next_node m)"
  using assms by (auto simp: linked_def upd_node_Some set_previous_def set_next_def split: if_splits)

lemma linked_new_node:
  assumes "holds l (xs @ ys)"
  obtains n where "nodes (linked f xs ys l) (fresh l) = Some n" "next_node n = first ys None" "counter n = currentCounter l"
proof -
  have "fresh l \<notin> set xs" "fresh l \<notin> set ys" using holds_alive [OF assms, of "fresh l"] by auto
  then have "final xs None \<noteq> Some (fresh l)" "first ys None \<noteq> Some (fresh l)" using final_in first_in by metis+
  then show thesis
    by (intro that [of "\<lparr>callback = f, counter = currentCounter l, previous = final xs None, next_node = first ys None\<rparr>"])
      (simp_all add: linked_def upd_node_other)
qed

lemma upd_node_fields:
  "upd_node (set_next q) p N a = Some n \<Longrightarrow>
     \<exists>m. N a = Some m \<and> counter n = counter m \<and> next_node n = (if p = Some a then q else next_node m)"
  "upd_node (set_previous q) p N a = Some n \<Longrightarrow> \<exists>m. N a = Some m \<and> counter n = counter m \<and> next_node n = next_node m"
  "upd_node (counter_update g) (Some b) N a = Some n \<Longrightarrow>
     \<exists>m. N a = Some m \<and> (a \<noteq> b \<longrightarrow> counter n = counter m) \<and> next_node n = next_node m"
  by (cases p; auto simp: set_next_def set_previous_def split: if_splits)+

lemma unlinked_node:
  assumes "nodes (unlinked xs b ys l) a = Some n"
  shows "\<exists>m. nodes l a = Some m \<and> (a \<noteq> b \<longrightarrow> counter n = counter m) \<and>
    next_node n = (if final xs None = Some a then first ys None else next_node m)"
proof -
  let ?N1 = "upd_node (set_previous (final xs None)) (first ys None) (nodes l)"
  let ?N2 = "upd_node (set_next (first ys None)) (final xs None) ?N1"
  have "upd_node (counter_update (\<lambda>_. 0)) (Some b) ?N2 a = Some n" using assms by (simp add: unlinked_def del: upd_node_simps)
  then obtain n2 where 2: "?N2 a = Some n2" "a \<noteq> b \<longrightarrow> counter n = counter n2" "next_node n = next_node n2"
    using upd_node_fields(3) by blast
  then obtain n1 where "?N1 a = Some n1" "counter n2 = counter n1" "next_node n2 = (if final xs None = Some a then first ys None else next_node n1)"
    using upd_node_fields(1) by blast
  then show ?thesis using 2 upd_node_fields(2) by metis
qed

lemma loop_inv_linked:
  assumes inv: "loop_inv old k l G (xs @ ys)" and c: "counted l (xs @ ys) m" and no: "currentCounter l + 1 \<noteq> 0"
    and G: "G = g1 @ g2" "filter (\<lambda>a. a \<in> set (xs @ ys)) g1 = xs" "first g2 None = first ys None"
  shows "loop_inv old k (linked f xs ys m) (g1 @ fresh l # g2) (xs @ fresh l # ys)"
proof -
  have m: "m = l\<lparr>currentCounter := currentCounter l + 1\<rparr>" "holds m (xs @ ys)" "currentCounter m \<noteq> 0"
    using c no by (auto simp: counted_def)
  have i: "holds l (xs @ ys)" "distinct G" "filter (\<lambda>a. a \<in> set (xs @ ys)) G = xs @ ys" "skips old (xs @ ys) (nodes l) G"
    "\<forall>a\<in>old. a < fresh l" "\<forall>a\<in>set G. a < fresh l" "k \<le> currentCounter l"
    "\<And>a n. a \<in> set (xs @ ys) \<Longrightarrow> nodes l a = Some n \<Longrightarrow> counter n \<le> k \<longleftrightarrow> a \<in> old"
    using inv by (auto simp: loop_inv_def)
  have fr: "fresh l \<notin> set G" "fresh l \<notin> old" "fresh l \<notin> set xs" "fresh l \<notin> set ys" "fresh m = fresh l"
    using i(5,6) holds_alive [OF i(1), of "fresh l"] m(1) by auto
  have nl: "nodes m = nodes l" using m(1) by simp
  have k: "k < currentCounter m"
    using i(7) m(1) no unatSuc [of "currentCounter l"] by (simp add: word_le_nat_alt word_less_nat_alt add.commute)
  obtain n0 where n0: "nodes (linked f xs ys m) (fresh m) = Some n0" "next_node n0 = first ys None" "counter n0 = currentCounter m"
    by (rule linked_new_node [OF m(2)])
  have node: "\<exists>m. nodes l a = Some m \<and> counter n = counter m \<and> next_node n = (if final xs None = Some a then Some (fresh l) else next_node m)"
    if "nodes (linked f xs ys m) a = Some n" "a \<noteq> fresh l" for a n
    using linked_node [OF that(1), unfolded fr(5) nl, OF that(2)] .
  have "skips old (xs @ fresh l # ys) (nodes (linked f xs ys m)) (g1 @ fresh l # g2)"
  proof (rule skips_insert [of old "xs @ ys" "nodes l" g1 g2 "fresh l" _ n0 xs])
    show "\<exists>k. nodes l a = Some k \<and> next_node n = (if final xs None = Some a then Some (fresh l) else next_node k)"
      if "a \<in> set (g1 @ g2)" "nodes (linked f xs ys m) a = Some n" for a n
      using node [OF that(2)] that(1) fr(1) G(1) by metis
  qed (use i fr G n0 in auto)
  moreover have "filter (\<lambda>a. a \<in> set (xs @ fresh l # ys)) (g1 @ fresh l # g2) = xs @ fresh l # ys"
  proof -
    have eq: "filter (\<lambda>a. a \<in> set (xs @ fresh l # ys)) zs = filter (\<lambda>a. a \<in> set (xs @ ys)) zs" if "set zs \<subseteq> set G" for zs
      by (rule filter_cong) (use that fr(1) in auto)
    show ?thesis using eq [of g1] eq [of g2] G(1,2) i(3) by simp
  qed
  moreover have "counter n \<le> k \<longleftrightarrow> a \<in> old"
    if "a \<in> set (xs @ fresh l # ys)" "nodes (linked f xs ys m) a = Some n" for a n
  proof (cases "a = fresh l")
    case True
    then show ?thesis using that(2) n0 fr(2,5) k by auto
  next
    case False
    then show ?thesis using node [OF that(2)] that(1) i(8) [of a] by auto
  qed
  ultimately show ?thesis
    using holds_linked [OF m(2,3), of f] i(2,5,6) fr k G(1) by (auto simp: loop_inv_def less_Suc_eq)
qed

lemma skips_remove:
  assumes s: "skips old as N G" and N: "N b = Some nb" "next_node nb = q" and bs: "set bs \<subseteq> set as - {b}" and b: "b \<in> set G"
    and same: "\<And>a n. M a = Some n \<Longrightarrow> \<exists>m. N a = Some m \<and> next_node n = (if p = Some a then q else next_node m)"
    and p: "\<And>a n. p = Some a \<Longrightarrow> N a = Some n \<Longrightarrow> next_node n = Some b"
  shows "skips old bs M G"
  unfolding skips_def
proof (intro allI impI)
  fix xs a ys n assume G: "G = xs @ a # ys" and "M a = Some n"
  then obtain m where m: "N a = Some m" "next_node n = (if p = Some a then q else next_node m)" using same by blast
  obtain us vs where u: "ys = us @ vs" "next_node m = first vs None" "set us \<inter> set as \<inter> old = {}"
    using s G m(1) by (auto elim: skipsD)
  show "\<exists>us vs. ys = us @ vs \<and> next_node n = first vs None \<and> set us \<inter> set bs \<inter> old = {}"
  proof (cases "p = Some a")
    case True
    then have "first vs None = Some b" using p [OF True m(1)] u(2) by simp
    then obtain w where w: "vs = b # w" by (cases vs) auto
    have "G = (xs @ a # us) @ b # w" using G u(1) w by simp
    then obtain us2 vs2 where "w = us2 @ vs2" "next_node nb = first vs2 None" "set us2 \<inter> set as \<inter> old = {}"
      using s N(1) by (metis skipsD)
    then show ?thesis using u w m(2) N(2) True bs by (intro exI [of _ "us @ b # us2"] exI [of _ vs2]) auto
  next
    case False
    then show ?thesis using u m(2) bs by (intro exI [of _ us] exI [of _ vs]) auto
  qed
qed

lemma loop_inv_unlinked:
  assumes inv: "loop_inv old k l G (xs @ b # ys)"
  shows "loop_inv old k (unlinked xs b ys l) G (xs @ ys)"
proof -
  have i: "holds l (xs @ b # ys)" "distinct G" "filter (\<lambda>a. a \<in> set (xs @ b # ys)) G = xs @ b # ys"
    "skips old (xs @ b # ys) (nodes l) G"
    "\<And>a n. a \<in> set (xs @ b # ys) \<Longrightarrow> nodes l a = Some n \<Longrightarrow> counter n \<le> k \<longleftrightarrow> a \<in> old"
    using inv by (auto simp: loop_inv_def)
  have d: "b \<notin> set xs" "b \<notin> set ys" using i(1) by (auto simp: holds_def)
  obtain nb where nb: "nodes l b = Some nb" "next_node nb = first ys None" by (rule segment_middle [OF i(1)])
  have "skips old (xs @ ys) (nodes (unlinked xs b ys l)) G"
  proof (rule skips_remove [OF i(4) nb])
    show "b \<in> set G" using i(3) by (metis filter_is_subset in_set_conv_decomp subsetD)
    show "next_node n = Some b" if "final xs None = Some a" "nodes l a = Some n" for a n
      using that i(1) by (cases xs rule: rev_cases) (auto simp: holds_def segment_append)
  qed (use d unlinked_node in \<open>auto, metis+\<close>)
  moreover have "filter (\<lambda>a. a \<in> set (xs @ ys)) G = xs @ ys"
  proof -
    have no_b: "filter (\<lambda>a. a \<noteq> b) zs = zs" if "b \<notin> set zs" for zs
      by (rule filter_True) (use that in auto)
    have "filter (\<lambda>a. a \<in> set (xs @ ys)) G = filter (\<lambda>a. a \<noteq> b) (filter (\<lambda>a. a \<in> set (xs @ b # ys)) G)"
      unfolding filter_filter by (rule filter_cong) (use d in auto)
    also note i(3)
    also have "filter (\<lambda>a. a \<noteq> b) (xs @ b # ys) = xs @ ys" using no_b [OF d(1)] no_b [OF d(2)] by simp
    finally show ?thesis .
  qed
  moreover have "counter n \<le> k \<longleftrightarrow> a \<in> old" if "a \<in> set (xs @ ys)" "nodes (unlinked xs b ys l) a = Some n" for a n
    using unlinked_node [OF that(2)] that(1) d i(5) [of a] by auto
  ultimately show ?thesis using holds_unlinked [OF i(1)] inv by (auto simp: loop_inv_def)
qed

text \<open>What the operations of a callback do to the state of the loops.\<close>

definition advances :: "nat set \<Rightarrow> 64 word \<Rightarrow> nat \<Rightarrow> 'f CallbackList \<Rightarrow> nat list \<Rightarrow> nat list \<Rightarrow> 'f CallbackList \<Rightarrow> nat list \<Rightarrow> nat list \<Rightarrow> bool" where
  "advances old k d l G as l' G' as' \<longleftrightarrow> loop_inv old k l' G' as' \<and> pins l' = pins l \<and>
     filter (\<lambda>a. a \<in> old) G' = filter (\<lambda>a. a \<in> old) G \<and> set as' \<inter> old \<subseteq> set as \<and>
     unat (currentCounter l') \<le> unat (currentCounter l) + d"

lemma advances_refl: "loop_inv old k l G as \<Longrightarrow> advances old k 0 l G as l G as"
  by (auto simp: advances_def)

lemma advances_trans:
  "advances old k d l G as l1 G1 as1 \<Longrightarrow> advances old k e l1 G1 as1 l2 G2 as2 \<Longrightarrow> advances old k (d + e) l G as l2 G2 as2"
  by (auto simp: advances_def)

lemma advances_linked:
  assumes inv: "loop_inv old k l G (xs @ ys)" and c: "counted l (xs @ ys) m" and no: "unat (currentCounter l) + 1 < 2 ^ 64"
  shows "\<exists>G'. advances old k 1 l G (xs @ ys) (linked f xs ys m) G' (xs @ fresh l # ys)"
proof -
  have "unat (currentCounter l + 1) = unat (currentCounter l) + 1"
    using no by (simp add: unat_word_ariths)
  then have ne: "currentCounter l + 1 \<noteq> 0" and m: "unat (currentCounter m) = unat (currentCounter l) + 1" "pins m = pins l"
    using c by (auto simp: counted_def)
  have "filter (\<lambda>a. a \<in> set (xs @ ys)) G = xs @ ys" "distinct (xs @ ys)" using inv by (auto simp: loop_inv_def holds_def)
  then obtain g1 g2 where G: "G = g1 @ g2" "filter (\<lambda>a. a \<in> set (xs @ ys)) g1 = xs" "first g2 None = first ys None"
    by (rule split_ghost)
  have "fresh l \<notin> old" using inv by (auto simp: loop_inv_def)
  then have "advances old k 1 l G (xs @ ys) (linked f xs ys m) (g1 @ fresh l # g2) (xs @ fresh l # ys)"
    using loop_inv_linked [OF inv c ne G, of f] m G(1) by (auto simp: advances_def)
  then show ?thesis ..
qed

lemma advances_unlinked:
  assumes "loop_inv old k l G (xs @ b # ys)"
  shows "advances old k 1 l G (xs @ b # ys) (collect (unlinked xs b ys l)) G (xs @ ys)"
  using loop_inv_collect [OF loop_inv_unlinked [OF assms]] by (auto simp: advances_def)

lemma usable_cases:
  assumes "holds l as" and "usable b l"
  obtains xs ys where "as = xs @ b # ys" | "expired l b"
proof (cases "expired l b")
  case False
  then have "b \<in> set as" using assms holds_iff [OF assms(1), of b] by (auto simp: usable_def expired_def removedCounter_def)
  then show thesis using that(1) by (metis split_list)
qed (rule that(2))

lemma apply_op_advances:
  assumes inv: "loop_inv old k l G as" and p: "proper_op x l" and no: "unat (currentCounter l) + 1 < 2 ^ 64"
  shows "\<exists>r l' G' as'. apply_op x l = Some (r, l') \<and> advances old k 1 l G as l' G' as'"
proof -
  have h: "holds l as" using inv by (simp add: loop_inv_def)
  have app: "\<exists>l' G' as'. append f l = Some (fresh l, l') \<and> advances old k 1 l G as l' G' as'" for f
  proof -
    obtain m where m: "counted l as m" "append f l = Some (fresh l, linked f as [] m)" by (rule append_linked [OF h])
    then show ?thesis using advances_linked [of old k l G as "[]" m f] inv no by auto
  qed
  show ?thesis
  proof (cases x)
    case (Append f)
    then show ?thesis using app [of f] by auto
  next
    case (Prepend f)
    obtain m where m: "counted l as m" "prepend f l = Some (fresh l, linked f [] as m)" by (rule prepend_linked [OF h])
    then show ?thesis using Prepend advances_linked [of old k l G "[]" as m f] inv no by auto
  next
    case (Insert f b)
    with p have "usable b l" by simp
    with h show ?thesis
    proof (cases rule: usable_cases)
      case (1 xs ys)
      obtain m where "counted l (xs @ b # ys) m" "insert f b l = Some (fresh l, linked f xs (b # ys) m)"
        by (rule insert_linked [OF h [unfolded 1]])
      then show ?thesis using Insert advances_linked [of old k l G xs "b # ys" m f] inv no 1 by auto
    next
      case 2
      then show ?thesis using Insert app [of f] insert_expired [OF 2, of f] by auto
    qed
  next
    case (Remove b)
    with p have "usable b l" by simp
    with h show ?thesis
    proof (cases rule: usable_cases)
      case (1 xs ys)
      then show ?thesis using Remove remove_unlinked [OF h [unfolded 1]] advances_unlinked [OF inv [unfolded 1]] by auto
    next
      case 2
      have "advances old k 1 l G as l G as" using inv by (auto simp: advances_def)
      then show ?thesis using Remove remove_expired [OF 2] by auto
    qed
  qed
qed

lemma apply_ops_advances:
  assumes "loop_inv old k l G as" and "proper_ops xs l" and "unat (currentCounter l) + length xs < 2 ^ 64"
  shows "\<exists>rs l' G' as'. apply_ops xs l = Some (rs, l') \<and> advances old k (length xs) l G as l' G' as'"
  using assms
proof (induction xs arbitrary: l G as)
  case Nil
  then show ?case using advances_refl by fastforce
next
  case (Cons x xs)
  obtain r l1 G1 as1 where x: "apply_op x l = Some (r, l1)" "advances old k 1 l G as l1 G1 as1"
    using apply_op_advances [OF Cons.prems(1), of x] Cons.prems(2,3) by auto
  have "loop_inv old k l1 G1 as1" "unat (currentCounter l1) + length xs < 2 ^ 64" "proper_ops xs l1"
    using x Cons.prems(2,3) by (auto simp: advances_def)
  from Cons.IH [OF this(1,3,2)] obtain rs l2 G2 as2 where
    y: "apply_ops xs l1 = Some (rs, l2)" "advances old k (length xs) l1 G1 as1 l2 G2 as2" by blast
  then have "apply_ops (x # xs) l = Some (r # rs, l2)" using x(1) by simp
  moreover have "advances old k (length (x # xs)) l G as l2 G2 as2" using advances_trans [OF x(2) y(2)] by simp
  ultimately show ?case by blast
qed

section \<open>The loop\<close>

definition stack :: "nat option \<Rightarrow> nat list \<Rightarrow> nat list" where
  "stack p P = (case p of None \<Rightarrow> P | Some a \<Rightarrow> a # P)"

lemma loop_inv_repin:
  assumes inv: "loop_inv old k l G as" and n: "nodes l a = Some n" and P: "pins l = a # P"
  shows "loop_inv old k (repin (next_node n) l) G as" "pins (repin (next_node n) l) = stack (next_node n) P"
    "currentCounter (repin (next_node n) l) = currentCounter l"
proof -
  have c: "closed l" using inv by (simp add: loop_inv_def holds_def)
  then have "\<forall>b\<in>set (stack (next_node n) P). nodes l b \<noteq> None"
    using n P unfolding closed_def alive_def stack_def by (auto split: option.splits)
  from loop_inv_collect [OF loop_inv_pins [OF inv this]]
  show "loop_inv old k (repin (next_node n) l) G as"
    using P by (simp add: repin_def unpin_def stack_def split: option.splits)
  show "pins (repin (next_node n) l) = stack (next_node n) P" "currentCounter (repin (next_node n) l) = currentCounter l"
    using P by (simp_all add: repin_def unpin_def stack_def split: option.splits)
qed

text \<open>What the rest of the loop does, from the nodes \<open>vs\<close> of \<open>G\<close> on.\<close>

definition finishes ::
    "(nat \<Rightarrow> 'f CallbackList \<Rightarrow> (bool \<times> 'f CallbackList) option) \<Rightarrow> nat set \<Rightarrow> 64 word \<Rightarrow> nat list \<Rightarrow> nat list \<Rightarrow> nat list \<Rightarrow> 'f CallbackList \<Rightarrow> bool" where
  "finishes f old k P vs as l \<longleftrightarrow> (\<exists>log l' G' as'. forEach_loop f k (first vs None) l = Some (True, log, l') \<and>
     loop_inv old k l' G' as' \<and> pins l' = P \<and> subseq log (filter (\<lambda>a. a \<in> old) vs) \<and>
     (\<forall>a\<in>set vs. a \<in> old \<longrightarrow> a \<notin> set log \<longrightarrow> a \<notin> set as') \<and> set as' \<inter> old \<subseteq> set as)"

lemma finishes_skip:
  assumes f: "finishes f old k P vs as (repin (next_node n) l)" and n: "nodes l a = Some n" "next_node n = first vs None"
    and s: "set us \<inter> set as \<inter> old = {}" and no: "\<not> (counter n \<noteq> removedCounter \<and> counter n \<le> k)" and a: "a \<in> old \<longrightarrow> a \<notin> set as"
  shows "finishes f old k P (a # us @ vs) as l"
proof -
  obtain log l' G' as' where r: "forEach_loop f k (first vs None) (repin (next_node n) l) = Some (True, log, l')"
     "loop_inv old k l' G' as'" "pins l' = P" "subseq log (filter (\<lambda>a. a \<in> old) vs)"
     "\<forall>a\<in>set vs. a \<in> old \<longrightarrow> a \<notin> set log \<longrightarrow> a \<notin> set as'" "set as' \<inter> old \<subseteq> set as"
    using f unfolding finishes_def by blast
  have "forEach_loop f k (first (a # us @ vs) None) l = Some (True, log, l')"
    using r(1) n no by (subst forEach_loop.simps) (auto simp: Let_def)
  moreover have "subseq log (filter (\<lambda>a. a \<in> old) (a # us @ vs))"
    using r(4) by (auto intro: subseq_append' list_emb_append2)
  moreover have "\<forall>b\<in>set (a # us @ vs). b \<in> old \<longrightarrow> b \<notin> set log \<longrightarrow> b \<notin> set as'"
    using r(5,6) s a by auto
  ultimately show ?thesis using r(2,3,6) unfolding finishes_def by blast
qed

lemma finishes_invoke:
  assumes f: "finishes f old k P vs as1 (repin (next_node n1) l1)" and n: "nodes l a = Some n" "nodes l1 a = Some n1" "next_node n1 = first vs None"
    and i: "f a l = Some (True, l1)" and s: "set us \<inter> set as1 \<inter> old = {}" and yes: "counter n \<noteq> removedCounter" "counter n \<le> k"
    and a: "a \<in> old" and ys: "filter (\<lambda>a. a \<in> old) ys = filter (\<lambda>a. a \<in> old) (us @ vs)" and as: "set as1 \<inter> old \<subseteq> set as"
  shows "finishes f old k P (a # ys) as l"
proof -
  obtain log l' G' as' where r: "forEach_loop f k (first vs None) (repin (next_node n1) l1) = Some (True, log, l')"
     "loop_inv old k l' G' as'" "pins l' = P" "subseq log (filter (\<lambda>a. a \<in> old) vs)"
     "\<forall>a\<in>set vs. a \<in> old \<longrightarrow> a \<notin> set log \<longrightarrow> a \<notin> set as'" "set as' \<inter> old \<subseteq> set as1"
    using f unfolding finishes_def by blast
  have "forEach_loop f k (first (a # ys) None) l = Some (True, a # log, l')"
    using r(1) n i yes by (subst forEach_loop.simps) (simp add: Let_def)
  moreover have "subseq (a # log) (filter (\<lambda>a. a \<in> old) (a # ys))"
    using r(4) a ys by (auto intro: list_emb_append2)
  moreover have "b \<notin> set as'" if b: "b \<in> set (a # ys)" "b \<in> old" "b \<notin> set (a # log)" for b
  proof -
    have "b \<in> set (filter (\<lambda>a. a \<in> old) ys)" using b by auto
    then have "b \<in> set us \<or> b \<in> set vs" unfolding ys by auto
    then show ?thesis using r(5,6) s b by auto
  qed
  ultimately show ?thesis using r(2,3,6) as unfolding finishes_def by blast
qed

lemma loop_finishes:
  assumes proper: "\<And>a l. proper_ops (script a l) l" and B: "\<And>a l. length (script a l) \<le> B"
  shows "loop_inv old k l (xs @ vs) as \<Longrightarrow> pins l = stack (first vs None) P \<Longrightarrow>
    unat (currentCounter l) + B * length (filter (\<lambda>a. a \<in> old) vs) < 2 ^ 64 \<Longrightarrow>
    finishes (invoke_script script) old k P vs as l"
proof (induction vs arbitrary: l xs as
    rule: wf_induct_rule [OF wf_inv_image [OF wf_lex_prod [OF wf_less wf_less], of "\<lambda>vs. (length (filter (\<lambda>a. a \<in> old) vs), length vs)"], case_names less])
  case (less vs)
  note inv = less.prems(1)
  have h: "holds l as" using inv by (simp add: loop_inv_def)
  show ?case
  proof (cases vs)
    case Nil
    then have "forEach_loop (invoke_script script) k (first vs None) l = Some (True, [], l)"
      by (subst forEach_loop.simps) simp
    then show ?thesis using Nil less.prems(1,2) unfolding finishes_def by (auto simp: stack_def)
  next
    case (Cons a ys)
    have P: "pins l = a # P" using less.prems(2) Cons by (simp add: stack_def)
    then obtain n where n: "nodes l a = Some n" using h by (auto simp: holds_def closed_def)
    have live: "a \<in> set as \<longleftrightarrow> counter n \<noteq> removedCounter" using holds_iff [OF h, of a] n by (simp add: removedCounter_def)
    have le: "a \<in> set as \<Longrightarrow> counter n \<le> k \<longleftrightarrow> a \<in> old" using inv n by (simp add: loop_inv_def)
    show ?thesis
    proof (cases "counter n \<noteq> removedCounter \<and> counter n \<le> k")
      case False
      obtain us ws where u: "ys = us @ ws" "next_node n = first ws None" "set us \<inter> set as \<inter> old = {}"
        using inv n Cons by (auto simp: loop_inv_def elim: skipsD)
      note r = loop_inv_repin [OF inv n P]
      have "B * length (filter (\<lambda>a. a \<in> old) ws) \<le> B * length (filter (\<lambda>a. a \<in> old) vs)"
        using Cons u(1) by (intro mult_le_mono) auto
      then have fewer: "unat (currentCounter l) + B * length (filter (\<lambda>a. a \<in> old) ws) < 2 ^ 64"
        using less.prems(3) by linarith
      have "finishes (invoke_script script) old k P ws as (repin (next_node n) l)"
        by (rule less.IH [of ws _ "xs @ a # us"]) (use r u Cons fewer in auto)
      from finishes_skip [OF this n u(2,3) False] show ?thesis using le live False Cons u(1) by auto
    next
      case True
      then have a: "a \<in> set as" "a \<in> old" using live le by auto
      have len: "length (filter (\<lambda>a. a \<in> old) vs) = Suc (length (filter (\<lambda>a. a \<in> old) ys))" using Cons a by simp
      have "unat (currentCounter l) + length (script a l) < 2 ^ 64" using less.prems(3) B [of a l] len by auto
      from apply_ops_advances [OF inv proper this] obtain rs l1 G1 as1 where
        op: "apply_ops (script a l) l = Some (rs, l1)" "advances old k (length (script a l)) l (xs @ vs) as l1 G1 as1" by blast
      then have inv1: "loop_inv old k l1 G1 as1" and P1: "pins l1 = a # P" and as1: "set as1 \<inter> old \<subseteq> set as"
        and G1: "filter (\<lambda>a. a \<in> old) G1 = filter (\<lambda>a. a \<in> old) (xs @ vs)" using P by (auto simp: advances_def)
      obtain n1 where n1: "nodes l1 a = Some n1" using inv1 P1 by (auto simp: loop_inv_def holds_def closed_def)
      have "a \<in> set (filter (\<lambda>a. a \<in> old) G1)" unfolding G1 using Cons a by simp
      then obtain xs1 ys1 where G: "G1 = xs1 @ a # ys1" by (auto dest: split_list)
      have d: "a \<notin> set xs" "a \<notin> set ys" using inv Cons by (auto simp: loop_inv_def)
      have "filter (\<lambda>a. a \<in> old) xs @ a # filter (\<lambda>a. a \<in> old) ys = filter (\<lambda>a. a \<in> old) xs1 @ a # filter (\<lambda>a. a \<in> old) ys1"
        using G1 G Cons a by simp
      then have ys1: "filter (\<lambda>a. a \<in> old) ys = filter (\<lambda>a. a \<in> old) ys1" using d by (simp add: append_Cons_eq_iff)
      obtain us ws where u: "ys1 = us @ ws" "next_node n1 = first ws None" "set us \<inter> set as1 \<inter> old = {}"
        using inv1 n1 G by (auto simp: loop_inv_def elim: skipsD)
      note r = loop_inv_repin [OF inv1 n1 P1]
      have shorter: "length (filter (\<lambda>a. a \<in> old) ws) < length (filter (\<lambda>a. a \<in> old) vs)" using len ys1 u(1) by simp
      have "B * length (filter (\<lambda>a. a \<in> old) ws) + B \<le> B * length (filter (\<lambda>a. a \<in> old) vs)"
        using mult_le_mono2 [of "Suc (length (filter (\<lambda>a. a \<in> old) ws))" "length (filter (\<lambda>a. a \<in> old) vs)" B] shorter by simp
      then have bound: "unat (currentCounter l1) + B * length (filter (\<lambda>a. a \<in> old) ws) < 2 ^ 64"
        using less.prems(3) B [of a l] op(2) by (auto simp: advances_def)
      have "finishes (invoke_script script) old k P ws as1 (repin (next_node n1) l1)"
        by (rule less.IH [of ws _ "xs1 @ a # us"]) (use r u G shorter bound in auto)
      moreover have "invoke_script script a l = Some (True, l1)" using op(1) by (simp add: invoke_script_def)
      ultimately show ?thesis
        using finishes_invoke [OF _ n n1 u(2) _ u(3) _ _ a(2)] True ys1 u(1) as1 Cons by simp
    qed
  qed
qed

lemma doForEachIf_finishes:
  assumes "\<And>a l. proper_ops (script a l) l" and "\<And>a l. length (script a l) \<le> B"
    and h: "holds l as" and "unat (currentCounter l) + B * length as < 2 ^ 64"
  shows "\<exists>log l' G' as'. doForEachIf (invoke_script script) l = Some (True, log, l') \<and> holds l' as' \<and> pins l' = pins l \<and>
    subseq log as \<and> (\<forall>a\<in>set as. a \<notin> set log \<longrightarrow> a \<notin> set as')"
proof -
  let ?l = "pin (list_head l) l"
  have head: "list_head l = first as None" using h by (simp add: holds_def)
  have p: "?l = l\<lparr>pins := stack (list_head l) (pins l)\<rparr>" by (simp add: pin_def stack_def split: option.split)
  have "\<forall>a\<in>set (stack (list_head l) (pins l)). nodes l a \<noteq> None"
    using h by (auto simp: holds_def closed_def alive_def stack_def split: option.splits)
  from loop_inv_pins [OF loop_inv_start [OF h] this] have "loop_inv (set as) (currentCounter l) ?l ([] @ as) as" by (simp add: p)
  from loop_finishes [of script B, OF assms(1,2) this, of "pins l"] have "finishes (invoke_script script) (set as) (currentCounter l) (pins l) as as ?l"
    using assms(4) by (simp add: p [unfolded head] head)
  then show ?thesis
    unfolding finishes_def doForEachIf_def head [symmetric] by (auto simp: loop_inv_def)
qed

text \<open>C18: when the callbacks of a list change the list while it is invoked, the loop ends and leaves a list
  with its links in order, the callbacks it invokes are callbacks that were in the list at the start, in
  the order of the list and each at most once, and every callback of the start that it does not invoke has
  been removed from the list.  The handles that the callbacks use belong to nodes of the list or to nodes
  that are gone, and the counter does not overflow during the loop.\<close>

theorem callbacks_invoked:
  assumes "apply_ops ops CallbackList_new = Some (rs, l)"
    and "\<And>a l. proper_ops (script a l) l" and "\<And>a l. length (script a l) \<le> B"
    and "unat (currentCounter l) + B * length (forwards l) < 2 ^ 64"
  shows "\<exists>log l'. doForEachIf (invoke_script script) l = Some (True, log, l') \<and> subseq log (map fst (forwards l)) \<and>
    (\<forall>a\<in>fst ` set (forwards l). a \<notin> set log \<longrightarrow> a \<notin> fst ` set (forwards l')) \<and> backwards l' = rev (forwards l')"
proof -
  obtain as where "holds l as" using apply_ops_refines [OF exact_new, of ops] assms(1) by (auto simp: exact_def)
  note f = forwards_holds [OF this] and h = this
  obtain log l' as' where "doForEachIf (invoke_script script) l = Some (True, log, l')" "holds l' as'" "subseq log as"
      "\<forall>a\<in>set as. a \<notin> set log \<longrightarrow> a \<notin> set as'"
    using doForEachIf_finishes [of script B, OF assms(2,3) h] assms(4) f by (auto simp: entries_def)
  then show ?thesis using f forwards_holds [of l' as'] backwards_holds [of l' as'] by auto
qed

theorem callbacks_invoked_witness:
  "\<exists>rs l log l'. apply_ops [Append ''a'', Append ''b'', Prepend ''c''] CallbackList_new = Some (rs, l) \<and>
     doForEachIf (invoke_script (\<lambda>a l. if usable a l then [Remove a, Append ''d''] else [])) l = Some (True, log, l') \<and>
     subseq log [2, 0, 1]"
proof -
  let ?script = "\<lambda>a (l :: string CallbackList). if usable a l then [Remove a, Append ''d''] else []"
  obtain rs l bs where l: "apply_ops [Append ''a'', Append ''b'', Prepend ''c''] CallbackList_new = Some (rs, l)"
      "exact l bs" "spec_ops [Append ''a'', Append ''b'', Prepend ''c''] (0, []) = (rs, fresh l, entries l bs)"
    using apply_ops_refines [OF exact_new, of "[Append ''a'', Append ''b'', Prepend ''c'']"] by (auto simp: CallbackList_new_def)
  then have f: "forwards l = [(2, ''c''), (0, ''a''), (1, ''b'')]" using forwards_holds [of l bs] by (auto simp: exact_def numeral_2_eq_2)
  have c: "currentCounter l = 3"
    using l(1) by (simp add: append_def prepend_def doAllocateNode_def getNextCounter_def make_node_def modify_def
      CallbackList_new_def set_previous_def set_next_def Let_def) auto
  have "proper_ops (?script a l) l" "length (?script a l) \<le> 2" for a l by (simp_all split: option.split)
  from callbacks_invoked [of _ rs l ?script 2, OF l(1) this] show ?thesis using l(1) f c by auto
qed

end
