(* ===== verification/CallbackLife.thy ===== *)
theory CallbackLife
  imports CallbackOps
begin

text \<open>
  Copies of a callback list, its destructor, and two ways to lose nodes: assignment from a temporary, and a
  handle of a node that has been removed and that a running loop keeps alive.
\<close>

section \<open>Copying\<close>

lemma clone_loop_copies:
  assumes "segment (nodes other) p bs None" and "holds l as" and "currentCounter l = c" and "c \<noteq> 0"
  shows "\<exists>m cs. clone_loop other c (first bs None) (final as None) (l\<lparr>list_tail := t\<rparr>) = Some m \<and> holds m (as @ cs) \<and>
     map snd (entries m (as @ cs)) = map snd (entries l as @ entries other bs)"
  using assms
proof (induction bs arbitrary: p l as)
  case Nil
  then have "l\<lparr>list_tail := final as None\<rparr> = l" by (simp add: holds_def)
  then show ?case using Nil by (subst clone_loop.simps) (auto intro: exI [of _ "[]"])
next
  case (Cons b bs)
  then obtain n where n: "nodes other b = Some n" "next_node n = first bs None" "segment (nodes other) (Some b) bs None" by auto
  let ?m = "linked (callback n) as [] l"
  have h: "holds ?m (as @ [fresh l])" using holds_linked [of l as "[]" "callback n"] Cons.prems by simp
  have e: "entries ?m (as @ [fresh l]) = entries l as @ [(fresh l, callback n)]"
  proof -
    have "entries ?m as = entries l as"
    proof (rule entries_cong)
      fix a assume "a \<in> set as"
      then show "map_option callback (nodes ?m a) = map_option callback (nodes l a) \<and> nodes ?m a \<noteq> None"
        using holds_alive [OF Cons.prems(2), of a] by (auto simp: callback_linked)
    qed
    then show ?thesis using callback_linked [of "callback n" as "[]" l "fresh l"] by auto
  qed
  have step: "clone_loop other c (first (b # bs) None) (final as None) (l\<lparr>list_tail := t\<rparr>) =
      clone_loop other c (first bs None) (final (as @ [fresh l]) None) (?m\<lparr>list_tail := t\<rparr>)"
  proof (cases as rule: rev_cases)
    case Nil
    then show ?thesis
      using n Cons.prems by (subst clone_loop.simps, cases l) (simp add: make_node_def modify_def linked_def set_previous_def)
  next
    case (snoc us u)
    obtain k where k: "nodes l u = Some k" "u < fresh l" using holds_alive [OF Cons.prems(2), of u] snoc by auto
    have "list_head l = first as (Some (fresh l))" using Cons.prems(2) snoc by (cases us) (auto simp: holds_def)
    then show ?thesis
      using n k snoc Cons.prems by (subst clone_loop.simps, cases l) (simp add: make_node_def modify_def linked_def set_previous_def set_next_def final_append)
  qed
  obtain m cs where "clone_loop other c (first bs None) (final (as @ [fresh l]) None) (?m\<lparr>list_tail := t\<rparr>) = Some m"
      "holds m ((as @ [fresh l]) @ cs)" "map snd (entries m ((as @ [fresh l]) @ cs)) = map snd (entries ?m (as @ [fresh l]) @ entries other bs)"
    using Cons.IH [OF n(3) h] Cons.prems(3,4) by auto
  then show ?case using step e n(1) by (intro exI [of _ m] exI [of _ "fresh l # cs"]) simp
qed

lemma CallbackList_copy_holds:
  assumes "holds l as"
  obtains m bs where "CallbackList_copy l = Some m" "holds m bs" "map snd (entries m bs) = map snd (entries l as)"
proof -
  let ?n = "CallbackList_new\<lparr>currentCounter := 1\<rparr>"
  have h: "holds ?n []" by (simp add: holds_def CallbackList_new_def closed_def alive_def)
  have "list_head l = first as None" "segment (nodes l) None as None" using assms by (auto simp: holds_def)
  then obtain m cs where "clone_loop l 1 (list_head l) None (?n\<lparr>list_tail := None\<rparr>) = Some m" "holds m cs"
      "map snd (entries m cs) = map snd (entries l as)"
    using clone_loop_copies [of l None as ?n "[]" 1 None] h by auto
  then show thesis by (intro that [of m cs]) (simp_all add: CallbackList_copy_def cloneFrom_def getNextCounter_def CallbackList_new_def)
qed

section \<open>Destroying\<close>

primrec chain :: "(nat \<Rightarrow> 'f Node option) \<Rightarrow> nat list \<Rightarrow> bool" where
  "chain N [] \<longleftrightarrow> True"
| "chain N (a # as) \<longleftrightarrow> (\<exists>n. N a = Some n \<and> next_node n = first as None \<and> chain N as)"

lemma chain_cong: "(\<And>a. a \<in> set as \<Longrightarrow> N a = M a) \<Longrightarrow> chain N as = chain M as"
  by (induction as) auto

lemma chain_owned: "chain N as \<Longrightarrow> a \<in> set as \<Longrightarrow> first as None = Some a \<or> (\<exists>b\<in>set as. \<exists>n. N b = Some n \<and> next_node n = Some a)"
proof (induction as)
  case (Cons b as)
  then show ?case by (cases "a = b") auto
qed simp

lemma chain_alive: "chain N as \<Longrightarrow> a \<in> set as \<Longrightarrow> N a \<noteq> None"
  by (induction as) auto

text \<open>The destructor before it has visited the nodes \<open>ys\<close>: the other nodes own nothing.\<close>

definition destroying :: "nat list \<Rightarrow> 'f CallbackList \<Rightarrow> bool" where
  "destroying ys l \<longleftrightarrow> distinct ys \<and> chain (nodes l) ys \<and> list_head l = None \<and> pins l = (case first ys None of None \<Rightarrow> [] | Some a \<Rightarrow> [a]) \<and>
     (\<forall>a n. nodes l a = Some n \<longrightarrow> a < fresh l \<and> (a \<in> set ys \<or> previous n = None \<and> next_node n = None))"

lemma destroying_collect:
  assumes "destroying ys l"
  shows "destroying ys (collect l)"
proof -
  have "owned_set l (set ys)"
    unfolding owned_set_def
  proof
    fix a assume a: "a \<in> set ys"
    have "chain (nodes l) ys" "pins l = (case first ys None of None \<Rightarrow> [] | Some a \<Rightarrow> [a])" using assms by (auto simp: destroying_def)
    then have "a \<in> set (pins l) \<or> (\<exists>b\<in>set ys. \<exists>n. nodes l b = Some n \<and> next_node n = Some a)" using chain_owned [OF _ a] by fastforce
    moreover have "b < fresh l" if "nodes l b = Some n" for b n using assms that by (auto simp: destroying_def)
    ultimately show "list_head l = Some a \<or> list_tail l = Some a \<or> a \<in> set (pins l) \<or>
        (\<exists>b\<in>set ys. \<exists>n. b < fresh l \<and> nodes l b = Some n \<and> (next_node n = Some a \<or> previous n = Some a))" by blast
  qed
  then have "chain (nodes (collect l)) ys"
    using assms chain_cong [of ys "nodes (collect l)" "nodes l"] collect_keeps by (auto simp: destroying_def)
  moreover have "nodes l a = Some n" if "nodes (collect l) a = Some n" for a n using that collect_nodes [of l a] by auto
  ultimately show ?thesis using assms by (simp add: destroying_def)
qed

lemma destroy_loop_returns:
  "destroying ys l \<Longrightarrow> \<exists>m. destroy_loop (first ys None) l = Some m \<and> destroying [] m"
proof (induction ys arbitrary: l)
  case Nil
  then show ?case by (subst destroy_loop.simps) simp
next
  case (Cons a ys)
  then obtain n where n: "nodes l a = Some n" "next_node n = first ys None" by (auto simp: destroying_def)
  let ?r = "n\<lparr>previous := None, next_node := None\<rparr>"
  let ?l = "l\<lparr>nodes := (nodes l)(a \<mapsto> ?r), pins := (case first ys None of None \<Rightarrow> [] | Some b \<Rightarrow> [b])\<rparr>"
  have "chain ((nodes l)(a \<mapsto> ?r)) ys = chain (nodes l) ys"
    by (rule chain_cong) (use Cons.prems in \<open>auto simp: destroying_def\<close>)
  then have "destroying ys ?l" using Cons.prems by (auto simp: destroying_def)
  then have d: "destroying ys (collect ?l)" by (rule destroying_collect)
  have "pins l = [a]" using Cons.prems by (simp add: destroying_def)
  then have "destroy_loop (first (a # ys) None) l = destroy_loop (first ys None) (collect ?l)"
    using n by (subst destroy_loop.simps) (simp add: modify_def set_previous_def set_next_def repin_def unpin_def split: option.split)
  then show ?case using Cons.IH [OF d] by simp
qed

lemma CallbackList_destroy_frees:
  assumes "exact l as"
  shows "\<exists>m. CallbackList_destroy l = Some m \<and> (\<forall>a. nodes m a = None)"
proof -
  have h: "holds l as" "pins l = []" "\<And>a. nodes l a = None \<longleftrightarrow> a \<notin> set as" using assms by (auto simp: exact_def)
  let ?l = "(pin (list_head l) l)\<lparr>list_head := None\<rparr>"
  have chain: "segment N p bs None \<Longrightarrow> chain N bs" for N :: "nat \<Rightarrow> 'a Node option" and p bs by (induction bs arbitrary: p) auto
  have head: "list_head l = first as None" using h(1) by (simp add: holds_def)
  have "a < fresh l \<and> a \<in> set as" if "nodes l a = Some n" for a n using h(1) h(3) [of a] that by (auto simp: holds_def closed_def)
  then have "destroying as ?l"
    using h(1,2) chain [of "nodes l" None as] head
    by (auto simp: destroying_def holds_def pin_def split: option.splits)
  from destroy_loop_returns [OF this] obtain m where m: "destroy_loop (list_head l) ?l = Some m" "destroying [] m" using head by auto
  let ?c = "collect (m\<lparr>list_tail := None\<rparr>)"
  have "nodes ?c a = None" for a
  proof (rule ccontr)
    assume a: "nodes ?c a \<noteq> None"
    have n: "a < fresh m \<and> previous n = None \<and> next_node n = None" if "nodes ?c a = Some n" for a n
    proof -
      have "nodes m a = Some n" using that collect_nodes [of "m\<lparr>list_tail := None\<rparr>" a] by auto
      then show ?thesis using m(2) by (auto simp: destroying_def)
    qed
    have "use_count ?c a = 0"
    proof (rule ccontr)
      assume "use_count ?c a \<noteq> 0"
      then obtain b n' where "nodes ?c b = Some n'" "next_node n' = Some a \<or> previous n' = Some a"
        by (rule use_count_pos) (use m(2) in \<open>simp_all add: destroying_def\<close>)
      then show False using n by auto
    qed
    then show False using a n collect_none_unowned [of "m\<lparr>list_tail := None\<rparr>" a] by (auto simp: unowned_def)
  qed
  then show ?thesis using m(1) by (simp add: CallbackList_destroy_def Let_def)
qed

text \<open>C28: a copy of a callback list holds the same callbacks in the same order, and the destructor leaves no
  node alive, although the nodes own each other in cycles.\<close>

theorem callback_list_life:
  assumes "apply_ops ops CallbackList_new = Some (rs, l)"
  shows "(\<exists>m. CallbackList_copy l = Some m \<and> map snd (forwards m) = map snd (forwards l) \<and> backwards m = rev (forwards m)) \<and>
    (\<exists>d. CallbackList_destroy l = Some d \<and> (\<forall>a. nodes d a = None))"
proof -
  obtain as where e: "exact l as" using apply_ops_refines [OF exact_new, of ops] assms by auto
  then have h: "holds l as" by (simp add: exact_def)
  obtain m bs where m: "CallbackList_copy l = Some m" "holds m bs" "map snd (entries m bs) = map snd (entries l as)"
    by (rule CallbackList_copy_holds [OF h])
  then show ?thesis
    using CallbackList_destroy_frees [OF e] forwards_holds [OF h] forwards_holds [OF m(2)] backwards_holds [OF m(2)] by simp
qed

theorem callback_list_life_witness:
  "\<exists>rs l d. apply_ops [Append ''a'', Prepend ''b'', Remove 0] CallbackList_new = Some (rs, l) \<and>
     CallbackList_destroy l = Some d \<and> (\<forall>a. nodes d a = None)"
proof -
  obtain rs l where l: "apply_ops [Append ''a'', Prepend ''b'', Remove 0] CallbackList_new = Some (rs, l)"
    using apply_ops_refines [OF exact_new, of "[Append ''a'', Prepend ''b'', Remove 0]"] by blast
  show ?thesis using l callback_list_life [OF l] by blast
qed

section \<open>Lost nodes\<close>

text \<open>Assignment from a temporary drops \<open>head\<close> and \<open>tail\<close> of the old list; its nodes, when there are at
  least two, keep each other alive and are never destroyed.\<close>

lemma move_assign_leaks:
  assumes "exact l (a # b # as)" and "c \<in> set (a # b # as)"
  shows "nodes (snd (move_assign other l)) c \<noteq> None"
proof -
  let ?l = "l\<lparr>list_head := None, list_tail := None\<rparr>" and ?as = "a # b # as"
  have h: "holds l ?as" using assms(1) by (simp add: exact_def)
  have "owned_set ?l (set ?as)"
    unfolding owned_set_def
  proof
    fix d assume d: "d \<in> set ?as"
    have "\<exists>e\<in>set ?as. \<exists>n. nodes l e = Some n \<and> (next_node n = Some d \<or> previous n = Some d)"
    proof (cases "d = a")
      case True
      then show ?thesis using h by (auto simp: holds_def)
    next
      case False
      moreover have "segment (nodes l) None ?as None" using h by (simp add: holds_def)
      from segment_owned [OF this d] have "a = d \<or> (\<exists>e\<in>set ?as. \<exists>n. nodes l e = Some n \<and> next_node n = Some d)" by simp
      ultimately show ?thesis by blast
    qed
    then show "list_head ?l = Some d \<or> list_tail ?l = Some d \<or> d \<in> set (pins ?l) \<or>
        (\<exists>b\<in>set ?as. \<exists>n. b < fresh ?l \<and> nodes ?l b = Some n \<and> (next_node n = Some d \<or> previous n = Some d))"
      using holds_alive [OF h] by simp blast
  qed
  from collect_keeps [OF this assms(2)] show ?thesis using holds_alive [OF h assms(2)] by (auto simp: move_assign_def)
qed

text \<open>A handle of a node that has been removed while a loop is at that node: removing it again unlinks a
  callback that was added in between.\<close>

lemma removed_twice:
  "map_option (\<lambda>(rs, l). (rs, map snd (forwards l)))
     (apply_ops [Append ''a'', Append ''b'', Append ''c''] CallbackList_new \<bind> (\<lambda>(rs, l).
       apply_ops [Remove 1, Insert ''d'' 2, Remove 1] (pin (Some 1) l))) =
   Some ([Removed True, Handle 3, Removed True], [''a'', ''c''])"
  by code_simp

end
