(* ===== verification/EventQueue.thy ===== *)
theory EventQueue
  imports CallbackOps
begin

text \<open>
  \<open>EventDispatcherBase\<close> and \<open>EventQueueBase\<close> of eventpp (eventdispatcher.h and eventqueue.h in
  src/Shared/code/eventpp) with the default policies: a callback list per event, and a queue of events.
  Calls are atomic.  The callbacks do not change the listeners here (CallbackLoop has that); they may
  enqueue events.
\<close>

section \<open>Dispatcher\<close>

record ('e, 'f) EventDispatcher =
  eventCallbackListMap :: "'e \<Rightarrow> 'f CallbackList option"

definition EventDispatcher_new :: "('e, 'f) EventDispatcher" where
  "EventDispatcher_new = \<lparr>eventCallbackListMap = (\<lambda>_. None)\<rparr>"

text \<open>\<open>eventCallbackListMap[event]\<close>, which makes an empty list when there is none.\<close>

definition list_at :: "'e \<Rightarrow> ('e, 'f, 'z) EventDispatcher_scheme \<Rightarrow> 'f CallbackList" where
  "list_at event d = (case eventCallbackListMap d event of None \<Rightarrow> CallbackList_new | Some l \<Rightarrow> l)"

definition put_list :: "'e \<Rightarrow> 'f CallbackList \<Rightarrow> ('e, 'f, 'z) EventDispatcher_scheme \<Rightarrow> ('e, 'f, 'z) EventDispatcher_scheme" where
  "put_list event l d = d\<lparr>eventCallbackListMap := (eventCallbackListMap d)(event \<mapsto> l)\<rparr>"

definition appendListener ::
    "'e \<Rightarrow> 'f \<Rightarrow> ('e, 'f, 'z) EventDispatcher_scheme \<Rightarrow> (nat \<times> ('e, 'f, 'z) EventDispatcher_scheme) option" where
  "appendListener event f d = map_option (map_prod id (\<lambda>l. put_list event l d)) (append f (list_at event d))"

definition prependListener ::
    "'e \<Rightarrow> 'f \<Rightarrow> ('e, 'f, 'z) EventDispatcher_scheme \<Rightarrow> (nat \<times> ('e, 'f, 'z) EventDispatcher_scheme) option" where
  "prependListener event f d = map_option (map_prod id (\<lambda>l. put_list event l d)) (prepend f (list_at event d))"

definition insertListener ::
    "'e \<Rightarrow> 'f \<Rightarrow> nat \<Rightarrow> ('e, 'f, 'z) EventDispatcher_scheme \<Rightarrow> (nat \<times> ('e, 'f, 'z) EventDispatcher_scheme) option" where
  "insertListener event f before d = map_option (map_prod id (\<lambda>l. put_list event l d)) (insert f before (list_at event d))"

definition doFindCallableList :: "'e \<Rightarrow> ('e, 'f, 'z) EventDispatcher_scheme \<Rightarrow> 'f CallbackList option" where
  "doFindCallableList e d = eventCallbackListMap d e"

definition removeListener ::
    "'e \<Rightarrow> nat \<Rightarrow> ('e, 'f, 'z) EventDispatcher_scheme \<Rightarrow> (bool \<times> ('e, 'f, 'z) EventDispatcher_scheme) option" where
  "removeListener event handle d = (case doFindCallableList event d of
       None \<Rightarrow> Some (False, d)
     | Some l \<Rightarrow> map_option (map_prod id (\<lambda>l. put_list event l d)) (remove handle l))"

text \<open>The callbacks that \<open>doDispatch\<close> invokes, in order; they leave the list as it is.\<close>

definition doDispatch :: "'e \<Rightarrow> ('e, 'f, 'z) EventDispatcher_scheme \<Rightarrow> 'f list option" where
  "doDispatch e d = (case doFindCallableList e d of
       None \<Rightarrow> Some []
     | Some l \<Rightarrow> map_option (\<lambda>(r, log, l). map (\<lambda>a. callback (the (nodes l a))) log) (doForEachIf (\<lambda>a l. Some (True, l)) l))"

section \<open>Queue\<close>

text \<open>A \<open>QueuedItem\<close> holds an event while it is allocated; \<open>None\<close> as a result is a failed assertion.\<close>

type_synonym ('e, 'a) QueuedItem = "('e \<times> 'a) option"

definition item_set :: "'e \<times> 'a \<Rightarrow> ('e, 'a) QueuedItem \<Rightarrow> ('e, 'a) QueuedItem option" where
  "item_set v item = (if item \<noteq> None then None else Some (Some v))"

definition item_get :: "('e, 'a) QueuedItem \<Rightarrow> ('e \<times> 'a) option" where
  "item_get item = item"

definition item_clear :: "('e, 'a) QueuedItem \<Rightarrow> ('e, 'a) QueuedItem option" where
  "item_clear item = (if item = None then None else Some None)"

text \<open>\<open>notifications\<close> counts the calls of \<open>notify_one\<close>.\<close>

record ('e, 'f, 'a) EventQueue = "('e, 'f) EventDispatcher" +
  queueEmptyCounter :: int
  queueNotifyCounter :: int
  queueList :: "('e, 'a) QueuedItem list"
  freeList :: "('e, 'a) QueuedItem list"
  notifications :: nat

definition EventQueue_new :: "('e, 'f, 'a) EventQueue" where
  "EventQueue_new = \<lparr>eventCallbackListMap = (\<lambda>_. None), queueEmptyCounter = 0, queueNotifyCounter = 0,
     queueList = [], freeList = [], notifications = 0\<rparr>"

definition queue_empty :: "('e, 'f, 'a) EventQueue \<Rightarrow> bool" where
  "queue_empty q \<longleftrightarrow> queueList q = [] \<and> queueEmptyCounter q = 0"

definition doCanNotifyQueueAvailable :: "('e, 'f, 'a) EventQueue \<Rightarrow> bool" where
  "doCanNotifyQueueAvailable q \<longleftrightarrow> queueNotifyCounter q = 0"

definition doCanProcess :: "('e, 'f, 'a) EventQueue \<Rightarrow> bool" where
  "doCanProcess q \<longleftrightarrow> \<not> queue_empty q \<and> doCanNotifyQueueAvailable q"

definition notify_one :: "('e, 'f, 'a) EventQueue \<Rightarrow> ('e, 'f, 'a) EventQueue" where
  "notify_one q = q\<lparr>notifications := notifications q + 1\<rparr>"

definition DisableQueueNotify :: "('e, 'f, 'a) EventQueue \<Rightarrow> ('e, 'f, 'a) EventQueue" where
  "DisableQueueNotify q = q\<lparr>queueNotifyCounter := queueNotifyCounter q + 1\<rparr>"

definition DisableQueueNotify_end :: "('e, 'f, 'a) EventQueue \<Rightarrow> ('e, 'f, 'a) EventQueue" where
  "DisableQueueNotify_end q = (let q = q\<lparr>queueNotifyCounter := queueNotifyCounter q - 1\<rparr> in
     if doCanNotifyQueueAvailable q \<and> \<not> queue_empty q then notify_one q else q)"

definition doEnqueue :: "'e \<times> 'a \<Rightarrow> ('e, 'f, 'a) EventQueue \<Rightarrow> ('e, 'f, 'a) EventQueue option" where
  "doEnqueue item q =
     (let (it, q) = (case freeList q of [] \<Rightarrow> (None, q) | it # rest \<Rightarrow> (it, q\<lparr>freeList := rest\<rparr>)) in
      map_option (\<lambda>it. q\<lparr>queueList := queueList q @ [it]\<rparr>) (item_set item it))"

definition enqueue :: "'e \<times> 'a \<Rightarrow> ('e, 'f, 'a) EventQueue \<Rightarrow> ('e, 'f, 'a) EventQueue option" where
  "enqueue item q = map_option (\<lambda>q. if doCanProcess q then notify_one q else q) (doEnqueue item q)"

fun enqueue_all :: "('e \<times> 'a) list \<Rightarrow> ('e, 'f, 'a) EventQueue \<Rightarrow> ('e, 'f, 'a) EventQueue option" where
  "enqueue_all [] q = Some q"
| "enqueue_all (x # xs) q = enqueue x q \<bind> enqueue_all xs"

text \<open>
  \<open>doDispatchQueuedEvent\<close>: each callback of the event is invoked with the arguments and enqueues the events
  that \<open>emits\<close> gives.  The callbacks invoked are returned with their arguments.
\<close>

definition doDispatchQueuedEvent ::
    "('f \<Rightarrow> 'a \<Rightarrow> ('e \<times> 'a) list) \<Rightarrow> 'e \<times> 'a \<Rightarrow> ('e, 'f, 'a) EventQueue \<Rightarrow> (('f \<times> 'a) list \<times> ('e, 'f, 'a) EventQueue) option" where
  "doDispatchQueuedEvent emits v q = do {
     fs \<leftarrow> doDispatch (fst v) q;
     q \<leftarrow> enqueue_all (concat (map (\<lambda>f. emits f (snd v)) fs)) q;
     Some (map (\<lambda>f. (f, snd v)) fs, q)
   }"

text \<open>The loop over the items taken from the queue; each is dispatched and cleared.\<close>

fun dispatch_items ::
    "('f \<Rightarrow> 'a \<Rightarrow> ('e \<times> 'a) list) \<Rightarrow> ('e, 'a) QueuedItem list \<Rightarrow> ('e, 'f, 'a) EventQueue \<Rightarrow>
     (('f \<times> 'a) list \<times> ('e, 'a) QueuedItem list \<times> ('e, 'f, 'a) EventQueue) option" where
  "dispatch_items emits [] q = Some ([], [], q)"
| "dispatch_items emits (item # items) q = do {
     v \<leftarrow> item_get item;
     (log, q) \<leftarrow> doDispatchQueuedEvent emits v q;
     item \<leftarrow> item_clear item;
     (logs, items, q) \<leftarrow> dispatch_items emits items q;
     Some (log @ logs, item # items, q)
   }"

text \<open>\<open>CounterGuard\<close> adds one to \<open>queueEmptyCounter\<close> during the call.\<close>

definition guard_up :: "('e, 'f, 'a) EventQueue \<Rightarrow> ('e, 'f, 'a) EventQueue" where
  "guard_up q = q\<lparr>queueEmptyCounter := queueEmptyCounter q + 1\<rparr>"

definition guard_down :: "('e, 'f, 'a) EventQueue \<Rightarrow> ('e, 'f, 'a) EventQueue" where
  "guard_down q = q\<lparr>queueEmptyCounter := queueEmptyCounter q - 1\<rparr>"

definition process ::
    "('f \<Rightarrow> 'a \<Rightarrow> ('e \<times> 'a) list) \<Rightarrow> ('e, 'f, 'a) EventQueue \<Rightarrow> (bool \<times> ('f \<times> 'a) list \<times> ('e, 'f, 'a) EventQueue) option" where
  "process emits q =
     (if queueList q \<noteq> [] then do {
        let q = guard_up q;
        let tempList = queueList q;
        (log, tempList, q) \<leftarrow> dispatch_items emits tempList (q\<lparr>queueList := []\<rparr>);
        Some (True, log, guard_down (q\<lparr>freeList := freeList q @ tempList\<rparr>))
      }
      else Some (False, [], q))"

definition processOne ::
    "('f \<Rightarrow> 'a \<Rightarrow> ('e \<times> 'a) list) \<Rightarrow> ('e, 'f, 'a) EventQueue \<Rightarrow> (bool \<times> ('f \<times> 'a) list \<times> ('e, 'f, 'a) EventQueue) option" where
  "processOne emits q = (case queueList q of
       item # rest \<Rightarrow> do {
         let q = guard_up q;
         v \<leftarrow> item_get item;
         (log, q) \<leftarrow> doDispatchQueuedEvent emits v (q\<lparr>queueList := rest\<rparr>);
         item \<leftarrow> item_clear item;
         Some (True, log, guard_down (q\<lparr>freeList := freeList q @ [item]\<rparr>))
       }
     | [] \<Rightarrow> Some (False, [], q))"

text \<open>
  The loop of \<open>processIf\<close>; \<open>kept\<close> are the items before the iterator in \<open>tempList\<close>.  When there are none,
  \<open>--it\<close> goes before the first element, which is undefined.
\<close>

fun processIf_loop ::
    "('f \<Rightarrow> 'a \<Rightarrow> ('e \<times> 'a) list) \<Rightarrow> ('a \<Rightarrow> bool) \<Rightarrow> ('e, 'a) QueuedItem list \<Rightarrow> ('e, 'a) QueuedItem list \<Rightarrow> ('e, 'f, 'a) EventQueue \<Rightarrow>
     (('f \<times> 'a) list \<times> ('e, 'a) QueuedItem list \<times> ('e, 'a) QueuedItem list \<times> ('e, 'f, 'a) EventQueue) option" where
  "processIf_loop emits func kept [] q = Some ([], kept, [], q)"
| "processIf_loop emits func kept (item # items) q = do {
     v \<leftarrow> item_get item;
     if func (snd v) then do {
       (log, q) \<leftarrow> doDispatchQueuedEvent emits v q;
       item \<leftarrow> item_clear item;
       if kept = [] then None
       else do {
         (logs, kept, idleList, q) \<leftarrow> processIf_loop emits func kept items q;
         Some (log @ logs, kept, item # idleList, q)
       }
     }
     else processIf_loop emits func (kept @ [item]) items q
   }"

definition processIf ::
    "('f \<Rightarrow> 'a \<Rightarrow> ('e \<times> 'a) list) \<Rightarrow> ('a \<Rightarrow> bool) \<Rightarrow> ('e, 'f, 'a) EventQueue \<Rightarrow>
     (bool \<times> ('f \<times> 'a) list \<times> ('e, 'f, 'a) EventQueue) option" where
  "processIf emits func q =
     (if queueList q \<noteq> [] then do {
        let q = guard_up q;
        let tempList = queueList q;
        (log, tempList, idleList, q) \<leftarrow> processIf_loop emits func [] tempList (q\<lparr>queueList := []\<rparr>);
        let q = q\<lparr>queueList := tempList @ queueList q\<rparr>;
        Some (idleList \<noteq> [], log, guard_down (q\<lparr>freeList := freeList q @ idleList\<rparr>))
      }
      else Some (False, [], q))"

fun clear_items :: "('e, 'a) QueuedItem list \<Rightarrow> ('e, 'a) QueuedItem list option" where
  "clear_items [] = Some []"
| "clear_items (item # items) = do { item \<leftarrow> item_clear item; items \<leftarrow> clear_items items; Some (item # items) }"

definition clearEvents :: "('e, 'f, 'a) EventQueue \<Rightarrow> ('e, 'f, 'a) EventQueue option" where
  "clearEvents q =
     (if queueList q \<noteq> [] then
        map_option (\<lambda>tempList. q\<lparr>queueList := [], freeList := freeList q @ tempList\<rparr>) (clear_items (queueList q))
      else Some q)"

definition peekEvent :: "('e, 'f, 'a) EventQueue \<Rightarrow> ('e \<times> 'a) option option" where
  "peekEvent q = (case queueList q of item # rest \<Rightarrow> map_option Some (item_get item) | [] \<Rightarrow> Some None)"

definition takeEvent :: "('e, 'f, 'a) EventQueue \<Rightarrow> (('e \<times> 'a) option \<times> ('e, 'f, 'a) EventQueue) option" where
  "takeEvent q = (case queueList q of
       item # rest \<Rightarrow> do {
         v \<leftarrow> item_get item;
         item \<leftarrow> item_clear item;
         Some (Some v, q\<lparr>queueList := rest, freeList := freeList q @ [item]\<rparr>)
       }
     | [] \<Rightarrow> Some (None, q))"

end
