(* ===== verification/EventQueueSpec.thy ===== *)
theory EventQueueSpec
  imports EventQueue
begin

text \<open>
  The event queue as a list of events and a list of callbacks per event: what a sequence of operations
  returns, which callbacks it invokes and in which order.
\<close>

section \<open>Invoking callbacks that do not change the list\<close>

lemma collect_all_owned:
  assumes "holds l as" and "\<And>a. nodes l a = None \<longleftrightarrow> a \<notin> set as"
  shows "collect l = l"
proof -
  have "nodes (collect l) a = nodes l a" for a
  proof (cases "a \<in> set as")
    case True
    then show ?thesis using holds_alive [OF holds_collect [OF assms(1)], of a] collect_nodes [of l a] by auto
  next
    case False
    then show ?thesis using assms(2) [of a] collect_nodes [of l a] by auto
  qed
  then have "nodes (collect l) = nodes l" ..
  then show ?thesis by (intro CallbackList.equality) simp_all
qed

lemma holds_pins: "holds l as \<Longrightarrow> set P \<subseteq> set as \<Longrightarrow> holds (l\<lparr>pins := P\<rparr>) as"
  using holds_alive [of l as] by (fastforce simp: holds_def closed_def alive_def)

definition at_node :: "nat list \<Rightarrow> 'f CallbackList \<Rightarrow> 'f CallbackList" where
  "at_node ys l = l\<lparr>pins := (case first ys None of None \<Rightarrow> [] | Some a \<Rightarrow> [a])\<rparr>"

lemma forEach_plain:
  assumes "exact l as" and "k = currentCounter l"
  shows "segment (nodes l) p ys None \<Longrightarrow> set ys \<subseteq> set as \<Longrightarrow>
    forEach_loop (\<lambda>a l. Some (True, l)) k (first ys None) (at_node ys l) = Some (True, ys, l)"
proof (induction ys arbitrary: p)
  case Nil
  have "at_node [] l = l" using assms by (cases l) (simp add: at_node_def exact_def)
  then show ?case by (subst forEach_loop.simps) simp
next
  case (Cons a ys)
  have h: "holds l as" "\<And>a. nodes l a = None \<longleftrightarrow> a \<notin> set as" using assms by (auto simp: exact_def)
  obtain n where n: "nodes l a = Some n" "next_node n = first ys None" "counter n \<noteq> 0" using Cons.prems by auto
  have "counter n \<le> k" using h(1) n(1) Cons.prems(2) assms(2) unfolding holds_def by fastforce
  moreover have "repin (next_node n) (at_node (a # ys) l) = at_node ys l"
  proof -
    have "set (case first ys None of None \<Rightarrow> [] | Some a \<Rightarrow> [a]) \<subseteq> set as" using Cons.prems(2) by (cases ys) auto
    then have "collect (at_node ys l) = at_node ys l"
      using collect_all_owned [OF holds_pins [OF h(1)]] h(2) by (simp add: at_node_def)
    then show ?thesis using n(2) by (cases ys) (simp_all add: repin_def unpin_def at_node_def)
  qed
  ultimately show ?case
    using n Cons.IH [of "Some a"] Cons.prems by (subst forEach_loop.simps) (simp add: at_node_def removedCounter_def)
qed

lemma doForEachIf_plain:
  assumes "exact l as"
  shows "doForEachIf (\<lambda>a l. Some (True, l)) l = Some (True, as, l)"
proof -
  have h: "segment (nodes l) None as None" "list_head l = first as None" "pins l = []" using assms by (auto simp: exact_def holds_def)
  have "pin (list_head l) l = at_node as l" using h(2,3) by (cases as; cases l) (simp_all add: pin_def at_node_def)
  then show ?thesis using forEach_plain [OF assms refl h(1)] h(2) by (simp add: doForEachIf_def)
qed

section \<open>The specification\<close>

datatype ('e, 'f, 'a) queue_op =
    Listener 'e "'f list_op" | Enqueue 'e 'a | Process | ProcessOne | Take | Peek | Clear | Is_empty

datatype ('e, 'f, 'a) queue_result =
    Of_listener op_result | Done | Processed bool "('f \<times> 'a) list" | Event "('e \<times> 'a) option" | Answer bool

fun listener_op :: "'e \<Rightarrow> 'f list_op \<Rightarrow> ('e, 'f, 'a) EventQueue \<Rightarrow> (op_result \<times> ('e, 'f, 'a) EventQueue) option" where
  "listener_op e (Append f) q = map_option (map_prod Handle id) (appendListener e f q)"
| "listener_op e (Prepend f) q = map_option (map_prod Handle id) (prependListener e f q)"
| "listener_op e (Insert f before) q = map_option (map_prod Handle id) (insertListener e f before q)"
| "listener_op e (Remove handle) q = map_option (map_prod Removed id) (removeListener e handle q)"

fun queue_step ::
    "('f \<Rightarrow> 'a \<Rightarrow> ('e \<times> 'a) list) \<Rightarrow> ('e, 'f, 'a) queue_op \<Rightarrow> ('e, 'f, 'a) EventQueue \<Rightarrow>
     (('e, 'f, 'a) queue_result \<times> ('e, 'f, 'a) EventQueue) option" where
  "queue_step emits (Listener e x) q = map_option (map_prod Of_listener id) (listener_op e x q)"
| "queue_step emits (Enqueue e a) q = map_option (Pair Done) (enqueue (e, a) q)"
| "queue_step emits Process q = map_option (\<lambda>(b, log, q). (Processed b log, q)) (process emits q)"
| "queue_step emits ProcessOne q = map_option (\<lambda>(b, log, q). (Processed b log, q)) (processOne emits q)"
| "queue_step emits Take q = map_option (map_prod Event id) (takeEvent q)"
| "queue_step emits Peek q = map_option (\<lambda>v. (Event v, q)) (peekEvent q)"
| "queue_step emits Clear q = map_option (Pair Done) (clearEvents q)"
| "queue_step emits Is_empty q = Some (Answer (queue_empty q), q)"

text \<open>The callbacks invoked for an event, and the events they enqueue.\<close>

type_synonym ('e, 'f) listeners = "'e \<Rightarrow> nat \<times> (nat \<times> 'f) list"

definition invoked :: "('e, 'f) listeners \<Rightarrow> 'e \<times> 'a \<Rightarrow> ('f \<times> 'a) list" where
  "invoked ls v = map (\<lambda>(h, f). (f, snd v)) (snd (ls (fst v)))"

definition emitted :: "('f \<Rightarrow> 'a \<Rightarrow> ('e \<times> 'a) list) \<Rightarrow> ('f \<times> 'a) list \<Rightarrow> ('e \<times> 'a) list" where
  "emitted emits log = concat (map (\<lambda>(f, a). emits f a) log)"

fun queue_spec ::
    "('f \<Rightarrow> 'a \<Rightarrow> ('e \<times> 'a) list) \<Rightarrow> ('e, 'f, 'a) queue_op \<Rightarrow> ('e, 'f) listeners \<times> ('e \<times> 'a) list \<Rightarrow>
     ('e, 'f, 'a) queue_result \<times> ('e, 'f) listeners \<times> ('e \<times> 'a) list" where
  "queue_spec emits (Listener e x) (ls, evs) = (let (r, s) = spec_op x (ls e) in (Of_listener r, ls(e := s), evs))"
| "queue_spec emits (Enqueue e a) (ls, evs) = (Done, ls, evs @ [(e, a)])"
| "queue_spec emits Process (ls, evs) =
     (let log = concat (map (invoked ls) evs) in (Processed (evs \<noteq> []) log, ls, emitted emits log))"
| "queue_spec emits ProcessOne (ls, evs) = (case evs of
       [] \<Rightarrow> (Processed False [], ls, [])
     | v # rest \<Rightarrow> (Processed True (invoked ls v), ls, rest @ emitted emits (invoked ls v)))"
| "queue_spec emits Take (ls, evs) = (case evs of [] \<Rightarrow> (Event None, ls, []) | v # rest \<Rightarrow> (Event (Some v), ls, rest))"
| "queue_spec emits Peek (ls, evs) = (Event (case evs of [] \<Rightarrow> None | v # rest \<Rightarrow> Some v), ls, evs)"
| "queue_spec emits Clear (ls, evs) = (Done, ls, [])"
| "queue_spec emits Is_empty (ls, evs) = (Answer (evs = []), ls, evs)"

section \<open>Refinement\<close>

definition listens :: "('e, 'f, 'z) EventDispatcher_scheme \<Rightarrow> ('e, 'f) listeners \<Rightarrow> bool" where
  "listens d ls \<longleftrightarrow> (\<forall>e. lists (list_at e d) (ls e))"

text \<open>The counter \<open>n\<close> is positive while events are being processed.\<close>

definition queues :: "int \<Rightarrow> ('e, 'f, 'a) EventQueue \<Rightarrow> ('e, 'f) listeners \<times> ('e \<times> 'a) list \<Rightarrow> bool" where
  "queues n q s \<longleftrightarrow> listens q (fst s) \<and> queueList q = map Some (snd s) \<and> set (freeList q) \<subseteq> {None} \<and> queueEmptyCounter q = n"

lemma lists_new: "lists CallbackList_new (0, [])"
  using exact_new by (auto simp: lists_def CallbackList_new_def)

lemma list_at_put [simp]: "list_at e (put_list e' l d) = (if e = e' then l else list_at e d)"
  by (simp add: list_at_def put_list_def)

lemma listener_op_apply:
  "listener_op e x q = (case eventCallbackListMap q e of
      None \<Rightarrow> (case x of Remove h \<Rightarrow> Some (Removed False, q)
         | _ \<Rightarrow> map_option (map_prod id (\<lambda>l. put_list e l q)) (apply_op x CallbackList_new))
    | Some l \<Rightarrow> map_option (map_prod id (\<lambda>l. put_list e l q)) (apply_op x l))"
  by (cases x) (simp_all add: appendListener_def prependListener_def insertListener_def removeListener_def doFindCallableList_def
      list_at_def option.map_comp comp_def map_prod_def split_def split: option.split)

lemma listener_op_refines:
  assumes "listens q ls"
  shows "\<exists>q'. listener_op e x q = Some (fst (spec_op x (ls e)), q') \<and> listens q' (ls(e := snd (spec_op x (ls e)))) \<and>
    queueList q' = queueList q \<and> freeList q' = freeList q \<and> queueEmptyCounter q' = queueEmptyCounter q"
proof -
  have l: "lists (list_at e q) (ls e)" using assms by (simp add: listens_def)
  obtain l' where l': "apply_op x (list_at e q) = Some (fst (spec_op x (ls e)), l')" "lists l' (snd (spec_op x (ls e)))"
    using callback_list.step_refines [OF l] by blast
  have put: "listens (put_list e l' q) (ls(e := snd (spec_op x (ls e))))" using assms l'(2) by (auto simp: listens_def)
  show ?thesis
  proof (cases "eventCallbackListMap q e = None \<and> (\<exists>h. x = Remove h)")
    case True
    then obtain h where h: "x = Remove h" "eventCallbackListMap q e = None" by blast
    then have "fresh (list_at e q) = 0" by (simp add: list_at_def CallbackList_new_def)
    then obtain as where "exact (list_at e q) as" "ls e = (0, entries (list_at e q) as)" using l by (auto simp: lists_def)
    moreover from this have "as = []" using length_holds [of "list_at e q" as] \<open>fresh (list_at e q) = 0\<close> by (simp add: exact_def)
    ultimately have "ls e = (0, [])" by simp
    then show ?thesis using h assms by (auto simp: listener_op_apply fun_upd_idem)
  next
    case False
    then have "listener_op e x q = Some (fst (spec_op x (ls e)), put_list e l' q)"
      using l'(1) by (auto simp: listener_op_apply list_at_def split: option.split list_op.split)
    then show ?thesis using put by (auto simp: put_list_def)
  qed
qed

lemma doDispatch_listens:
  assumes "listens d ls"
  shows "doDispatch e d = Some (map snd (snd (ls e)))"
proof -
  obtain as where as: "exact (list_at e d) as" "ls e = (fresh (list_at e d), entries (list_at e d) as)"
    using assms by (auto simp: listens_def lists_def)
  show ?thesis
  proof (cases "eventCallbackListMap d e")
    case None
    then have "list_at e d = CallbackList_new" by (simp add: list_at_def)
    then have "as = []" using as(1) length_holds [of CallbackList_new as] by (simp add: exact_def CallbackList_new_def)
    then show ?thesis using None as(2) by (simp add: doDispatch_def doFindCallableList_def)
  next
    case (Some l)
    then have "list_at e d = l" by (simp add: list_at_def)
    then show ?thesis
      using Some as doForEachIf_plain [of l as] by (simp add: doDispatch_def doFindCallableList_def entries_def comp_def)
  qed
qed

lemma listens_update [simp]:
  "listens (q\<lparr>queueList := a\<rparr>) ls = listens q ls" "listens (q\<lparr>freeList := a\<rparr>) ls = listens q ls"
  "listens (q\<lparr>queueEmptyCounter := i\<rparr>) ls = listens q ls" "listens (q\<lparr>notifications := m\<rparr>) ls = listens q ls"
  for q :: "('e, 'f, 'a) EventQueue"
  by (simp_all add: listens_def list_at_def)

lemma enqueue_queues:
  assumes "queues n q (ls, evs)"
  shows "\<exists>q'. enqueue v q = Some q' \<and> queues n q' (ls, evs @ [v])"
proof (cases "freeList q")
  case Nil
  then show ?thesis using assms by (simp add: enqueue_def doEnqueue_def item_set_def queues_def notify_one_def)
next
  case (Cons x xs)
  then show ?thesis using assms by (simp add: enqueue_def doEnqueue_def item_set_def queues_def notify_one_def)
qed

lemma enqueue_all_queues:
  "queues n q (ls, evs) \<Longrightarrow> \<exists>q'. enqueue_all vs q = Some q' \<and> queues n q' (ls, evs @ vs)"
proof (induction vs arbitrary: q evs)
  case (Cons v vs)
  then show ?case using enqueue_queues [OF Cons.prems, of v] by fastforce
qed simp

lemma doDispatchQueuedEvent_queues:
  assumes "queues n q (ls, evs)"
  shows "\<exists>q'. doDispatchQueuedEvent emits v q = Some (invoked ls v, q') \<and> queues n q' (ls, evs @ emitted emits (invoked ls v))"
proof -
  have "listens q ls" using assms by (simp add: queues_def)
  note d = doDispatch_listens [OF this, of "fst v"]
  have "emitted emits (invoked ls v) = concat (map (\<lambda>f. emits f (snd v)) (map snd (snd (ls (fst v)))))"
    by (simp add: emitted_def invoked_def comp_def split_def)
  then show ?thesis
    using enqueue_all_queues [OF assms, of "emitted emits (invoked ls v)"] d
    by (auto simp: doDispatchQueuedEvent_def invoked_def comp_def split_def)
qed

lemma dispatch_items_queues:
  "queues n q (ls, evs) \<Longrightarrow> \<exists>q'. dispatch_items emits (map Some vs) q =
      Some (concat (map (invoked ls) vs), replicate (length vs) None, q') \<and>
    queues n q' (ls, evs @ emitted emits (concat (map (invoked ls) vs)))"
proof (induction vs arbitrary: q evs)
  case Nil
  then show ?case by (simp add: emitted_def)
next
  case (Cons v vs)
  obtain q1 where 1: "doDispatchQueuedEvent emits v q = Some (invoked ls v, q1)" "queues n q1 (ls, evs @ emitted emits (invoked ls v))"
    using doDispatchQueuedEvent_queues [OF Cons.prems] by blast
  from Cons.IH [OF 1(2)] obtain q2 where "dispatch_items emits (map Some vs) q1 =
      Some (concat (map (invoked ls) vs), replicate (length vs) None, q2)"
    "queues n q2 (ls, (evs @ emitted emits (invoked ls v)) @ emitted emits (concat (map (invoked ls) vs)))" by blast
  then show ?case using 1(1) by (auto simp: item_get_def item_clear_def emitted_def)
qed

lemma clear_items_all: "clear_items (map Some vs) = Some (replicate (length vs) None)"
  by (induction vs) (simp_all add: item_clear_def)

lemma process_queues:
  assumes "queues 0 q (ls, evs)"
  shows "\<exists>q'. process emits q = Some (evs \<noteq> [], concat (map (invoked ls) evs), q') \<and>
    queues 0 q' (ls, emitted emits (concat (map (invoked ls) evs)))"
proof (cases "evs = []")
  case True
  then show ?thesis using assms by (simp add: process_def queues_def emitted_def)
next
  case False
  have q: "queueList q = map Some evs" using assms by (simp add: queues_def)
  have "queues 1 ((guard_up q)\<lparr>queueList := []\<rparr>) (ls, [])" using assms by (simp add: queues_def guard_up_def)
  from dispatch_items_queues [OF this, of emits evs] obtain q1 where
    "dispatch_items emits (map Some evs) ((guard_up q)\<lparr>queueList := []\<rparr>) =
      Some (concat (map (invoked ls) evs), replicate (length evs) None, q1)"
    "queues 1 q1 (ls, emitted emits (concat (map (invoked ls) evs)))" by auto
  then show ?thesis using False q by (auto simp: process_def queues_def guard_down_def guard_up_def Let_def)
qed

lemma processOne_queues:
  assumes "queues 0 q (ls, v # evs)"
  shows "\<exists>q'. processOne emits q = Some (True, invoked ls v, q') \<and> queues 0 q' (ls, evs @ emitted emits (invoked ls v))"
proof -
  have q: "queueList q = Some v # map Some evs" using assms by (simp add: queues_def)
  have "queues 1 ((guard_up q)\<lparr>queueList := map Some evs\<rparr>) (ls, evs)" using assms by (simp add: queues_def guard_up_def)
  from doDispatchQueuedEvent_queues [OF this, of emits v] show ?thesis
    using q by (auto simp: processOne_def item_get_def item_clear_def queues_def guard_down_def Let_def)
qed

interpretation event_queue: refinement "queue_step emits" "queue_spec emits" "queues 0"
  for emits :: "'f \<Rightarrow> 'a \<Rightarrow> ('e \<times> 'a) list"
proof
  fix q :: "('e, 'f, 'a) EventQueue" and s and x :: "('e, 'f, 'a) queue_op"
  assume "queues 0 q s"
  then obtain ls evs where s: "s = (ls, evs)" and q: "queues 0 q (ls, evs)" by (cases s) auto
  show "\<exists>q'. queue_step emits x q = Some (fst (queue_spec emits x s), q') \<and> queues 0 q' (snd (queue_spec emits x s))"
  proof (cases x)
    case (Listener e y)
    have "listens q ls" using q by (simp add: queues_def)
    from listener_op_refines [OF this, of e y] obtain q' where
      "listener_op e y q = Some (fst (spec_op y (ls e)), q')" "listens q' (ls(e := snd (spec_op y (ls e))))"
      "queueList q' = queueList q" "freeList q' = freeList q" "queueEmptyCounter q' = queueEmptyCounter q" by blast
    then show ?thesis using Listener s q by (auto simp: queues_def split_def Let_def)
  next
    case (Enqueue e a)
    then show ?thesis using enqueue_queues [OF q, of "(e, a)"] s by auto
  next
    case Process
    then show ?thesis using process_queues [OF q, of emits] s by (auto simp: Let_def)
  next
    case ProcessOne
    then show ?thesis using processOne_queues [of q ls _ _ emits] q s
      by (cases evs) (auto simp: processOne_def queues_def)
  next
    case Take
    then show ?thesis using q s by (cases evs) (auto simp: takeEvent_def queues_def item_get_def item_clear_def)
  next
    case Peek
    then show ?thesis using q s by (cases evs) (auto simp: peekEvent_def queues_def item_get_def)
  next
    case Clear
    then show ?thesis using q s by (auto simp: clearEvents_def queues_def clear_items_all)
  next
    case Is_empty
    then show ?thesis using q s by (auto simp: queue_empty_def queues_def)
  qed
qed

lemma queues_new: "queues 0 EventQueue_new (\<lambda>_. (0, []), [])"
  using lists_new by (simp add: queues_def EventQueue_new_def listens_def list_at_def)

text \<open>C19: whatever sequence of operations is applied to a new event queue, every one of them returns what
  it returns on a list of events and lists of listeners: \<open>process\<close> invokes the listeners of the events that
  are queued when it is called, in the order of the events and of the listeners, and leaves in the queue
  exactly the events that were enqueued meanwhile, in order; the recycled items never fail an assertion.\<close>

theorem event_queue_refines:
  "\<exists>q. runs (queue_step emits) ops EventQueue_new = Some (fst (spec_runs (queue_spec emits) ops (\<lambda>_. (0, []), [])), q) \<and>
     map item_get (queueList q) = map Some (snd (snd (spec_runs (queue_spec emits) ops (\<lambda>_. (0, []), []))))"
proof -
  obtain q where q: "runs (queue_step emits) ops EventQueue_new = Some (fst (spec_runs (queue_spec emits) ops (\<lambda>_. (0, []), [])), q)"
      "queues 0 q (snd (spec_runs (queue_spec emits) ops (\<lambda>_. (0, []), [])))"
    using event_queue.runs_refines [OF queues_new, of emits ops] by blast
  then show ?thesis by (auto simp: queues_def item_get_def)
qed

section \<open>\<open>processIf\<close>\<close>

lemma processIf_loop_queues:
  "queues n q (ls, evs) \<Longrightarrow> kept \<noteq> [] \<Longrightarrow>
    \<exists>q'. processIf_loop emits func kept (map Some vs) q =
      Some (concat (map (invoked ls) (filter (\<lambda>v. func (snd v)) vs)), kept @ map Some (filter (\<lambda>v. \<not> func (snd v)) vs),
        replicate (length (filter (\<lambda>v. func (snd v)) vs)) None, q') \<and>
    queues n q' (ls, evs @ emitted emits (concat (map (invoked ls) (filter (\<lambda>v. func (snd v)) vs))))"
proof (induction vs arbitrary: q evs kept)
  case Nil
  then show ?case by (simp add: emitted_def)
next
  case (Cons v vs)
  show ?case
  proof (cases "func (snd v)")
    case True
    obtain q1 where 1: "doDispatchQueuedEvent emits v q = Some (invoked ls v, q1)" "queues n q1 (ls, evs @ emitted emits (invoked ls v))"
      using doDispatchQueuedEvent_queues [OF Cons.prems(1)] by blast
    from Cons.IH [OF 1(2) Cons.prems(2)] show ?thesis
      using 1(1) True Cons.prems(2) by (auto simp: item_get_def item_clear_def emitted_def)
  next
    case False
    then show ?thesis using Cons.IH [OF Cons.prems(1), of "kept @ [Some v]"] by (simp add: item_get_def)
  qed
qed

lemma processIf_queues:
  assumes q: "queues 0 q (ls, v # vs)"
  shows "if func (snd v) then processIf emits func q = None
    else \<exists>q'. processIf emits func q = Some (\<exists>v\<in>set vs. func (snd v), concat (map (invoked ls) (filter (\<lambda>v. func (snd v)) vs)), q') \<and>
      queues 0 q' (ls, v # filter (\<lambda>v. \<not> func (snd v)) vs @
        emitted emits (concat (map (invoked ls) (filter (\<lambda>v. func (snd v)) vs))))"
proof -
  have ql: "queueList q = Some v # map Some vs" using q by (simp add: queues_def)
  have u: "queues 1 ((guard_up q)\<lparr>queueList := []\<rparr>) (ls, [])" using q by (simp add: queues_def guard_up_def)
  show ?thesis
  proof (cases "func (snd v)")
    case True
    then show ?thesis using ql doDispatchQueuedEvent_queues [OF u, of emits v]
      by (auto simp: processIf_def guard_up_def item_get_def item_clear_def Let_def)
  next
    case False
    obtain q1 where "processIf_loop emits func [Some v] (map Some vs) ((guard_up q)\<lparr>queueList := []\<rparr>) =
        Some (concat (map (invoked ls) (filter (\<lambda>v. func (snd v)) vs)), Some v # map Some (filter (\<lambda>v. \<not> func (snd v)) vs),
          replicate (length (filter (\<lambda>v. func (snd v)) vs)) None, q1)"
      "queues 1 q1 (ls, emitted emits (concat (map (invoked ls) (filter (\<lambda>v. func (snd v)) vs))))"
      using processIf_loop_queues [OF u, of "[Some v]" emits func vs] by auto
    then show ?thesis using False ql
      by (auto simp: processIf_def guard_up_def guard_down_def item_get_def Let_def queues_def filter_empty_conv)
  qed
qed

text \<open>C29: when the first queued event is not accepted, \<open>processIf\<close> invokes the listeners of the accepted
  events in order and leaves the other events in front of those enqueued meanwhile; when the first event
  is accepted, its iterator goes before the first element of the list, which is undefined.\<close>

theorem event_queue_processIf:
  assumes "runs (queue_step emits) ops EventQueue_new = Some (rs, q)"
    and "spec_runs (queue_spec emits) ops (\<lambda>_. (0, []), []) = (rs, ls, v # vs)"
  shows "if func (snd v) then processIf emits func q = None
    else \<exists>q'. processIf emits func q = Some (\<exists>v\<in>set vs. func (snd v), concat (map (invoked ls) (filter (\<lambda>v. func (snd v)) vs)), q') \<and>
      map item_get (queueList q') = map Some (v # filter (\<lambda>v. \<not> func (snd v)) vs @
        emitted emits (concat (map (invoked ls) (filter (\<lambda>v. func (snd v)) vs))))"
proof -
  have "queues 0 q (ls, v # vs)"
    using event_queue.runs_refines [OF queues_new, of emits ops] assms by auto
  from processIf_queues [OF this, of func emits] show ?thesis by (auto simp: queues_def item_get_def split: if_splits)
qed

theorem event_queue_processIf_witness:
  "\<exists>rs q. runs (queue_step (\<lambda>f a. [])) [Listener (1::int) (Append ''f''), Enqueue 1 (3::int)] EventQueue_new = Some (rs, q) \<and>
     processIf (\<lambda>f a. []) (\<lambda>a. a = 3) q = None"
proof -
  let ?ops = "[Listener (1::int) (Append ''f''), Enqueue 1 (3::int)]"
  let ?s = "spec_runs (queue_spec (\<lambda>f a. [])) ?ops (\<lambda>_. (0, []), [])"
  obtain q where q: "runs (queue_step (\<lambda>f a. [])) ?ops EventQueue_new = Some (fst ?s, q)"
    using event_queue.runs_refines [OF queues_new, of "\<lambda>f a. []" ?ops] by blast
  have s: "?s = (fst ?s, fst (snd ?s), (1, 3) # [])" by (simp add: Let_def)
  from event_queue_processIf [OF q s, of "\<lambda>a. a = 3"] q show ?thesis by auto
qed

end
