(* ===== verification/EventUtil.thy ===== *)
theory EventUtil
  imports EventQueueSpec
begin

text \<open>
  Utilities of eventpp (utilities/scopedremover.h and utilities/eventutil.h in src/Shared/code/eventpp): the
  scoped removers, which remove what was added through them when they are destroyed, and the removal of a
  listener that is given as a callback.
\<close>

section \<open>Scoped remover of a callback list\<close>

text \<open>Callback lists are named by numbers; a handle belongs to the list that made it.\<close>

type_synonym 'f list_store = "nat \<Rightarrow> 'f CallbackList"

record ScopedRemover =
  callbackList :: "nat option"
  itemList :: "nat list"

definition ScopedRemover_new :: "nat \<Rightarrow> ScopedRemover" where
  "ScopedRemover_new i = \<lparr>callbackList = Some i, itemList = []\<rparr>"

fun remove_items :: "nat list \<Rightarrow> 'f CallbackList \<Rightarrow> 'f CallbackList option" where
  "remove_items [] l = Some l"
| "remove_items (handle # items) l = do { (b, l) \<leftarrow> remove handle l; remove_items items l }"

definition scoped_reset :: "ScopedRemover \<Rightarrow> 'f list_store \<Rightarrow> (ScopedRemover \<times> 'f list_store) option" where
  "scoped_reset sr S = (case callbackList sr of
       None \<Rightarrow> Some (sr\<lparr>itemList := []\<rparr>, S)
     | Some i \<Rightarrow> do {
         l \<leftarrow> remove_items (itemList sr) (S i);
         Some (sr\<lparr>itemList := []\<rparr>, S(i := l))
       })"

definition setCallbackList :: "nat \<Rightarrow> ScopedRemover \<Rightarrow> 'f list_store \<Rightarrow> (ScopedRemover \<times> 'f list_store) option" where
  "setCallbackList i sr S =
     (if callbackList sr \<noteq> Some i then do {
        (sr, S) \<leftarrow> scoped_reset sr S;
        Some (sr\<lparr>callbackList := Some i\<rparr>, S)
      }
      else Some (sr, S))"

text \<open>The members that add a callback; \<open>None\<close> is a null pointer.\<close>

definition scoped_add ::
    "('f CallbackList \<Rightarrow> (nat \<times> 'f CallbackList) option) \<Rightarrow> ScopedRemover \<Rightarrow> 'f list_store \<Rightarrow> (nat \<times> ScopedRemover \<times> 'f list_store) option" where
  "scoped_add add sr S = do {
     i \<leftarrow> callbackList sr;
     (handle, l) \<leftarrow> add (S i);
     Some (handle, sr\<lparr>itemList := itemList sr @ [handle]\<rparr>, S(i := l))
   }"

definition scoped_append :: "'f \<Rightarrow> ScopedRemover \<Rightarrow> 'f list_store \<Rightarrow> (nat \<times> ScopedRemover \<times> 'f list_store) option" where
  "scoped_append f = scoped_add (append f)"

definition scoped_prepend :: "'f \<Rightarrow> ScopedRemover \<Rightarrow> 'f list_store \<Rightarrow> (nat \<times> ScopedRemover \<times> 'f list_store) option" where
  "scoped_prepend f = scoped_add (prepend f)"

definition scoped_insert :: "'f \<Rightarrow> nat \<Rightarrow> ScopedRemover \<Rightarrow> 'f list_store \<Rightarrow> (nat \<times> ScopedRemover \<times> 'f list_store) option" where
  "scoped_insert f before = scoped_add (insert f before)"

definition ScopedRemover_destroy :: "ScopedRemover \<Rightarrow> 'f list_store \<Rightarrow> 'f list_store option" where
  "ScopedRemover_destroy sr S = map_option snd (scoped_reset sr S)"

section \<open>Scoped remover of a dispatcher\<close>

type_synonym ('e, 'f) dispatchers = "nat \<Rightarrow> ('e, 'f) EventDispatcher"

record 'e DispatcherRemover =
  dispatcher :: "nat option"
  eventItems :: "('e \<times> nat) list"

fun remove_listeners :: "('e \<times> nat) list \<Rightarrow> ('e, 'f) EventDispatcher \<Rightarrow> ('e, 'f) EventDispatcher option" where
  "remove_listeners [] d = Some d"
| "remove_listeners ((event, handle) # items) d = do { (b, d) \<leftarrow> removeListener event handle d; remove_listeners items d }"

definition dispatcher_reset :: "'e DispatcherRemover \<Rightarrow> ('e, 'f) dispatchers \<Rightarrow> ('e DispatcherRemover \<times> ('e, 'f) dispatchers) option" where
  "dispatcher_reset sr D = (case dispatcher sr of
       None \<Rightarrow> Some (sr\<lparr>eventItems := []\<rparr>, D)
     | Some i \<Rightarrow> do {
         d \<leftarrow> remove_listeners (eventItems sr) (D i);
         Some (sr\<lparr>eventItems := []\<rparr>, D(i := d))
       })"

text \<open>Unlike \<open>setCallbackList\<close>, \<open>setDispatcher\<close> does not call \<open>reset\<close>.\<close>

definition setDispatcher :: "nat \<Rightarrow> 'e DispatcherRemover \<Rightarrow> 'e DispatcherRemover" where
  "setDispatcher i sr = (if dispatcher sr \<noteq> Some i then sr\<lparr>dispatcher := Some i, eventItems := []\<rparr> else sr)"

definition scoped_listener ::
    "'e \<Rightarrow> (('e, 'f) EventDispatcher \<Rightarrow> (nat \<times> ('e, 'f) EventDispatcher) option) \<Rightarrow> 'e DispatcherRemover \<Rightarrow> ('e, 'f) dispatchers \<Rightarrow>
     (nat \<times> 'e DispatcherRemover \<times> ('e, 'f) dispatchers) option" where
  "scoped_listener event add sr D = do {
     i \<leftarrow> dispatcher sr;
     (handle, d) \<leftarrow> add (D i);
     Some (handle, sr\<lparr>eventItems := eventItems sr @ [(event, handle)]\<rparr>, D(i := d))
   }"

definition scoped_appendListener :: "'e \<Rightarrow> 'f \<Rightarrow> 'e DispatcherRemover \<Rightarrow> ('e, 'f) dispatchers \<Rightarrow> (nat \<times> 'e DispatcherRemover \<times> ('e, 'f) dispatchers) option" where
  "scoped_appendListener event f = scoped_listener event (appendListener event f)"

definition scoped_prependListener :: "'e \<Rightarrow> 'f \<Rightarrow> 'e DispatcherRemover \<Rightarrow> ('e, 'f) dispatchers \<Rightarrow> (nat \<times> 'e DispatcherRemover \<times> ('e, 'f) dispatchers) option" where
  "scoped_prependListener event f = scoped_listener event (prependListener event f)"

definition scoped_insertListener :: "'e \<Rightarrow> 'f \<Rightarrow> nat \<Rightarrow> 'e DispatcherRemover \<Rightarrow> ('e, 'f) dispatchers \<Rightarrow> (nat \<times> 'e DispatcherRemover \<times> ('e, 'f) dispatchers) option" where
  "scoped_insertListener event f before = scoped_listener event (insertListener event f before)"

section \<open>Removing a callback\<close>

text \<open>The lambda expression that \<open>removeListener\<close> passes to \<open>forEachIf\<close>.\<close>

definition remove_if_equal :: "'f \<Rightarrow> nat \<Rightarrow> 'f CallbackList \<Rightarrow> (bool \<times> 'f CallbackList) option" where
  "remove_if_equal f handle l = do {
     n \<leftarrow> nodes l handle;
     if callback n = f then do { (b, l) \<leftarrow> remove handle l; Some (False, l) }
     else Some (True, l)
   }"

text \<open>\<open>found\<close> is set exactly when the loop is left early.\<close>

definition removeCallback :: "'f \<Rightarrow> 'f CallbackList \<Rightarrow> (bool \<times> 'f CallbackList) option" where
  "removeCallback f l = map_option (\<lambda>(r, log, l). (\<not> r, l)) (doForEachIf (remove_if_equal f) l)"

definition removeListenerCallback ::
    "'e \<Rightarrow> 'f \<Rightarrow> ('e, 'f, 'z) EventDispatcher_scheme \<Rightarrow> (bool \<times> ('e, 'f, 'z) EventDispatcher_scheme) option" where
  "removeListenerCallback event f d = (case doFindCallableList event d of
       None \<Rightarrow> Some (False, d)
     | Some l \<Rightarrow> map_option (map_prod id (\<lambda>l. put_list event l d)) (removeCallback f l))"

section \<open>Any use of a scoped remover\<close>

text \<open>The remover is used and the lists are changed directly; \<open>given\<close> are the handles the remover returned.\<close>

datatype 'f scoped_op =
    Scoped_append 'f | Scoped_prepend 'f | Scoped_insert 'f nat | Set_list nat | Reset | Direct nat "'f list_op"

type_synonym 'f scoped = "(nat \<times> nat) list \<times> ScopedRemover \<times> 'f list_store"

definition note_given :: "(nat \<times> nat) list \<Rightarrow> (nat \<times> ScopedRemover \<times> 'f list_store) option \<Rightarrow> 'f scoped option" where
  "note_given given r = map_option (\<lambda>(h, sr, S). ((the (callbackList sr), h) # given, sr, S)) r"

fun scoped_step :: "'f scoped_op \<Rightarrow> 'f scoped \<Rightarrow> 'f scoped option" where
  "scoped_step (Scoped_append f) (given, sr, S) = note_given given (scoped_append f sr S)"
| "scoped_step (Scoped_prepend f) (given, sr, S) = note_given given (scoped_prepend f sr S)"
| "scoped_step (Scoped_insert f before) (given, sr, S) = note_given given (scoped_insert f before sr S)"
| "scoped_step (Set_list i) (given, sr, S) = map_option (Pair given) (setCallbackList i sr S)"
| "scoped_step Reset (given, sr, S) = map_option (Pair given) (scoped_reset sr S)"
| "scoped_step (Direct i x) (given, sr, S) = map_option (\<lambda>(r, l). (given, sr, S(i := l))) (apply_op x (S i))"

fun scoped_steps :: "'f scoped_op list \<Rightarrow> 'f scoped \<Rightarrow> 'f scoped option" where
  "scoped_steps [] s = Some s"
| "scoped_steps (x # xs) s = scoped_step x s \<bind> scoped_steps xs"

section \<open>Lemmas\<close>

lemma forwards_lists: "lists l (n, es) \<Longrightarrow> forwards l = es"
  using forwards_holds by (auto simp: lists_def exact_def)

lemma remove_items_lists:
  "lists l (n, es) \<Longrightarrow> \<exists>l'. remove_items hs l = Some l' \<and> lists l' (n, filter (\<lambda>e. fst e \<notin> set hs) es)"
proof (induction hs arbitrary: l es)
  case (Cons h hs)
  obtain l1 where l1: "apply_op (Remove h) l = Some (Removed (h \<in> fst ` set es), l1)" "lists l1 (n, filter (\<lambda>e. fst e \<noteq> h) es)"
    using callback_list.step_refines [OF Cons.prems, of "Remove h"] by auto
  then obtain b where b: "remove h l = Some (b, l1)" by auto
  have "filter (\<lambda>e. fst e \<notin> set hs) (filter (\<lambda>e. fst e \<noteq> h) es) = filter (\<lambda>e. fst e \<notin> set (h # hs)) es"
    by (auto intro: filter_cong)
  then show ?case using Cons.IH [OF l1(2)] b by auto
qed simp

text \<open>
  \<open>A\<close> are the contents of the lists.  What the remover has given and is still in a list is in the list the
  remover is for, and the remover knows it.
\<close>

definition tracks :: "'f scoped \<Rightarrow> (nat \<Rightarrow> nat \<times> (nat \<times> 'f) list) \<Rightarrow> bool" where
  "tracks s A \<longleftrightarrow> (case s of (given, sr, S) \<Rightarrow>
     (\<forall>j. lists (S j) (A j)) \<and> (\<forall>j h. (j, h) \<in> set given \<longrightarrow> h < fst (A j)) \<and>
     (\<exists>i. callbackList sr = Some i \<and> (\<forall>h. h \<in> set (itemList sr) \<longrightarrow> (i, h) \<in> set given) \<and>
       (\<forall>j h. (j, h) \<in> set given \<longrightarrow> h \<in> fst ` set (snd (A j)) \<longrightarrow> j = i \<and> h \<in> set (itemList sr))))"

lemma tracksI:
  "(\<And>j. lists (S j) (A j)) \<Longrightarrow> (\<And>j h. (j, h) \<in> set given \<Longrightarrow> h < fst (A j)) \<Longrightarrow> callbackList sr = Some i \<Longrightarrow>
   (\<And>h. h \<in> set (itemList sr) \<Longrightarrow> (i, h) \<in> set given) \<Longrightarrow>
   (\<And>j h. (j, h) \<in> set given \<Longrightarrow> h \<in> fst ` set (snd (A j)) \<Longrightarrow> j = i \<and> h \<in> set (itemList sr)) \<Longrightarrow> tracks (given, sr, S) A"
  by (simp add: tracks_def)

lemma tracksD:
  assumes "tracks (given, sr, S) A"
  shows "lists (S j) (A j)" and "(j, h) \<in> set given \<Longrightarrow> h < fst (A j)"
    and "callbackList sr = Some i \<Longrightarrow> h \<in> set (itemList sr) \<Longrightarrow> (i, h) \<in> set given"
    and "callbackList sr = Some i \<Longrightarrow> (j, h) \<in> set given \<Longrightarrow> h \<in> fst ` set (snd (A j)) \<Longrightarrow> j = i \<and> h \<in> set (itemList sr)"
    and "\<exists>i. callbackList sr = Some i"
  using assms by (auto simp: tracks_def)

lemma spec_op_handles:
  "fst (snd (spec_op x (n, es))) = (case x of Remove _ \<Rightarrow> n | _ \<Rightarrow> Suc n)"
  "fst ` set (snd (snd (spec_op x (n, es)))) \<subseteq> (case x of Remove _ \<Rightarrow> {} | _ \<Rightarrow> {n}) \<union> fst ` set es"
  by (cases x; auto dest: set_takeWhileD set_dropWhileD)+

lemma spec_op_at:
  "fst (snd (spec_op x a)) = (case x of Remove _ \<Rightarrow> fst a | _ \<Rightarrow> Suc (fst a))"
  "h \<in> fst ` set (snd (snd (spec_op x a))) \<Longrightarrow> h \<in> fst ` set (snd a) \<or> (h = fst a \<and> (\<forall>k. x \<noteq> Remove k))"
proof -
  show "fst (snd (spec_op x a)) = (case x of Remove _ \<Rightarrow> fst a | _ \<Rightarrow> Suc (fst a))"
    using spec_op_handles(1) [of x "fst a" "snd a"] by simp
  assume "h \<in> fst ` set (snd (snd (spec_op x a)))"
  then have "h \<in> (case x of Remove _ \<Rightarrow> {} | _ \<Rightarrow> {fst a}) \<union> fst ` set (snd a)"
    using spec_op_handles(2) [of x "fst a" "snd a"] by auto
  then show "h \<in> fst ` set (snd a) \<or> (h = fst a \<and> (\<forall>k. x \<noteq> Remove k))" by (cases x) auto
qed

lemma spec_op_grows: "fst a \<le> fst (snd (spec_op x a))"
  by (simp add: spec_op_at(1) split: list_op.split)

lemma tracks_Direct:
  assumes t: "tracks (given, sr, S) A"
  obtains l where "apply_op x (S k) = Some (fst (spec_op x (A k)), l)"
    and "tracks (given, sr, S(k := l)) (A(k := snd (spec_op x (A k))))"
proof -
  obtain l where l: "apply_op x (S k) = Some (fst (spec_op x (A k)), l)" "lists l (snd (spec_op x (A k)))"
    using callback_list.step_refines [OF tracksD(1) [OF t, of k]] by blast
  obtain i where i: "callbackList sr = Some i" using tracksD(5) [OF t] by blast
  have "tracks (given, sr, S(k := l)) (A(k := snd (spec_op x (A k))))"
  proof (rule tracksI [OF _ _ i])
    fix j h assume g: "(j, h) \<in> set given"
    note lt = tracksD(2) [OF t g]
    then show "h < fst ((A(k := snd (spec_op x (A k)))) j)" using spec_op_grows [of "A k" x] by (cases "j = k") auto
    assume "h \<in> fst ` set (snd ((A(k := snd (spec_op x (A k)))) j))"
    then have "h \<in> fst ` set (snd (A j))" using lt spec_op_at(2) [of h x "A k"] by (cases "j = k") auto
    then show "j = i \<and> h \<in> set (itemList sr)" by (rule tracksD(4) [OF t i g])
  qed (use tracksD(1) [OF t] tracksD(3) [OF t i] l(2) in auto)
  then show thesis using l(1) that by blast
qed

lemma tracks_add:
  assumes t: "tracks (given, sr, S) A" and i: "callbackList sr = Some i"
    and x: "\<And>l. map_option (map_prod Handle id) (add l) = apply_op x l" "\<And>k. x \<noteq> Remove k"
  shows "\<exists>s' B. note_given given (scoped_add add sr S) = Some s' \<and> tracks s' B"
proof -
  let ?n = "fst (A i)" and ?A = "A(i := snd (spec_op x (A i)))"
  have "fst (spec_op x (A i)) = Handle ?n" using x(2) by (cases x; cases "A i") auto
  then obtain l where l: "apply_op x (S i) = Some (Handle ?n, l)" "tracks (given, sr, S(i := l)) ?A"
    using tracks_Direct [OF t, of x i] by metis
  then have a: "add (S i) = Some (?n, l)" using x(1) [of "S i"] by (cases "add (S i)") auto
  have n: "?n < fst (?A i)" using x(2) spec_op_at(1) [of x "A i"] by (cases x) auto
  have "tracks ((i, ?n) # given, sr\<lparr>itemList := itemList sr @ [?n]\<rparr>, S(i := l)) ?A"
  proof (rule tracksI)
    fix j h assume g: "(j, h) \<in> set ((i, ?n) # given)"
    then show "h < fst (?A j)" using n tracksD(2) [OF l(2), of j h] by (cases "(j, h) = (i, ?n)") auto
    assume "h \<in> fst ` set (snd (?A j))"
    then show "j = i \<and> h \<in> set (itemList (sr\<lparr>itemList := itemList sr @ [?n]\<rparr>))"
      using g tracksD(4) [OF l(2) i, of j h] by (cases "(j, h) = (i, ?n)") auto
  qed (use tracksD(1) [OF l(2)] tracksD(3) [OF t i] i in auto)
  then show ?thesis using a i by (auto simp: note_given_def scoped_add_def)
qed

lemma tracks_reset:
  assumes t: "tracks (given, sr, S) A"
  obtains S' B where "scoped_reset sr S = Some (sr\<lparr>itemList := []\<rparr>, S')" and "tracks (given, sr\<lparr>itemList := []\<rparr>, S') B"
    and "\<And>j. snd (B j) = filter (\<lambda>e. (j, fst e) \<notin> set given) (snd (A j))"
proof -
  obtain i where i: "callbackList sr = Some i" using tracksD(5) [OF t] by blast
  let ?es = "filter (\<lambda>e. fst e \<notin> set (itemList sr)) (snd (A i))"
  let ?B = "A(i := (fst (A i), ?es))"
  obtain l where l: "remove_items (itemList sr) (S i) = Some l" "lists l (fst (A i), ?es)"
    using remove_items_lists [of "S i" "fst (A i)" "snd (A i)"] tracksD(1) [OF t, of i] by auto
  have B: "snd (?B j) = filter (\<lambda>e. (j, fst e) \<notin> set given) (snd (A j))" for j
  proof (cases "j = i")
    case True
    then show ?thesis using tracksD(3) [OF t i] tracksD(4) [OF t i] by (auto intro!: filter_cong)
  next
    case False
    then show ?thesis using tracksD(4) [OF t i, of j] by (auto intro!: filter_True [symmetric])
  qed
  have "tracks (given, sr\<lparr>itemList := []\<rparr>, S(i := l)) ?B"
  proof (rule tracksI)
    fix j h assume g: "(j, h) \<in> set given"
    then show "h < fst (?B j)" using tracksD(2) [OF t g] by (cases "j = i") auto
    assume "h \<in> fst ` set (snd (?B j))"
    then show "j = i \<and> h \<in> set (itemList (sr\<lparr>itemList := []\<rparr>))" using g unfolding B by auto
  qed (use tracksD(1) [OF t] l(2) i in auto)
  then show thesis using that [of "S(i := l)" ?B] B i l(1) by (simp add: scoped_reset_def)
qed

lemma tracks_retarget:
  assumes t: "tracks (given, sr, S) A" and n: "itemList sr = []"
  shows "tracks (given, sr\<lparr>callbackList := Some k\<rparr>, S) A"
proof (rule tracksI)
  obtain i where i: "callbackList sr = Some i" using tracksD(5) [OF t] by blast
  fix j h assume "(j, h) \<in> set given" "h \<in> fst ` set (snd (A j))"
  then show "j = k \<and> h \<in> set (itemList (sr\<lparr>callbackList := Some k\<rparr>))" using tracksD(4) [OF t i, of j h] n by simp
qed (use tracksD [OF t] n in auto)

lemma tracks_step:
  assumes "tracks s A"
  shows "\<exists>s' B. scoped_step x s = Some s' \<and> tracks s' B"
proof -
  obtain given sr S where s: "s = (given, sr, S)" by (cases s)
  then have t: "tracks (given, sr, S) A" using assms by simp
  then obtain i where i: "callbackList sr = Some i" by (auto simp: tracks_def)
  show ?thesis
  proof (cases x)
    case (Scoped_append f)
    show ?thesis unfolding Scoped_append s scoped_step.simps scoped_append_def
      by (rule tracks_add [OF t i, where x = "Append f"]) simp_all
  next
    case (Scoped_prepend f)
    show ?thesis unfolding Scoped_prepend s scoped_step.simps scoped_prepend_def
      by (rule tracks_add [OF t i, where x = "Prepend f"]) simp_all
  next
    case (Scoped_insert f b)
    show ?thesis unfolding Scoped_insert s scoped_step.simps scoped_insert_def
      by (rule tracks_add [OF t i, where x = "Insert f b"]) simp_all
  next
    case (Set_list k)
    obtain S' B where r: "scoped_reset sr S = Some (sr\<lparr>itemList := []\<rparr>, S')" "tracks (given, sr\<lparr>itemList := []\<rparr>, S') B"
      by (rule tracks_reset [OF t])
    then show ?thesis using tracks_retarget [OF r(2), of k] t by (auto simp: Set_list s setCallbackList_def)
  next
    case Reset
    obtain S' B where "scoped_reset sr S = Some (sr\<lparr>itemList := []\<rparr>, S')" "tracks (given, sr\<lparr>itemList := []\<rparr>, S') B"
      by (rule tracks_reset [OF t])
    then show ?thesis by (auto simp: Reset s)
  next
    case (Direct k y)
    obtain l where "apply_op y (S k) = Some (fst (spec_op y (A k)), l)" "tracks (given, sr, S(k := l)) (A(k := snd (spec_op y (A k))))"
      by (rule tracks_Direct [OF t])
    then show ?thesis by (auto simp: Direct s)
  qed
qed

lemma tracks_steps: "tracks s A \<Longrightarrow> \<exists>s' B. scoped_steps xs s = Some s' \<and> tracks s' B"
proof (induction xs arbitrary: s A)
  case (Cons x xs)
  obtain s1 B where "scoped_step x s = Some s1" "tracks s1 B" using tracks_step [OF Cons.prems] by blast
  then show ?case using Cons.IH by auto
qed auto

section \<open>Removing a callback\<close>

text \<open>While a loop is at a node, the node stays when it is removed; it goes when the loop is left.\<close>

lemma unlinked_pins: "unlinked xs a ys (l\<lparr>pins := P\<rparr>) = (unlinked xs a ys l)\<lparr>pins := P\<rparr>"
  by (cases l) (simp add: unlinked_def)

lemma collect_pinned:
  assumes e: "exact l (xs @ a # ys)"
  shows "collect ((unlinked xs a ys l)\<lparr>pins := [a]\<rparr>) = (unlinked xs a ys l)\<lparr>pins := [a]\<rparr>"
proof -
  let ?m = "(unlinked xs a ys l)\<lparr>pins := [a]\<rparr>"
  have h: "holds l (xs @ a # ys)" using e by (simp add: exact_def)
  have "holds (l\<lparr>pins := [a]\<rparr>) (xs @ a # ys)" by (rule holds_pins [OF h]) simp
  from holds_unlinked [OF this] have m: "holds ?m (xs @ ys)" by (simp only: unlinked_pins)
  have c: "holds (collect ?m) (xs @ ys)" by (rule holds_collect [OF m])
  have "nodes (collect ?m) b = nodes ?m b" for b
  proof (cases "b \<in> set (xs @ ys) \<or> b = a")
    case True
    have "nodes (collect ?m) b \<noteq> None"
      using True holds_alive [OF c, of b] c by (auto simp: holds_def closed_def)
    then show ?thesis using collect_nodes [of ?m b] by auto
  next
    case False
    then have "nodes l b = None" using e by (simp add: exact_def)
    then have "nodes ?m b = None" by simp
    then show ?thesis using collect_nodes [of ?m b] by metis
  qed
  then have "nodes (collect ?m) = nodes ?m" ..
  then show ?thesis by (intro CallbackList.equality) simp_all
qed

text \<open>The loop at a node whose callback is invoked and changes nothing.\<close>

lemma forEach_pass:
  assumes e: "exact l (xs @ a # ys)" and F: "F a (at_node (a # ys) l) = Some (True, at_node (a # ys) l)"
  shows "forEach_loop F (currentCounter l) (Some a) (at_node (a # ys) l) =
    map_option (\<lambda>(r, log, l). (r, a # log, l)) (forEach_loop F (currentCounter l) (first ys None) (at_node ys l))"
proof -
  have h: "holds l (xs @ a # ys)" "\<And>b. nodes l b = None \<longleftrightarrow> b \<notin> set (xs @ a # ys)" using e by (auto simp: exact_def)
  obtain n where n: "nodes l a = Some n" "next_node n = first ys None" "counter n \<noteq> 0" by (rule segment_middle [OF h(1)])
  have c: "counter n \<le> currentCounter l" using h(1) n(1) unfolding holds_def by fastforce
  have "set (case first ys None of None \<Rightarrow> [] | Some a \<Rightarrow> [a]) \<subseteq> set (xs @ a # ys)" by (cases ys) auto
  then have "collect (at_node ys l) = at_node ys l"
    using collect_all_owned [OF holds_pins [OF h(1)]] h(2) by (simp add: at_node_def)
  then have "repin (next_node n) (at_node (a # ys) l) = at_node ys l"
    using n(2) by (cases ys) (simp_all add: repin_def unpin_def at_node_def)
  moreover have "nodes (at_node (a # ys) l) a = Some n" using n(1) by (simp add: at_node_def)
  ultimately show ?thesis
    using n c F by (subst forEach_loop.simps) (simp add: removedCounter_def map_conv_bind_option split_def comp_def)
qed

definition callback_of :: "'f CallbackList \<Rightarrow> nat \<Rightarrow> 'f" where
  "callback_of l a = callback (the (nodes l a))"

lemma remove_if_equal_other:
  assumes "exact l (xs @ a # ys)" and "callback_of l a \<noteq> f"
  shows "remove_if_equal f a (at_node zs l) = Some (True, at_node zs l)"
proof -
  obtain n where "nodes l a = Some n" using assms(1) segment_middle by (metis exact_def)
  then show ?thesis using assms(2) by (simp add: remove_if_equal_def at_node_def callback_of_def)
qed

lemma forEach_not_found:
  "exact l (xs @ ys) \<Longrightarrow> f \<notin> callback_of l ` set ys \<Longrightarrow>
    forEach_loop (remove_if_equal f) (currentCounter l) (first ys None) (at_node ys l) = Some (True, ys, l)"
proof (induction ys arbitrary: xs)
  case Nil
  then have "at_node [] l = l" by (cases l) (simp add: at_node_def exact_def)
  then show ?case by (subst forEach_loop.simps) simp
next
  case (Cons a ys)
  then show ?case
    using forEach_pass [OF Cons.prems(1)] remove_if_equal_other [OF Cons.prems(1)] Cons.IH [of "xs @ [a]"] by auto
qed

lemma forEach_found:
  "exact l (xs @ us @ a # ys) \<Longrightarrow> f \<notin> callback_of l ` set us \<Longrightarrow> callback_of l a = f \<Longrightarrow>
    forEach_loop (remove_if_equal f) (currentCounter l) (first (us @ a # ys) None) (at_node (us @ a # ys) l) =
      Some (False, us @ [a], collect (unlinked (xs @ us) a ys l))"
proof (induction us arbitrary: xs)
  case Nil
  then have e: "exact l (xs @ a # ys)" by simp
  let ?l = "at_node (a # ys) l" and ?m = "(unlinked xs a ys l)\<lparr>pins := [a]\<rparr>"
  have h: "holds l (xs @ a # ys)" "pins l = []" using e by (auto simp: exact_def)
  obtain n where n: "nodes l a = Some n" "counter n \<noteq> 0" by (rule segment_middle [OF h(1)])
  have c: "counter n \<le> currentCounter l" using h(1) n(1) unfolding holds_def by fastforce
  have "holds ?l (xs @ a # ys)" using holds_pins [OF h(1), of "[a]"] by (simp add: at_node_def)
  from remove_unlinked [OF this] have r: "remove a ?l = Some (True, ?m)"
    using collect_pinned [OF e] by (simp add: at_node_def unlinked_pins)
  have "?m\<lparr>pins := []\<rparr> = unlinked xs a ys l" using h(2) by (cases l) (simp add: unlinked_def)
  then have "unpin ?m = collect (unlinked xs a ys l)" by (simp add: unpin_def)
  moreover have "nodes ?l a = Some n" "callback n = f" using n(1) Nil.prems by (simp_all add: at_node_def callback_of_def)
  ultimately show ?case using n(2) c r by (subst forEach_loop.simps) (simp add: removedCounter_def remove_if_equal_def)
next
  case (Cons u us)
  then show ?case
    using forEach_pass [of l xs u "us @ a # ys"] remove_if_equal_other [of l xs u "us @ a # ys" f] Cons.IH [of "xs @ [u]"] by auto
qed

lemma doForEachIf_at: "exact l as \<Longrightarrow> doForEachIf F l = forEach_loop F (currentCounter l) (first as None) (at_node as l)"
proof -
  assume e: "exact l as"
  then have h: "list_head l = first as None" "pins l = []" by (auto simp: exact_def holds_def)
  have "pin (list_head l) l = at_node as l" using h by (cases as; cases l) (simp_all add: pin_def at_node_def)
  then show ?thesis using h by (simp add: doForEachIf_def)
qed

text \<open>The list without the first entry that has a callback.\<close>

fun without_first :: "'f \<Rightarrow> (nat \<times> 'f) list \<Rightarrow> (nat \<times> 'f) list" where
  "without_first f [] = []"
| "without_first f (e # es) = (if snd e = f then es else e # without_first f es)"

lemma without_first_append: "f \<notin> snd ` set es \<Longrightarrow> without_first f (es @ es') = es @ without_first f es'"
  by (induction es) auto

lemma removeCallback_lists:
  assumes "lists l (n, es)"
  shows "\<exists>l'. removeCallback f l = Some (f \<in> snd ` set es, l') \<and> lists l' (n, without_first f es)"
proof -
  obtain as where as: "exact l as" "n = fresh l" "es = entries l as" using assms by (auto simp: lists_def)
  have snd_es: "snd ` set es = callback_of l ` set as" by (simp add: as(3) entries_def callback_of_def image_image)
  show ?thesis
  proof (cases "f \<in> callback_of l ` set as")
    case False
    then have "without_first f es = es" using snd_es without_first_append [of f es "[]"] by simp
    then show ?thesis using forEach_not_found [of l "[]" as f] doForEachIf_at [OF as(1)] False as(1) assms snd_es
      by (simp add: removeCallback_def)
  next
    case True
    then obtain us a ys where sp: "as = us @ a # ys" "callback_of l a = f" "f \<notin> callback_of l ` set us"
      using split_list_first_prop [of as "\<lambda>a. callback_of l a = f"] by (metis imageE)
    have e: "exact (collect (unlinked us a ys l)) (us @ ys)" by (rule exact_unlinked [OF as(1) [unfolded sp(1)]])
    have h: "holds l (us @ a # ys)" using as(1) sp(1) by (simp add: exact_def)
    have "f \<notin> snd ` set (entries l us)" using sp(3) by (auto simp: entries_def callback_of_def)
    then have "without_first f es = entries l us @ entries l ys"
      using sp(2) without_first_append [of f "entries l us"] by (simp add: as(3) sp(1) callback_of_def)
    then have "lists (collect (unlinked us a ys l)) (n, without_first f es)"
      using e entries_unlinked [OF h] by (auto simp: lists_def as(2))
    then show ?thesis using forEach_found [of l "[]" us a ys f] doForEachIf_at [OF as(1)] as(1) sp True snd_es
      by (simp add: removeCallback_def)
  qed
qed

section \<open>Properties\<close>

text \<open>C20: a scoped remover is made for a callback list, and callbacks are added through it and directly, the
  remover being reset and pointed to other lists in between.  All calls return, and the destructor of the
  remover takes away from every list exactly the callbacks that were added through it, and leaves the
  others in their order.\<close>

theorem scoped_remover_removes:
  "\<exists>given sr S S'. scoped_steps ops ([], ScopedRemover_new i, \<lambda>_. CallbackList_new) = Some (given, sr, S) \<and>
     ScopedRemover_destroy sr S = Some S' \<and>
     (\<forall>j. forwards (S' j) = filter (\<lambda>e. (j, fst e) \<notin> set given) (forwards (S j)))"
proof -
  have "tracks ([], ScopedRemover_new i, \<lambda>_. CallbackList_new) (\<lambda>_. (0, []))"
    by (simp add: tracks_def ScopedRemover_new_def lists_new)
  then obtain given sr S A where s: "scoped_steps ops ([], ScopedRemover_new i, \<lambda>_. CallbackList_new) = Some (given, sr, S)"
      "tracks (given, sr, S) A" using tracks_steps by (metis prod_cases3)
  obtain S' B where r: "scoped_reset sr S = Some (sr\<lparr>itemList := []\<rparr>, S')" "tracks (given, sr\<lparr>itemList := []\<rparr>, S') B"
      "\<And>j. snd (B j) = filter (\<lambda>e. (j, fst e) \<notin> set given) (snd (A j))" by (rule tracks_reset [OF s(2)]) blast
  have "forwards (S j) = snd (A j)" "forwards (S' j) = snd (B j)" for j
    using s(2) r(2) forwards_lists [of "S j" "fst (A j)" "snd (A j)"] forwards_lists [of "S' j" "fst (B j)" "snd (B j)"]
    by (simp_all add: tracks_def)
  then show ?thesis using s(1) r by (auto simp: ScopedRemover_destroy_def)
qed

text \<open>The remover of a dispatcher forgets its listeners when it is pointed to another dispatcher: the listener
  \<open>7\<close> of the event \<open>5\<close> stays.\<close>

lemma scoped_dispatcher_leaks:
  "map_option (\<lambda>(h, sr, D). map_option (\<lambda>(sr, D). map snd (forwards (list_at (5 :: nat) (D 0)))) (dispatcher_reset (setDispatcher 1 sr) D))
     (scoped_appendListener 5 (7 :: nat) \<lparr>dispatcher = Some 0, eventItems = []\<rparr> (\<lambda>_. EventDispatcher_new)) = Some (Some [7])"
  by code_simp

end
