(* ===== verification/Spec2Isabelle.thy ===== *)
theory Spec2Isabelle
  imports TcpServerSpec TcpClient HttpServer AndroidClient CallbackLoop CallbackLife EventUtil
begin

text \<open>
  \<^bold>\<open>Verification of MiniProtobufFramework.\<close>

  The program is a server and two clients, in C++ and for Android, that exchange protobuf messages over TCP,
  with an HTTP server and the event library eventpp beside them.  A message travels in a frame: the four bytes \<open>pbh\0\<close>, the length
  of the rest, the length of a head, the head (a \<open>CmdType\<close> with the name and the size of the body) and the
  body.  \<open>MessageRoute::Send\<close> writes frames into a send buffer, \<open>MessageRoute::ProcessRecv\<close> takes them from a
  receive buffer, makes a message of the class that the head names, parses the body into it and hands it to
  the processor registered for the name; the server's processors send an answer.  \<open>TcpConnection\<close> and
  \<open>TcpClient\<close> move bytes between these buffers and sockets, driven by handlers that asio runs.

  \<^bold>\<open>Theories and sources.\<close>

  \<^item> Prelude: bytes, machine integers, array updates, the collections of rules that the other theories use.
  \<^item> CodedOutput, CodedInput: \<open>CodedOutputStream\<close> and \<open>CodedInputStream\<close> with the streams below them
    (coded_stream.h, coded_stream.cc, coded_stream_inl.h, zero_copy_stream_impl_lite.cc, stubs/port.h in
    src/Shared/protobuf/src/google/protobuf).  The state of a stream is a record of its buffers and limits; a
    write outside an array or an exhausted stream is the value \<open>None\<close> or a flag.
  \<^item> Utf8: the table-driven UTF-8 check (stubs/structurally_valid.cc).
  \<^item> WireFormat: tags, primitive fields, nested messages, unknown fields (wire_format_lite.h,
    wire_format_lite_inl.h, wire_format_lite.cc, wire_format.cc, unknown_field_set.h).
  \<^item> Message: the merge loop, parsing and serialization that the generated classes share (message_lite.cc,
    and the loop each class of BaseCmd.pb.cc has).  Its locales \<open>unknown_part\<close> and \<open>wire_message\<close> are the
    interface of a generated class; BaseCmd and BaseCmdUser interpret them for the ten classes of
    src/Shared/code/protobuf/BaseCmd.pb.cc, AnyMessage is the class \<open>Message\<close> above them.
  \<^item> Route, Dispatch: \<open>MessageRoute\<close>, the processors and the dispatchers (src/Shared/code/utility,
    src/MiniProtobufServer, src/MiniProtobufClient).  RouteSpec: what they promise.
  \<^item> TcpServer, TcpServerSpec, TcpClient: \<open>TcpServer\<close>, \<open>TcpConnection\<close>, \<open>TcpClient\<close>, \<open>BaseSocketConnection\<close>.  The
    queue of posted handlers is part of the state, and step relations let asio complete operations at any
    moment and the sockets take any part of a write.  SendLoop: the lemmas on the send loop both sides share.
  \<^item> AndroidClient: \<open>MessageRoute.java\<close>, its dispatcher and processors and the receiving loop of
    \<open>TcpClient.java\<close> (src/AndroidProj/app/src/main/java/com/dd/androidprotobuf).  An input stream is the list of
    the pieces that its reads find; exceptions are values of a sum type.
  \<^item> HttpParser, HttpReply, HttpServer: src/MiniProtobufServer/HttpServer, from the request parser to the
    connections and their manager.
  \<^item> CallbackList: \<open>CallbackListBase\<close> of eventpp (src/Shared/code/eventpp/callbacklist.h) on an explicit heap
    of nodes with their owners; a node is destroyed when its last owner goes.  CallbackSpec relates the links
    to a list of handles, CallbackOps is the refinement, CallbackLoop the loop whose callbacks change the
    list, CallbackLife copies and destruction.
  \<^item> EventQueue, EventQueueSpec: \<open>EventDispatcherBase\<close> and \<open>EventQueueBase\<close> (eventdispatcher.h, eventqueue.h).
    Refinement: the locale of an implementation that refines a specification operation by operation; it is
    interpreted for the callback list and for the event queue.
  \<^item> EventUtil: the scoped removers and \<open>removeListener\<close> (utilities/scopedremover.h, utilities/eventutil.h).

  \<^bold>\<open>What is proved.\<close>

  \<^item> Wire format: each of the ten message classes survives serialization and parsing, the announced size is
    the written size, parsing and skipping return on every input and stay inside the array, the fast paths of
    the varint reader and of the UTF-8 check agree with their definitions, unknown fields are written back.
  \<^item> Route: however the bytes are cut and whenever the route is called, the server answers every request
    once and in order, and all of them once all bytes are there; the client is safe on every input, the server
    on every input but a sign-in request without users; every processor gets a message of the class it casts
    to.  The frames that break the receiver are theorems too: total lengths 1 to 4, large bodies, the empty
    sign-in request.
  \<^item> Connections: while sockets take writes at once, the bytes on the wire of each connection are a prefix
    of the frames of the answers, for any interleaving of connections, and finitely many turns send all of
    them; otherwise an answer can be sent twice.  Under the same condition the client puts the frames of its
    messages on the wire in order and is safe whatever it receives.  Its loops go on after errors.
  \<^item> Android: what the client writes is what the C++ server answers, and the texts of the answers are
    broadcast in order when they arrive in pieces of whole frames; a short read loses an answer.
  \<^item> HTTP: a well-formed request is parsed back and answered however it is cut, replies depend only on files
    below the document root, the manager holds exactly the open connections in every order of completions,
    and the server comes to an end after a signal.
  \<^item> eventpp: the callback list and the event queue refine lists, also when callbacks change the list that is
    being invoked; the destructor frees all nodes; a scoped remover takes away exactly what was added through it;
    \<open>processIf\<close> is undefined when it accepts the first event.

  \<^bold>\<open>Bounds, fuel and parameters.\<close>

  Loops over byte arrays, the parse loops and the loops over nodes are total functions with a measure or
  partial functions with \<open>None\<close> for a loop that does not return; the theorems state that a result exists.  Fuel
  bounds the counter reset in CallbackList and the walk through the links in CallbackOps; it is the number of
  nodes ever made, which is enough because a list has no node twice.  The receiving loop of the Android
  client, which does not end by itself, runs for a given number of rounds.  Lengths are below \<open>2 ^ 31\<close> or \<open>INT_MAX\<close> where the code keeps them in an
  \<open>int\<close>, and a stream has fewer than \<open>2 ^ 62\<close> bytes where it keeps them in a \<open>size_t\<close>; the loop theorem of the
  callback list assumes that its 64-bit counter does not overflow during the loop.  Parameters: the names of
  message classes linked into the program other than BaseCmd (\<open>linked\<close>), the file system of the HTTP server,
  the length that a new route leaves uninitialised (\<open>pre\<close>; the theorems on what the server answers and
  on the safety of \<open>TcpServer\<close> take it to be 0, those on the C++ client and on \<open>ProcessRecv\<close> alone hold for every
  value), what a callback of the event queue enqueues (\<open>emits\<close>),
  the Java classes generated from cmd.proto (\<open>L\<close>, with the hypotheses \<open>names_classes\<close>, \<open>writes_fields\<close> and
  \<open>parses_fields\<close>; an instance built from the C++ wire format satisfies them).

  \<^bold>\<open>Not modelled.\<close>

  \<^item> asio (src/Shared/asio) and the sockets below it: system calls.  The models contain what the program
    relies on: one thread runs handlers in the order in which they are posted, operations complete in any
    order, a \<open>streambuf\<close> is a sequence of bytes whose unread part an append may move.
  \<^item> The rest of protobuf (descriptors, reflection, arenas, text and JSON formats, extensions, maps, the
    compiler): not reached when messages are sent and received.  Generated accessors are record fields.
  \<^item> Threads inside a call: every call that takes a mutex is atomic.
  \<^item> eventpp's counter and conditional removers, whose wrappers do not compile when a callback is added; its
    mixins, whose filters may change the arguments of a dispatch; copies of dispatchers and queues; the choice
    of types by policies.
  \<^item> The Android activity with its views, and messages that several of its threads write at the same time.
  \<^item> Console output and the demonstration menus of main.cpp.
\<close>

end
